(* ===== verification/Prelude.thy ===== *)
theory Prelude
  imports Main "HOL-Library.Word"
begin

text \<open>
  Shared vocabulary of the development: the machine integer types of the C code, bytes and C
  strings with \<open>strncmp\<close>, states that are reachable under a step relation with the locale of an
  inductive invariant, and the generic lemmas on lists, sums and words that the component theories
  use.
\<close>

unbundle bit_operations_syntax

section \<open>Machine types\<close>

type_synonym u8 = "8 word"
type_synonym u16 = "16 word"
type_synonym u32 = "32 word"
type_synonym u64 = "64 word"

type_synonym bytes = "u8 list"

named_theorems lock_simps \<open>what the lock operations do to the fields of a lock\<close>
named_theorems table_simps \<open>field and length facts of the hash table updates\<close>

section \<open>Bytes and C strings\<close>

definition str :: "string \<Rightarrow> bytes" where
  "str s = map of_char s"

text \<open>
  \<open>strncmp(a, b, n) == 0\<close>: the comparison of the first \<open>n\<close> bytes stops at a
  NUL byte that both strings have at the same place. The sources only call it with \<open>n\<close> the
  common length of the two strings.
\<close>

fun strncmp_eq :: "bytes \<Rightarrow> bytes \<Rightarrow> bool" where
  "strncmp_eq (a # as) (b # bs) = (a = b \<and> (a = 0 \<or> strncmp_eq as bs))"
| "strncmp_eq [] [] = True"
| "strncmp_eq _ _ = False"

lemma strncmp_eq_refl [simp]: "strncmp_eq a a"
  by (induction a) auto

lemma strncmp_eq_iff:
  "0 \<notin> set a \<Longrightarrow> length a = length b \<Longrightarrow> strncmp_eq a b \<longleftrightarrow> a = b"
  by (induction a b rule: strncmp_eq.induct) auto

section \<open>Lists\<close>

lemma nth_list_update_if:
  "i < length xs \<Longrightarrow> xs[i := x] ! j = (if i = j then x else xs ! j)"
  by simp

lemma list_update_nth_eq [simp]: "i < length xs \<Longrightarrow> xs[i := xs ! i] = xs"
  by simp

text \<open>The number of elements that satisfy a predicate, after one element changes.\<close>

lemma count_filter_update:
  assumes "i < length xs"
  shows "length (filter P (xs[i := x])) + of_bool (P (xs ! i))
       = length (filter P xs) + of_bool (P x)"
proof -
  from assms have *: "xs = take i xs @ xs ! i # drop (Suc i) xs"
    by (rule id_take_nth_drop)
  have "filter P (xs[i := x])
      = filter P (take i xs) @ filter P [x] @ filter P (drop (Suc i) xs)"
    using assms by (simp add: upd_conv_take_nth_drop)
  moreover have "filter P xs
      = filter P (take i xs) @ filter P [xs ! i] @ filter P (drop (Suc i) xs)"
    by (subst *) simp
  ultimately show ?thesis by simp
qed

lemma count_filter_update_add:
  "i < length xs \<Longrightarrow> \<not> P (xs ! i) \<Longrightarrow> P x
    \<Longrightarrow> length (filter P (xs[i := x])) = Suc (length (filter P xs))"
  using count_filter_update [of i xs P x] by simp

lemma count_filter_update_del:
  "i < length xs \<Longrightarrow> P (xs ! i) \<Longrightarrow> \<not> P x
    \<Longrightarrow> Suc (length (filter P (xs[i := x]))) = length (filter P xs)"
  using count_filter_update [of i xs P x] by simp

text \<open>The first place of a range that satisfies a predicate.\<close>

definition first_in :: "(nat \<Rightarrow> bool) \<Rightarrow> nat \<Rightarrow> nat \<Rightarrow> nat option \<Rightarrow> bool" where
  "first_in P lo hi r \<longleftrightarrow>
     (case r of
        None \<Rightarrow> \<forall>b. lo \<le> b \<and> b < hi \<longrightarrow> \<not> P b
      | Some b \<Rightarrow> lo \<le> b \<and> b < hi \<and> P b \<and> (\<forall>x. lo \<le> x \<and> x < b \<longrightarrow> \<not> P x))"

lemma first_in_empty [simp]: "first_in P lo lo None"
  by (auto simp: first_in_def)

lemma first_in_skip:
  assumes "first_in P lo mid None" and "first_in P mid hi r" and "lo \<le> mid"
  shows "first_in P lo hi r"
proof -
  have "lo \<le> x \<Longrightarrow> P x \<Longrightarrow> mid \<le> x" for x
    using assms(1) by (auto simp: first_in_def not_less [symmetric])
  then show ?thesis
    using assms(2,3) unfolding first_in_def by (cases r) auto
qed

lemma first_in_weaken: "first_in P lo mid (Some b) \<Longrightarrow> mid \<le> hi \<Longrightarrow> first_in P lo hi (Some b)"
  by (auto simp: first_in_def)

section \<open>Words\<close>

lemma unat_add_one:
  fixes x :: "'a::len word"
  assumes "unat x < 2 ^ LENGTH('a) - 1"
  shows "unat (x + 1) = Suc (unat x)"
  using assms by (simp add: unat_word_ariths)

lemma unat_sub_one:
  fixes x :: "'a::len word"
  assumes "0 < unat x"
  shows "unat (x - 1) = unat x - 1"
  using assms by (metis One_nat_def Suc_leI unat_1 unat_sub word_le_nat_alt)

lemma and_mask_bound:
  fixes x :: "'a::len word"
  shows "unat (x AND m) \<le> unat m"
  by (rule word_and_le1 [THEN word_le_nat_alt [THEN iffD1]])

text \<open>The low bits of a word are its value modulo a power of two.\<close>

lemma and_pow2_minus_1:
  fixes x :: "'a::len word"
  assumes "n < LENGTH('a)"
  shows "unat (x AND (2 ^ n - 1)) = unat x mod 2 ^ n"
proof -
  have "(2 ^ n - 1 :: 'a word) = mask n"
    by (simp add: mask_eq_exp_minus_1)
  then have "x AND (2 ^ n - 1) = take_bit n x"
    by (simp add: take_bit_eq_mask)
  then have "unat (x AND (2 ^ n - 1)) = take_bit n (unat x)"
    by (simp only: unsigned_take_bit_eq)
  then show ?thesis
    by (simp only: take_bit_eq_mod)
qed

lemma unat_power2:
  assumes "n < LENGTH('a::len)"
  shows "unat (2 ^ n :: 'a word) = 2 ^ n"
proof -
  have "unat (2 ^ n :: 'a word) = unat (push_bit n (1 :: 'a word))"
    by (simp add: push_bit_eq_mult)
  also have "\<dots> = take_bit LENGTH('a) (2 ^ n)"
    unfolding unsigned_push_bit_eq by (simp add: push_bit_eq_mult)
  also have "\<dots> = 2 ^ n"
    using assms by (simp add: take_bit_eq_mod)
  finally show ?thesis .
qed

lemma unat_ucast_small:
  fixes w :: "'a::len word"
  assumes "unat w < 2 ^ LENGTH('b::len)"
  shows "unat (ucast w :: 'b word) = unat w"
  unfolding unsigned_ucast_eq using assms by (simp add: take_bit_nat_eq_self)

lemma unat_of_nat_small: "n < 2 ^ LENGTH('a::len) \<Longrightarrow> unat (of_nat n :: 'a word) = n"
  by (simp add: unat_of_nat take_bit_nat_eq_self)

text \<open>The number of trailing zeros, \<open>__builtin_ctz\<close> of a word that is not 0.\<close>

definition ctz :: "'a::len word \<Rightarrow> nat" where
  "ctz w = length (takeWhile (\<lambda>i. \<not> bit w i) [0..<LENGTH('a)])"

lemma ctz_least: "j < ctz w \<Longrightarrow> \<not> bit w j"
  unfolding ctz_def
  by (metis (no_types, lifting) add_0 length_takeWhile_le length_upt less_le_trans minus_nat.diff_0
      nth_mem nth_upt set_takeWhileD takeWhile_nth)

lemma bit_ctz:
  fixes w :: "'a::len word"
  assumes "w \<noteq> 0"
  shows "bit w (ctz w)"
proof -
  from assms obtain i where i: "bit w i" by (auto simp: bit_eq_iff)
  then have "i < LENGTH('a)" by (rule bit_imp_le_length)
  with i have "takeWhile (\<lambda>i. \<not> bit w i) [0..<LENGTH('a)] \<noteq> [0..<LENGTH('a)]"
    by (subst takeWhile_eq_all_conv) auto
  then have "length (takeWhile (\<lambda>i. \<not> bit w i) [0..<LENGTH('a)]) < length [0..<LENGTH('a)]"
    by (metis length_takeWhile_le nat_less_le take_all_iff order_refl takeWhile_eq_take)
  from nth_length_takeWhile [OF this] this show ?thesis
    unfolding ctz_def by simp
qed

lemma ctz_less: "w \<noteq> 0 \<Longrightarrow> ctz (w :: 'a::len word) < LENGTH('a)"
  by (rule bit_imp_le_length) (rule bit_ctz)

text \<open>A mask built one bit at a time.\<close>

definition mask_of :: "(nat \<Rightarrow> bool) \<Rightarrow> nat list \<Rightarrow> u32" where
  "mask_of P is = fold (\<lambda>i r. if P i then r OR push_bit i 1 else r) is 0"

lemma bit_mask_of_acc:
  "bit (fold (\<lambda>i r. if P i then r OR push_bit i 1 else r) is (r :: u32)) j
    \<longleftrightarrow> bit r j \<or> j < 32 \<and> j \<in> set is \<and> P j"
  by (induction "is" arbitrary: r) (auto simp: bit_simps dest: bit_imp_le_length)

lemma bit_mask_of [simp]: "bit (mask_of P is) j \<longleftrightarrow> j < 32 \<and> j \<in> set is \<and> P j"
  by (simp add: mask_of_def bit_mask_of_acc)

section \<open>Transition systems\<close>

inductive reachable :: "('s \<Rightarrow> bool) \<Rightarrow> ('s \<Rightarrow> 's \<Rightarrow> bool) \<Rightarrow> 's \<Rightarrow> bool"
  for init :: "'s \<Rightarrow> bool" and step :: "'s \<Rightarrow> 's \<Rightarrow> bool" where
  reachable_init: "init s \<Longrightarrow> reachable init step s"
| reachable_step: "reachable init step s \<Longrightarrow> step s t \<Longrightarrow> reachable init step t"

text \<open>An inductive invariant of a transition system holds in its reachable states.\<close>

locale inductive_invariant =
  fixes init :: "'s \<Rightarrow> bool"
    and step :: "'s \<Rightarrow> 's \<Rightarrow> bool"
    and inv :: "'s \<Rightarrow> bool"
  assumes inv_init: "init s \<Longrightarrow> inv s"
    and inv_step: "inv s \<Longrightarrow> step s t \<Longrightarrow> inv t"
begin

lemma inv_reachable: "reachable init step s \<Longrightarrow> inv s"
  by (induction rule: reachable.induct) (auto intro: inv_init inv_step)

end

lemma sum_fun_upd:
  fixes w :: "'b \<Rightarrow> nat" and f :: "'a::finite \<Rightarrow> 'b"
  shows "(\<Sum>t\<in>UNIV. w ((f(a := x)) t)) + w (f a) = (\<Sum>t\<in>UNIV. w (f t)) + w x"
proof -
  have "(\<Sum>t\<in>UNIV. w ((f(a := x)) t)) = w x + (\<Sum>t\<in>UNIV - {a}. w (f t))"
    by (subst sum.remove [of UNIV a]) (auto intro!: sum.cong)
  moreover have "(\<Sum>t\<in>UNIV. w (f t)) = w (f a) + (\<Sum>t\<in>UNIV - {a}. w (f t))"
    by (subst sum.remove [of UNIV a]) auto
  ultimately show ?thesis by simp
qed

end
