(* ===== verification/Pow2.thy ===== *)
theory Pow2
  imports Prelude
begin

text \<open>
  \<open>src/src/pow2.h\<close>: rounding up to a power of two, used to size the ring queues and both
  hash tables. The bit-smearing of \<open>pow2_next_pow2m1\<close> is proved to compute the least power
  of two that is not smaller than its argument.
\<close>

definition pow2_next_pow2m1 :: "u64 \<Rightarrow> u64" where
  "pow2_next_pow2m1 x =
    (let x = x OR drop_bit 1 x;
         x = x OR drop_bit 2 x;
         x = x OR drop_bit 4 x;
         x = x OR drop_bit 8 x;
         x = x OR drop_bit 16 x
     in x OR drop_bit 32 x)"

definition pow2_next :: "u64 \<Rightarrow> u64" where
  "pow2_next x = pow2_next_pow2m1 (x - 1) + 1"

definition pow2_is :: "u64 \<Rightarrow> bool" where
  "pow2_is x \<longleftrightarrow> x \<noteq> 0 \<and> x AND (x - 1) = 0"

text \<open>One smearing step doubles the window in which a set bit is looked for.\<close>

definition smeared :: "nat \<Rightarrow> u64 \<Rightarrow> u64 \<Rightarrow> bool" where
  "smeared n x y \<longleftrightarrow> (\<forall>i. bit y i \<longleftrightarrow> (\<exists>d<n. bit x (i + d)))"

lemma smeared_step:
  assumes "smeared n x y" and "m = n + n"
  shows "smeared m x (y OR drop_bit n y)"
  unfolding smeared_def assms(2)
proof
  fix i
  have "bit (y OR drop_bit n y) i \<longleftrightarrow> bit y i \<or> bit y (n + i)"
    by (simp add: bit_or_iff bit_drop_bit_eq)
  also have "\<dots> \<longleftrightarrow> (\<exists>d<n. bit x (i + d)) \<or> (\<exists>d<n. bit x (i + (n + d)))"
    using assms(1) by (simp add: smeared_def ac_simps)
  also have "\<dots> \<longleftrightarrow> (\<exists>d<n + n. bit x (i + d))"
  proof
    assume "(\<exists>d<n. bit x (i + d)) \<or> (\<exists>d<n. bit x (i + (n + d)))"
    then show "\<exists>d<n + n. bit x (i + d)"
      by (metis nat_add_left_cancel_less trans_less_add2)
  next
    assume "\<exists>d<n + n. bit x (i + d)"
    then obtain d where "d < n + n" and "bit x (i + d)" by blast
    then show "(\<exists>d<n. bit x (i + d)) \<or> (\<exists>d<n. bit x (i + (n + d)))"
      by (cases "d < n") (auto intro: exI [of _ "d - n"])
  qed
  finally show "bit (y OR drop_bit n y) i \<longleftrightarrow> (\<exists>d<n + n. bit x (i + d))" .
qed

lemma smeared_64: "smeared 64 x (pow2_next_pow2m1 x)"
proof -
  let ?y1 = "x OR drop_bit 1 x"
  let ?y2 = "?y1 OR drop_bit 2 ?y1"
  let ?y3 = "?y2 OR drop_bit 4 ?y2"
  let ?y4 = "?y3 OR drop_bit 8 ?y3"
  let ?y5 = "?y4 OR drop_bit 16 ?y4"
  have "smeared 1 x x" by (simp add: smeared_def)
  then have "smeared 2 x ?y1" by (rule smeared_step) simp
  then have "smeared 4 x ?y2" by (rule smeared_step) simp
  then have "smeared 8 x ?y3" by (rule smeared_step) simp
  then have "smeared 16 x ?y4" by (rule smeared_step) simp
  then have "smeared 32 x ?y5" by (rule smeared_step) simp
  then show ?thesis unfolding pow2_next_pow2m1_def Let_def by (rule smeared_step) simp
qed

lemma top_bit:
  fixes x :: u64
  assumes "x \<noteq> 0"
  obtains m where "m < 64" and "bit x m" and "\<forall>j>m. \<not> bit x j"
proof -
  let ?S = "{i. bit x i}"
  have sub: "?S \<subseteq> {..<64}" using bit_imp_le_length [of x] by auto
  then have fin: "finite ?S" by (rule finite_subset) simp
  have ne: "?S \<noteq> {}"
  proof
    assume "?S = {}"
    then have "x = 0" by (intro bit_word_eqI) auto
    with assms show False by simp
  qed
  show ?thesis
  proof (rule that [of "Max ?S"])
    show "bit x (Max ?S)" using Max_in [OF fin ne] by simp
    then show "Max ?S < 64" using sub by blast
    show "\<forall>j>Max ?S. \<not> bit x j"
      using Max_ge [OF fin] by (metis linorder_not_le mem_Collect_eq)
  qed
qed

lemma pow2_next_pow2m1_mask:
  assumes "m < 64" and "bit x m" and "\<forall>j>m. \<not> bit x j"
  shows "pow2_next_pow2m1 x = mask (Suc m)"
proof (rule bit_word_eqI)
  fix i assume "i < LENGTH(64)"
  have "bit (pow2_next_pow2m1 x) i \<longleftrightarrow> (\<exists>d<64. bit x (i + d))"
    using smeared_64 [of x] by (simp add: smeared_def)
  also have "\<dots> \<longleftrightarrow> i \<le> m"
  proof
    assume "\<exists>d<64. bit x (i + d)"
    then obtain d where "bit x (i + d)" by blast
    with assms(3) have "\<not> m < i + d" by blast
    then show "i \<le> m" by simp
  next
    assume "i \<le> m"
    with assms(1,2) show "\<exists>d<64. bit x (i + d)" by (intro exI [of _ "m - i"]) simp
  qed
  finally show "bit (pow2_next_pow2m1 x) i \<longleftrightarrow> bit (mask (Suc m) :: u64) i"
    using \<open>i < LENGTH(64)\<close> by (simp add: bit_mask_iff less_Suc_eq_le)
qed


lemma bit_imp_ge_exp:
  fixes x :: u64
  assumes "bit x m"
  shows "2 ^ m \<le> unat x"
proof (rule ccontr)
  assume "\<not> 2 ^ m \<le> unat x"
  then have "unat x div 2 ^ m = 0" by simp
  then have "\<not> bit (unat x) m" by (simp add: bit_iff_odd)
  with assms show False by (simp add: bit_unsigned_iff bit_imp_le_length)
qed

lemma top_bit_bounds:
  fixes x :: u64
  assumes "bit x m" and "\<forall>j>m. \<not> bit x j"
  shows "2 ^ m \<le> unat x" and "unat x < 2 ^ Suc m"
proof -
  from assms(1) show "2 ^ m \<le> unat x" by (rule bit_imp_ge_exp)
  have "take_bit (Suc m) x = x"
    using assms(2) by (intro bit_word_eqI) (auto simp: bit_take_bit_iff not_less_eq)
  then have "take_bit (Suc m) (unat x) = unat x" by (metis unsigned_take_bit_eq)
  then show "unat x < 2 ^ Suc m" by (metis take_bit_nat_less_exp)
qed

lemma pow2_next_exp:
  assumes "1 < unat x" and "unat x \<le> 2 ^ 63"
  obtains m where "m < 63" and "pow2_next x = 2 ^ Suc m"
    and "2 ^ m < unat x" and "unat x \<le> 2 ^ Suc m"
proof -
  have x1: "unat (x - 1) = unat x - 1" using assms by (intro unat_sub_one) simp
  then have "x - 1 \<noteq> 0" using assms by (metis unat_0 diff_is_0_eq not_le)
  then obtain m where m: "m < 64" "bit (x - 1) m" "\<forall>j>m. \<not> bit (x - 1) j"
    by (rule top_bit)
  have lo: "2 ^ m \<le> unat (x - 1)" and hi: "unat (x - 1) < 2 ^ Suc m"
    using top_bit_bounds [OF m(2,3)] by auto
  show ?thesis
  proof (rule that [of m])
    have "(2::nat) ^ m < 2 ^ 63" using lo x1 assms by linarith
    then show "m < 63" using power_less_imp_less_exp by (metis one_less_numeral_iff semiring_norm(76))
    have "pow2_next x = mask (Suc m) + 1"
      using pow2_next_pow2m1_mask [OF m] by (simp add: pow2_next_def)
    then show "pow2_next x = 2 ^ Suc m" by (simp add: mask_eq_exp_minus_1)
    show "2 ^ m < unat x" and "unat x \<le> 2 ^ Suc m" using lo hi x1 assms by linarith+
  qed
qed

lemma unat_exp: "m < 64 \<Longrightarrow> unat (2 ^ m :: u64) = 2 ^ m"
  by (simp add: unat_power2)

lemma pow2_is_exp: "m < 64 \<Longrightarrow> pow2_is (2 ^ m)"
proof -
  assume "m < 64"
  then have nz: "(2 ^ m :: u64) \<noteq> 0" by (metis unat_exp unat_0 power_not_zero zero_neq_numeral)
  have "(2 ^ m :: u64) AND (2 ^ m - 1) = 0"
    by (rule bit_word_eqI) (auto simp: bit_and_iff bit_exp_iff bit_mask_iff simp flip: mask_eq_exp_minus_1)
  with nz show ?thesis by (simp add: pow2_is_def)
qed

lemma pow2_is_iff: "pow2_is x \<longleftrightarrow> (\<exists>m<64. x = 2 ^ m)"
proof
  assume p: "pow2_is x"
  then have "x \<noteq> 0" by (simp add: pow2_is_def)
  then obtain m where m: "m < 64" "bit x m" "\<forall>j>m. \<not> bit x j" by (rule top_bit)
  have lo: "2 ^ m \<le> unat x" and hi: "unat x < 2 ^ Suc m" using top_bit_bounds [OF m(2,3)] by auto
  have "unat x = 2 ^ m"
  proof (rule ccontr)
    assume "unat x \<noteq> 2 ^ m"
    with lo hi have "2 ^ m \<le> unat (x - 1)" "unat (x - 1) < 2 ^ Suc m"
      by (simp_all add: unat_sub_one)
    then have "drop_bit m (unat (x - 1)) = 1"
      by (simp add: drop_bit_eq_div div_nat_eqI)
    then have "bit (x - 1) m" by (metis bit_iff_odd_drop_bit bit_unsigned_iff odd_one)
    with m(2) have "bit (x AND (x - 1)) m" by (simp add: bit_and_iff)
    with p show False by (simp add: pow2_is_def)
  qed
  with m(1) have "x = 2 ^ m" by (metis unat_exp word_unat_eq_iff)
  with m(1) show "\<exists>m<64. x = 2 ^ m" by blast
qed (auto intro: pow2_is_exp)

end
