(* ===== verification/Transaction.thy ===== *)
theory Transaction
  imports Prelude
begin

text \<open>
  \<open>src/src/transaction.h\<close> and \<open>src/src/transaction.c\<close>: the reader/writer spinlock
  that guards every chunk of the hash table, the transactions that own such locks, and the
  thread-local manager that numbers them.

  A lock operation is a function on one lock and the transaction that asks for it; the place of
  the lock (the pointer the C code keeps in the lock list) is an extra argument \<open>a\<close> of an
  arbitrary type. The spinning loops are modelled for a thread that runs alone while it spins
  (the lock does not change under it); the interleaving of several transactions on one lock is
  the step relation \<open>rwlock_step\<close> of the last section. \<open>xalloc_alloc\<close> and
  \<open>xalloc_realloc\<close> never return NULL (they call FATAL), so growing the list of locks
  does not fail.
\<close>

section \<open>Data\<close>

record transaction_rwspinlock =
  transaction_id :: u32
  readers_count :: u16
  reserved :: u16

datatype transaction_lock_type =
    TRANSACTION_LOCK_TYPE_NONE
  | TRANSACTION_LOCK_TYPE_READ
  | TRANSACTION_LOCK_TYPE_WRITE

record 'a transaction_locks_list_entry =
  spinlock :: 'a
  lock_type :: transaction_lock_type

text \<open>
  The fields \<open>locks.list\<close> and \<open>locks.count\<close> are one list; \<open>locks.size\<close> is its
  capacity. The transaction id is the union of the two 16 bit indexes.
\<close>

record 'a transaction =
  transaction_index :: u16
  worker_index :: u16
  locks_size :: u32
  locks_list :: "'a transaction_locks_list_entry list"

definition id_of :: "'a transaction \<Rightarrow> u32" where
  "id_of t = push_bit 16 (ucast (worker_index t)) OR ucast (transaction_index t)"

definition TRANSACTION_ID_NOT_ACQUIRED :: u32 where
  "TRANSACTION_ID_NOT_ACQUIRED = 0"

definition TRANSACTION_SPINLOCK_UNLOCKED :: u32 where
  "TRANSACTION_SPINLOCK_UNLOCKED = 0"

definition max_spins_before_probably_stuck :: nat where
  "max_spins_before_probably_stuck = 2 ^ 26"

section \<open>The reader/writer spinlock\<close>

definition transaction_rwspinlock_init :: "transaction_rwspinlock \<Rightarrow> transaction_rwspinlock" where
  "transaction_rwspinlock_init lk =
     lk\<lparr>transaction_id := TRANSACTION_SPINLOCK_UNLOCKED, readers_count := 0\<rparr>"

definition transaction_rwspinlock_unlock_internal ::
    "transaction_rwspinlock \<Rightarrow> transaction_rwspinlock" where
  "transaction_rwspinlock_unlock_internal lk =
     lk\<lparr>transaction_id := TRANSACTION_SPINLOCK_UNLOCKED\<rparr>"

definition transaction_rwspinlock_is_write_locked :: "transaction_rwspinlock \<Rightarrow> bool" where
  "transaction_rwspinlock_is_write_locked lk \<longleftrightarrow>
     transaction_id lk \<noteq> TRANSACTION_SPINLOCK_UNLOCKED"

definition transaction_rwspinlock_is_owned_by_transaction ::
    "transaction_rwspinlock \<Rightarrow> 'a transaction \<Rightarrow> bool" where
  "transaction_rwspinlock_is_owned_by_transaction lk t \<longleftrightarrow> transaction_id lk = id_of t"

text \<open>The compare-and-swap on the 8 bytes of the lock: the old value, or the new one.\<close>

definition transaction_rwspinlock_try_write_lock_internal ::
    "transaction_rwspinlock \<Rightarrow> u32 \<Rightarrow> u16 \<Rightarrow> bool \<times> transaction_rwspinlock" where
  "transaction_rwspinlock_try_write_lock_internal lk tid expected_readers =
     (let new_value =
            \<lparr>transaction_id = tid, readers_count = expected_readers, reserved = reserved lk\<rparr>;
          expected_value =
            \<lparr>transaction_id = TRANSACTION_SPINLOCK_UNLOCKED, readers_count = expected_readers,
             reserved = reserved lk\<rparr>
      in if lk = expected_value then (True, new_value) else (False, lk))"

fun transaction_rwspinlock_wait_write_lock_loop :: "nat \<Rightarrow> transaction_rwspinlock \<Rightarrow> bool" where
  "transaction_rwspinlock_wait_write_lock_loop spins lk =
     (if \<not> transaction_rwspinlock_is_write_locked lk then True
      else if spins = 0 then False
      else transaction_rwspinlock_wait_write_lock_loop (spins - 1) lk)"

definition transaction_rwspinlock_wait_write_lock_internal ::
    "transaction_rwspinlock \<Rightarrow> bool" where
  "transaction_rwspinlock_wait_write_lock_internal lk =
     transaction_rwspinlock_wait_write_lock_loop max_spins_before_probably_stuck lk"

fun transaction_rwspinlock_write_lock_loop ::
    "nat \<Rightarrow> transaction_rwspinlock \<Rightarrow> u32 \<Rightarrow> u16 \<Rightarrow> bool \<times> transaction_rwspinlock" where
  "transaction_rwspinlock_write_lock_loop spins lk tid expected_readers =
     (let (res, lk') = transaction_rwspinlock_try_write_lock_internal lk tid expected_readers
      in if res then (True, lk')
         else if spins = 0 then (False, lk')
         else transaction_rwspinlock_write_lock_loop (spins - 1) lk' tid expected_readers)"

definition transaction_rwspinlock_write_lock_internal ::
    "transaction_rwspinlock \<Rightarrow> 'a transaction \<Rightarrow> u16 \<Rightarrow> bool \<times> transaction_rwspinlock" where
  "transaction_rwspinlock_write_lock_internal lk t expected_readers =
     transaction_rwspinlock_write_lock_loop
       max_spins_before_probably_stuck lk (id_of t) expected_readers"

definition transaction_rwspinlock_readers_increment ::
    "transaction_rwspinlock \<Rightarrow> transaction_rwspinlock" where
  "transaction_rwspinlock_readers_increment lk = lk\<lparr>readers_count := readers_count lk + 1\<rparr>"

definition transaction_rwspinlock_readers_decrement ::
    "transaction_rwspinlock \<Rightarrow> transaction_rwspinlock" where
  "transaction_rwspinlock_readers_decrement lk = lk\<lparr>readers_count := readers_count lk - 1\<rparr>"

section \<open>Transactions\<close>

text \<open>The thread-local state of \<open>transaction.c\<close>.\<close>

record transaction_manager =
  transaction_manager_worker_index :: u32
  transaction_manager_transaction_index :: u16
  transaction_manager_inited :: bool

definition transaction_set_worker_index ::
    "u32 \<Rightarrow> transaction_manager \<Rightarrow> transaction_manager" where
  "transaction_set_worker_index wi m = m\<lparr>transaction_manager_worker_index := wi\<rparr>"

definition transaction_manager_init :: "u32 \<Rightarrow> transaction_manager \<Rightarrow> transaction_manager" where
  "transaction_manager_init context_worker_index m =
     transaction_set_worker_index context_worker_index m"

definition transaction_peek_current_thread_index :: "transaction_manager \<Rightarrow> u16" where
  "transaction_peek_current_thread_index m = transaction_manager_transaction_index m"

definition transaction_acquire ::
    "u32 \<Rightarrow> transaction_manager \<Rightarrow> 'a transaction \<times> transaction_manager" where
  "transaction_acquire context_worker_index m0 =
     (let m1 = (if \<not> transaction_manager_inited m0
                then (transaction_manager_init context_worker_index m0)
                       \<lparr>transaction_manager_inited := True\<rparr>
                else m0);
          m2 = m1\<lparr>transaction_manager_transaction_index :=
                     transaction_manager_transaction_index m1 + 1\<rparr>;
          m3 = (if transaction_manager_worker_index m2 = 0
                   \<and> transaction_manager_transaction_index m2 = 0
                then m2\<lparr>transaction_manager_transaction_index :=
                          transaction_manager_transaction_index m2 + 1\<rparr>
                else m2)
      in (\<lparr>transaction_index = transaction_manager_transaction_index m3,
           worker_index = ucast (transaction_manager_worker_index m3),
           locks_size = 2, locks_list = []\<rparr>, m3))"

definition transaction_needs_expand_locks_list :: "'a transaction \<Rightarrow> bool" where
  "transaction_needs_expand_locks_list t \<longleftrightarrow>
     (of_nat (length (locks_list t)) :: u32) = locks_size t"

definition transaction_expand_locks_list :: "'a transaction \<Rightarrow> 'a transaction" where
  "transaction_expand_locks_list t = t\<lparr>locks_size := locks_size t * 2\<rparr>"

definition transaction_locks_list_add ::
    "'a transaction \<Rightarrow> 'a \<Rightarrow> transaction_lock_type \<Rightarrow> 'a transaction" where
  "transaction_locks_list_add t0 a ty =
     (let t = (if transaction_needs_expand_locks_list t0
               then transaction_expand_locks_list t0 else t0)
      in t\<lparr>locks_list := locks_list t @ [\<lparr>spinlock = a, lock_type = ty\<rparr>]\<rparr>)"

definition transaction_lock_for_write_expecting ::
    "u16 \<Rightarrow> 'a transaction \<Rightarrow> 'a \<Rightarrow> transaction_rwspinlock
      \<Rightarrow> bool \<times> 'a transaction \<times> transaction_rwspinlock" where
  "transaction_lock_for_write_expecting expected_readers t a lk =
     (let (res, lk') = (if \<not> transaction_rwspinlock_is_owned_by_transaction lk t
                        then transaction_rwspinlock_write_lock_internal lk t expected_readers
                        else (True, lk))
      in if \<not> res then (False, t, lk')
         else (True, transaction_locks_list_add t a TRANSACTION_LOCK_TYPE_WRITE, lk'))"

definition transaction_lock_for_write ::
    "'a transaction \<Rightarrow> 'a \<Rightarrow> transaction_rwspinlock
      \<Rightarrow> bool \<times> 'a transaction \<times> transaction_rwspinlock" where
  "transaction_lock_for_write = transaction_lock_for_write_expecting 0"

definition transaction_upgrade_lock_for_write ::
    "'a transaction \<Rightarrow> 'a \<Rightarrow> transaction_rwspinlock
      \<Rightarrow> bool \<times> 'a transaction \<times> transaction_rwspinlock" where
  "transaction_upgrade_lock_for_write = transaction_lock_for_write_expecting 1"

definition transaction_lock_for_read ::
    "'a transaction \<Rightarrow> 'a \<Rightarrow> transaction_rwspinlock
      \<Rightarrow> bool \<times> 'a transaction \<times> transaction_rwspinlock" where
  "transaction_lock_for_read t a lk =
     (let lk1 = transaction_rwspinlock_readers_increment lk
      in if \<not> transaction_rwspinlock_wait_write_lock_internal lk1
         then (False, t, transaction_rwspinlock_readers_decrement lk1)
         else (True, transaction_locks_list_add t a TRANSACTION_LOCK_TYPE_READ, lk1))"

text \<open>
  \<open>transaction_release\<close> walks the list of locks; the locks it points to are in a store, a
  function from places to locks.
\<close>

definition transaction_release_entry ::
    "'a transaction_locks_list_entry \<Rightarrow> ('a \<Rightarrow> transaction_rwspinlock)
      \<Rightarrow> ('a \<Rightarrow> transaction_rwspinlock)" where
  "transaction_release_entry e L =
     (if lock_type e = TRANSACTION_LOCK_TYPE_WRITE
      then L(spinlock e := transaction_rwspinlock_unlock_internal (L (spinlock e)))
      else L(spinlock e := transaction_rwspinlock_readers_decrement (L (spinlock e))))"

definition transaction_release ::
    "'a transaction \<Rightarrow> ('a \<Rightarrow> transaction_rwspinlock)
      \<Rightarrow> 'a transaction \<times> ('a \<Rightarrow> transaction_rwspinlock)" where
  "transaction_release t L =
     (t\<lparr>transaction_index := 0, worker_index := 0, locks_list := []\<rparr>,
      fold transaction_release_entry (locks_list t) L)"


section \<open>What the operations do to a lock\<close>

declare transaction_rwspinlock_wait_write_lock_loop.simps [simp del]
declare transaction_rwspinlock_write_lock_loop.simps [simp del]

lemma wait_write_lock_loop_alone:
  "transaction_rwspinlock_wait_write_lock_loop n lk
    \<longleftrightarrow> \<not> transaction_rwspinlock_is_write_locked lk"
  by (induction n; subst transaction_rwspinlock_wait_write_lock_loop.simps) simp_all

lemma try_write_lock_eq:
  "transaction_rwspinlock_try_write_lock_internal lk tid e
     = (if transaction_id lk = 0 \<and> readers_count lk = e
        then (True, lk\<lparr>transaction_id := tid\<rparr>) else (False, lk))"
  by (cases lk)
    (auto simp: transaction_rwspinlock_try_write_lock_internal_def Let_def
      TRANSACTION_SPINLOCK_UNLOCKED_def)

lemma write_lock_loop_alone:
  "transaction_rwspinlock_write_lock_loop n lk tid e
     = transaction_rwspinlock_try_write_lock_internal lk tid e"
  by (induction n; subst transaction_rwspinlock_write_lock_loop.simps)
    (simp_all add: try_write_lock_eq)

lemma locks_list_add [lock_simps]:
  "locks_list (transaction_locks_list_add t a ty)
     = locks_list t @ [\<lparr>spinlock = a, lock_type = ty\<rparr>]"
  "id_of (transaction_locks_list_add t a ty) = id_of t"
  by (simp_all add: transaction_locks_list_add_def transaction_expand_locks_list_def
      Let_def id_of_def)

lemma lock_for_write_expecting_eq:
  "transaction_lock_for_write_expecting e t a lk
     = (if transaction_id lk = id_of t
        then (True, transaction_locks_list_add t a TRANSACTION_LOCK_TYPE_WRITE, lk)
        else if transaction_id lk = 0 \<and> readers_count lk = e
        then (True, transaction_locks_list_add t a TRANSACTION_LOCK_TYPE_WRITE,
              lk\<lparr>transaction_id := id_of t\<rparr>)
        else (False, t, lk))"
  by (simp add: transaction_lock_for_write_expecting_def
      transaction_rwspinlock_is_owned_by_transaction_def
      transaction_rwspinlock_write_lock_internal_def write_lock_loop_alone try_write_lock_eq)

lemma lock_for_read_eq:
  "transaction_lock_for_read t a lk
     = (if transaction_id lk = 0
        then (True, transaction_locks_list_add t a TRANSACTION_LOCK_TYPE_READ,
              lk\<lparr>readers_count := readers_count lk + 1\<rparr>)
        else (False, t, lk))"
  by (cases lk)
    (simp add: transaction_lock_for_read_def Let_def wait_write_lock_loop_alone
      transaction_rwspinlock_wait_write_lock_internal_def
      transaction_rwspinlock_readers_increment_def transaction_rwspinlock_readers_decrement_def
      transaction_rwspinlock_is_write_locked_def TRANSACTION_SPINLOCK_UNLOCKED_def)

lemmas lock_request_defs =
  transaction_lock_for_write_def transaction_upgrade_lock_for_write_def
  lock_for_write_expecting_eq lock_for_read_eq

section \<open>Transaction ids\<close>

lemma id_of_low: "ucast (id_of t) = transaction_index t"
  by (rule bit_word_eqI) (simp add: id_of_def bit_simps)

lemma id_of_high: "ucast (drop_bit 16 (id_of t)) = worker_index t"
  by (rule bit_word_eqI) (auto simp: id_of_def bit_simps dest: bit_imp_le_length)

lemma id_of_eq_iff:
  "id_of t = id_of u
    \<longleftrightarrow> worker_index t = worker_index u \<and> transaction_index t = transaction_index u"
proof
  assume eq: "id_of t = id_of u"
  have "transaction_index t = transaction_index u"
    using id_of_low [of t] id_of_low [of u] eq by simp
  moreover have "worker_index t = worker_index u"
    using id_of_high [of t] id_of_high [of u] eq by simp
  ultimately show "worker_index t = worker_index u \<and> transaction_index t = transaction_index u"
    by simp
qed (simp add: id_of_def)

text \<open>
  The manager never hands out the id 0, which means not acquired, as long as worker indexes fit
  in 16 bits (\<open>transaction_manager_init\<close> asserts it).
\<close>

lemma acquire_fresh [lock_simps]: "locks_list (fst (transaction_acquire wi m)) = []"
  by (simp add: transaction_acquire_def Let_def)

definition manager_worker :: "u32 \<Rightarrow> transaction_manager \<Rightarrow> u32" where
  "manager_worker wi m =
     (if transaction_manager_inited m then transaction_manager_worker_index m else wi)"

lemma acquire_worker:
  "worker_index (fst (transaction_acquire wi m)) = ucast (manager_worker wi m)"
  by (simp add: transaction_acquire_def Let_def manager_worker_def transaction_manager_init_def
      transaction_set_worker_index_def)

lemma ucast_u16_eq_iff:
  assumes "unat (v :: u32) \<le> 65535" and "unat (w :: u32) \<le> 65535"
  shows "(ucast v :: u16) = ucast w \<longleftrightarrow> v = w"
proof -
  have "unat (ucast v :: u16) = unat v" "unat (ucast w :: u16) = unat w"
    using assms by (simp_all add: unat_ucast_small)
  then show ?thesis by (metis word_unat_eq_iff)
qed

lemma acquire_index_nonzero:
  "manager_worker wi m = 0 \<Longrightarrow> transaction_index (fst (transaction_acquire wi m)) \<noteq> 0"
  by (auto simp: transaction_acquire_def Let_def manager_worker_def transaction_manager_init_def
      transaction_set_worker_index_def split: if_splits)

lemma acquire_id_nonzero:
  assumes "transaction_acquire wi m = (t, m')" and "unat (manager_worker wi m) \<le> 65535"
  shows "id_of t \<noteq> TRANSACTION_ID_NOT_ACQUIRED"
proof
  assume "id_of t = TRANSACTION_ID_NOT_ACQUIRED"
  then have "id_of t = id_of (t\<lparr>transaction_index := 0, worker_index := 0\<rparr>)"
    by (simp add: TRANSACTION_ID_NOT_ACQUIRED_def id_of_def)
  then have z: "worker_index t = 0" "transaction_index t = 0"
    by (auto simp: id_of_eq_iff)
  then have "(ucast (manager_worker wi m) :: u16) = ucast (0 :: u32)"
    using assms by (metis acquire_worker fst_conv unsigned_0)
  with assms have "manager_worker wi m = 0" by (subst (asm) ucast_u16_eq_iff) auto
  then show False using z assms by (metis acquire_index_nonzero fst_conv)
qed

section \<open>A transaction gives back what it took\<close>

text \<open>
  A request for one lock, on a store of locks. A request that is refused leaves the store and
  the transaction as they were.
\<close>

datatype 'a lock_request = Lock_read 'a | Lock_write 'a | Lock_upgrade 'a

fun perform :: "'a lock_request \<Rightarrow> 'a transaction \<times> ('a \<Rightarrow> transaction_rwspinlock)
    \<Rightarrow> 'a transaction \<times> ('a \<Rightarrow> transaction_rwspinlock)" where
  "perform (Lock_read a) (t, L) =
     (let (_, t', lk) = transaction_lock_for_read t a (L a) in (t', L(a := lk)))"
| "perform (Lock_write a) (t, L) =
     (let (_, t', lk) = transaction_lock_for_write t a (L a) in (t', L(a := lk)))"
| "perform (Lock_upgrade a) (t, L) =
     (let (_, t', lk) = transaction_upgrade_lock_for_write t a (L a) in (t', L(a := lk)))"

fun reads_of :: "'a \<Rightarrow> 'a transaction_locks_list_entry list \<Rightarrow> nat" where
  "reads_of a [] = 0"
| "reads_of a (e # es) =
     (if spinlock e = a \<and> lock_type e \<noteq> TRANSACTION_LOCK_TYPE_WRITE then Suc (reads_of a es)
      else reads_of a es)"

fun writes_of :: "'a \<Rightarrow> 'a transaction_locks_list_entry list \<Rightarrow> bool" where
  "writes_of a [] = False"
| "writes_of a (e # es) =
     (spinlock e = a \<and> lock_type e = TRANSACTION_LOCK_TYPE_WRITE \<or> writes_of a es)"

lemma reads_of_append [simp]: "reads_of a (es @ fs) = reads_of a es + reads_of a fs"
  by (induction es) auto

lemma writes_of_append [simp]: "writes_of a (es @ fs) \<longleftrightarrow> writes_of a es \<or> writes_of a fs"
  by (induction es) auto

text \<open>What the list of locks of a transaction says about a lock, from its value at the start.\<close>

definition lock_accounted ::
    "'a transaction \<Rightarrow> 'a \<Rightarrow> transaction_rwspinlock \<Rightarrow> transaction_rwspinlock \<Rightarrow> bool" where
  "lock_accounted t a lk0 lk \<longleftrightarrow>
     reserved lk = reserved lk0
     \<and> readers_count lk = readers_count lk0 + of_nat (reads_of a (locks_list t))
     \<and> (if writes_of a (locks_list t) then transaction_id lk0 = 0 \<and> transaction_id lk = id_of t
        else transaction_id lk = transaction_id lk0)"

lemma lock_accounted_other:
  "a \<noteq> b \<Longrightarrow> lock_accounted (transaction_locks_list_add t b ty) a lk0 lk
    \<longleftrightarrow> lock_accounted t a lk0 lk"
  by (simp add: lock_accounted_def lock_simps)

lemma lock_accounted_read:
  "lock_accounted t a lk0 lk
    \<Longrightarrow> lock_accounted (transaction_locks_list_add t a TRANSACTION_LOCK_TYPE_READ) a lk0
          (lk\<lparr>readers_count := readers_count lk + 1\<rparr>)"
  by (simp add: lock_accounted_def lock_simps)

lemma lock_accounted_write:
  "lock_accounted t a lk0 lk \<Longrightarrow> transaction_id lk = 0 \<Longrightarrow> id_of t \<noteq> 0
    \<Longrightarrow> lock_accounted (transaction_locks_list_add t a TRANSACTION_LOCK_TYPE_WRITE) a lk0
          (lk\<lparr>transaction_id := id_of t\<rparr>)"
  by (auto simp: lock_accounted_def lock_simps split: if_splits)

lemma lock_accounted_owned:
  "lock_accounted t a lk0 lk \<Longrightarrow> transaction_id lk = id_of t \<Longrightarrow> transaction_id lk0 \<noteq> id_of t
    \<Longrightarrow> lock_accounted (transaction_locks_list_add t a TRANSACTION_LOCK_TYPE_WRITE) a lk0 lk"
  by (auto simp: lock_accounted_def lock_simps split: if_splits)

definition locks_accounted ::
    "('a \<Rightarrow> transaction_rwspinlock) \<Rightarrow> 'a transaction \<Rightarrow> ('a \<Rightarrow> transaction_rwspinlock) \<Rightarrow> bool"
  where "locks_accounted L0 t L \<longleftrightarrow> (\<forall>a. lock_accounted t a (L0 a) (L a))"

lemma locks_accounted_at: "locks_accounted L0 t L \<Longrightarrow> lock_accounted t a (L0 a) (L a)"
  by (simp add: locks_accounted_def)

lemma locks_accounted_add:
  "locks_accounted L0 t L
    \<Longrightarrow> lock_accounted (transaction_locks_list_add t a ty) a (L0 a) lk
    \<Longrightarrow> locks_accounted L0 (transaction_locks_list_add t a ty) (L(a := lk))"
  by (auto simp: locks_accounted_def lock_accounted_other)

lemma locks_accounted_add_same:
  "locks_accounted L0 t L
    \<Longrightarrow> lock_accounted (transaction_locks_list_add t a ty) a (L0 a) (L a)
    \<Longrightarrow> locks_accounted L0 (transaction_locks_list_add t a ty) L"
  using locks_accounted_add [of L0 t L a ty "L a"] by simp

lemma locks_accounted_intros:
  assumes acc: "locks_accounted L0 t L"
  shows "locks_accounted L0 (transaction_locks_list_add t a TRANSACTION_LOCK_TYPE_READ)
           (L(a := L a\<lparr>readers_count := readers_count (L a) + 1\<rparr>))"
    and "transaction_id (L a) = 0 \<Longrightarrow> id_of t \<noteq> 0
          \<Longrightarrow> locks_accounted L0 (transaction_locks_list_add t a TRANSACTION_LOCK_TYPE_WRITE)
                (L(a := L a\<lparr>transaction_id := id_of t\<rparr>))"
    and "transaction_id (L a) = id_of t \<Longrightarrow> transaction_id (L0 a) \<noteq> id_of t
          \<Longrightarrow> locks_accounted L0 (transaction_locks_list_add t a TRANSACTION_LOCK_TYPE_WRITE) L"
  using locks_accounted_at [OF acc, of a]
  by (blast intro: locks_accounted_add [OF acc] locks_accounted_add_same [OF acc]
      lock_accounted_read lock_accounted_write lock_accounted_owned)+

lemma locks_accounted_perform:
  assumes "locks_accounted L0 t L" and "\<forall>a. transaction_id (L0 a) \<noteq> id_of t" and "id_of t \<noteq> 0"
    and "perform r (t, L) = (t', L')"
  shows "locks_accounted L0 t' L' \<and> id_of t' = id_of t"
  using assms
  by (cases r)
    (auto simp: lock_request_defs lock_simps intro: locks_accounted_intros split: if_splits)

lemma locks_accounted_fold:
  assumes "locks_accounted L0 t L" and "\<forall>a. transaction_id (L0 a) \<noteq> id_of t" and "id_of t \<noteq> 0"
    and "fold perform rs (t, L) = (t', L')"
  shows "locks_accounted L0 t' L' \<and> id_of t' = id_of t"
  using assms
proof (induction rs arbitrary: t L)
  case Nil
  then show ?case by simp
next
  case (Cons r rs)
  obtain t1 L1 where r: "perform r (t, L) = (t1, L1)" by (meson surj_pair)
  from locks_accounted_perform [OF Cons.prems(1-3) r]
  have "locks_accounted L0 t1 L1" "id_of t1 = id_of t" by auto
  with Cons.IH [of t1 L1] Cons.prems r show ?case by simp
qed

lemma fold_release_entry:
  "fold transaction_release_entry es L a
     = \<lparr>transaction_id = (if writes_of a es then 0 else transaction_id (L a)),
        readers_count = readers_count (L a) - of_nat (reads_of a es),
        reserved = reserved (L a)\<rparr>"
proof (induction es arbitrary: L)
  case Nil
  then show ?case by simp
next
  case (Cons e es)
  then show ?case
    by (cases "L a")
      (auto simp: transaction_release_entry_def transaction_rwspinlock_unlock_internal_def
        transaction_rwspinlock_readers_decrement_def TRANSACTION_SPINLOCK_UNLOCKED_def)
qed

lemma release_restores:
  assumes "locks_accounted L0 t L"
  shows "snd (transaction_release t L) = L0"
proof
  fix a
  have "fold transaction_release_entry (locks_list t) L a = L0 a"
    using assms
    by (cases "L0 a")
      (auto simp: locks_accounted_def lock_accounted_def fold_release_entry dest!: spec [of _ a]
        split: if_splits)
  then show "snd (transaction_release t L) a = L0 a"
    by (simp add: transaction_release_def)
qed

section \<open>Several transactions on one lock\<close>

text \<open>
  What each transaction has of one lock: the READ and WRITE entries of its lock list, and whether
  it is between the increment and the end of the wait in \<open>transaction_lock_for_read_internal\<close>.
  A step is one atomic access to the lock by the transaction \<open>t\<close> (its id): the increment of the
  readers, a wait that ends well or gives up, a compare-and-swap that succeeds, the test that finds
  the lock already owned, and the release of one entry of the list. Failed polls change nothing.
\<close>

record rw_txn =
  held_reads :: nat
  waiting :: bool
  held_writes :: nat

record rwlock_sys =
  the_lock :: transaction_rwspinlock
  txns :: "u32 \<Rightarrow> rw_txn"

definition idle_txn :: rw_txn where
  "idle_txn = \<lparr>held_reads = 0, waiting = False, held_writes = 0\<rparr>"

definition rwlock_init :: "rwlock_sys \<Rightarrow> bool" where
  "rwlock_init s \<longleftrightarrow> the_lock s = transaction_rwspinlock_init (the_lock s) \<and> txns s = (\<lambda>t. idle_txn)"

definition updated :: "rwlock_sys \<Rightarrow> u32 \<Rightarrow> transaction_rwspinlock \<Rightarrow> rw_txn \<Rightarrow> rwlock_sys" where
  "updated s t lk x = \<lparr>the_lock = lk, txns = (txns s)(t := x)\<rparr>"

inductive rwlock_step :: "rwlock_sys \<Rightarrow> rwlock_sys \<Rightarrow> bool" where
  read_increment: "t \<noteq> TRANSACTION_ID_NOT_ACQUIRED \<Longrightarrow> \<not> waiting (txns s t)
    \<Longrightarrow> unat (readers_count (the_lock s)) < 65535
    \<Longrightarrow> rwlock_step s (updated s t (transaction_rwspinlock_readers_increment (the_lock s))
          ((txns s t)\<lparr>waiting := True\<rparr>))"
| read_enter: "waiting (txns s t) \<Longrightarrow> \<not> transaction_rwspinlock_is_write_locked (the_lock s)
    \<Longrightarrow> rwlock_step s (updated s t (the_lock s)
          ((txns s t)\<lparr>waiting := False, held_reads := Suc (held_reads (txns s t))\<rparr>))"
| read_stuck: "waiting (txns s t) \<Longrightarrow> transaction_rwspinlock_is_write_locked (the_lock s)
    \<Longrightarrow> rwlock_step s (updated s t (transaction_rwspinlock_readers_decrement (the_lock s))
          ((txns s t)\<lparr>waiting := False\<rparr>))"
| write_cas: "t \<noteq> TRANSACTION_ID_NOT_ACQUIRED \<Longrightarrow> \<not> waiting (txns s t)
    \<Longrightarrow> transaction_rwspinlock_try_write_lock_internal (the_lock s) t 0 = (True, lk')
    \<Longrightarrow> rwlock_step s (updated s t lk'
          ((txns s t)\<lparr>held_writes := Suc (held_writes (txns s t))\<rparr>))"
| upgrade_cas: "t \<noteq> TRANSACTION_ID_NOT_ACQUIRED \<Longrightarrow> \<not> waiting (txns s t) \<Longrightarrow> 0 < held_reads (txns s t)
    \<Longrightarrow> transaction_rwspinlock_try_write_lock_internal (the_lock s) t 1 = (True, lk')
    \<Longrightarrow> rwlock_step s (updated s t lk'
          ((txns s t)\<lparr>held_writes := Suc (held_writes (txns s t))\<rparr>))"
| already_owned: "t \<noteq> TRANSACTION_ID_NOT_ACQUIRED \<Longrightarrow> \<not> waiting (txns s t)
    \<Longrightarrow> transaction_id (the_lock s) = t
    \<Longrightarrow> rwlock_step s (updated s t (the_lock s)
          ((txns s t)\<lparr>held_writes := Suc (held_writes (txns s t))\<rparr>))"
| release_read: "held_reads (txns s t) = Suc n \<Longrightarrow> \<not> waiting (txns s t)
    \<Longrightarrow> rwlock_step s (updated s t (transaction_rwspinlock_readers_decrement (the_lock s))
          ((txns s t)\<lparr>held_reads := n\<rparr>))"
| release_write: "held_writes (txns s t) = Suc n \<Longrightarrow> \<not> waiting (txns s t)
    \<Longrightarrow> rwlock_step s (updated s t (transaction_rwspinlock_unlock_internal (the_lock s))
          ((txns s t)\<lparr>held_writes := n\<rparr>))"

text \<open>The steps of transactions that take the write lock at most once each.\<close>

definition rwlock_step_once :: "rwlock_sys \<Rightarrow> rwlock_sys \<Rightarrow> bool" where
  "rwlock_step_once s s' \<longleftrightarrow> rwlock_step s s' \<and> (\<forall>t. held_writes (txns s' t) \<le> 1)"

definition readers_of :: "rw_txn \<Rightarrow> nat" where
  "readers_of x = held_reads x + (if waiting x then 1 else 0)"

definition total_readers :: "(u32 \<Rightarrow> rw_txn) \<Rightarrow> nat" where
  "total_readers T = (\<Sum>t\<in>UNIV. readers_of (T t))"

definition rwlock_inv :: "rwlock_sys \<Rightarrow> bool" where
  "rwlock_inv s \<longleftrightarrow>
     unat (readers_count (the_lock s)) = total_readers (txns s)
     \<and> (\<forall>t. held_writes (txns s t) = (if t \<noteq> 0 \<and> transaction_id (the_lock s) = t then 1 else 0))
     \<and> (\<forall>u. transaction_id (the_lock s) \<noteq> 0 \<and> u \<noteq> transaction_id (the_lock s)
          \<longrightarrow> held_reads (txns s u) = 0)"

lemma total_readers_upd:
  "total_readers (T(t := x)) + readers_of (T t) = total_readers T + readers_of x"
  unfolding total_readers_def by (rule sum_fun_upd)

lemma readers_of_le_total: "readers_of (T t) \<le> total_readers T"
  unfolding total_readers_def by (rule member_le_sum) auto

lemma readers_of_two_le_total:
  assumes "t \<noteq> u"
  shows "readers_of (T t) + readers_of (T u) \<le> total_readers T"
proof -
  have "(\<Sum>v\<in>{t, u}. readers_of (T v)) \<le> total_readers T"
    unfolding total_readers_def by (rule sum_mono2) auto
  with assms show ?thesis by simp
qed

lemmas lock_access_defs =
  transaction_rwspinlock_readers_increment_def transaction_rwspinlock_readers_decrement_def
  transaction_rwspinlock_unlock_internal_def transaction_rwspinlock_is_write_locked_def
  transaction_rwspinlock_init_def TRANSACTION_SPINLOCK_UNLOCKED_def TRANSACTION_ID_NOT_ACQUIRED_def

lemma rwlock_inv_init: "rwlock_init s \<Longrightarrow> rwlock_inv s"
  by (cases "the_lock s")
    (auto simp: rwlock_init_def rwlock_inv_def lock_access_defs total_readers_def readers_of_def
      idle_txn_def)

lemma rwlock_inv_no_readers:
  "rwlock_inv s \<Longrightarrow> readers_count (the_lock s) = 0 \<Longrightarrow> held_reads (txns s u) = 0"
  using readers_of_le_total [of "txns s" u] by (simp add: rwlock_inv_def readers_of_def)

lemma rwlock_inv_sole_reader:
  assumes "rwlock_inv s" and "readers_count (the_lock s) = 1" and "0 < held_reads (txns s t)"
    and "u \<noteq> t"
  shows "held_reads (txns s u) = 0"
proof -
  have "total_readers (txns s) = 1" using assms(1,2) by (simp add: rwlock_inv_def)
  with readers_of_two_le_total [OF assms(4), of "txns s"] assms(3) show ?thesis
    by (simp add: readers_of_def)
qed

lemma rwlock_inv_readers_count:
  assumes "rwlock_inv s" and "0 < readers_of (txns s t)"
  shows "unat (readers_count (the_lock s) - 1) = total_readers (txns s) - 1"
    and "0 < total_readers (txns s)"
  using assms readers_of_le_total [of "txns s" t] by (auto simp: rwlock_inv_def unat_sub_one)

lemma rwlock_inv_step:
  assumes inv: "rwlock_inv s" and "rwlock_step_once s s'"
  shows "rwlock_inv s'"
proof -
  have step: "rwlock_step s s'" and once: "\<And>t. held_writes (txns s' t) \<le> 1"
    using assms(2) by (auto simp: rwlock_step_once_def)
  have upd: "\<And>t x. total_readers ((txns s)(t := x)) + readers_of (txns s t)
      = total_readers (txns s) + readers_of x"
    by (rule total_readers_upd)
  from step show ?thesis
  proof cases
    case (read_increment t)
    then show ?thesis using inv upd [of t "(txns s t)\<lparr>waiting := True\<rparr>"]
      by (auto simp: rwlock_inv_def updated_def lock_access_defs readers_of_def unat_add_one)
  next
    case (read_enter t)
    then show ?thesis
      using inv upd [of t "(txns s t)\<lparr>waiting := False, held_reads := Suc (held_reads (txns s t))\<rparr>"]
      by (auto simp: rwlock_inv_def updated_def lock_access_defs readers_of_def)
  next
    case (read_stuck t)
    then show ?thesis
      using inv upd [of t "(txns s t)\<lparr>waiting := False\<rparr>"] rwlock_inv_readers_count [OF inv, of t]
      by (auto simp: rwlock_inv_def updated_def lock_access_defs readers_of_def)
  next
    case (write_cas t lk')
    then show ?thesis
      using inv upd [of t "(txns s t)\<lparr>held_writes := Suc (held_writes (txns s t))\<rparr>"]
        rwlock_inv_no_readers [OF inv]
      by (auto simp: rwlock_inv_def updated_def try_write_lock_eq lock_access_defs readers_of_def
          split: if_splits)
  next
    case (upgrade_cas t lk')
    then show ?thesis
      using inv upd [of t "(txns s t)\<lparr>held_writes := Suc (held_writes (txns s t))\<rparr>"]
        rwlock_inv_sole_reader [OF inv, of t]
      by (auto simp: rwlock_inv_def updated_def try_write_lock_eq lock_access_defs readers_of_def
          split: if_splits)
  next
    case (already_owned t)
    then show ?thesis using inv once [of t]
      by (auto simp: rwlock_inv_def updated_def lock_access_defs)
  next
    case (release_read t n)
    then show ?thesis
      using inv upd [of t "(txns s t)\<lparr>held_reads := n\<rparr>"] rwlock_inv_readers_count [OF inv, of t]
      by (auto simp: rwlock_inv_def updated_def lock_access_defs readers_of_def)
  next
    case (release_write t n)
    then show ?thesis
      using inv upd [of t "(txns s t)\<lparr>held_writes := n\<rparr>"]
      by (auto simp: rwlock_inv_def updated_def lock_access_defs readers_of_def split: if_splits)
  qed
qed

interpretation rwlock: inductive_invariant rwlock_init rwlock_step_once rwlock_inv
  by unfold_locales (auto intro: rwlock_inv_init rwlock_inv_step)

section \<open>Properties\<close>

lemma acquire_id_worker:
  assumes "transaction_acquire wi m = (t, m')" and "unat (manager_worker wi m) \<le> 65535"
  shows "drop_bit 16 (id_of t) = manager_worker wi m"
proof -
  have w: "worker_index t = ucast (manager_worker wi m)"
    using assms(1) by (metis acquire_worker fst_conv)
  have "drop_bit 16 (id_of t) = (ucast (worker_index t) :: u32)"
    by (rule bit_word_eqI) (auto simp: id_of_def bit_simps dest: bit_imp_le_length)
  also have "\<dots> = manager_worker wi m"
    using assms(2) by (simp add: w word_unat_eq_iff unsigned_ucast_eq unsigned_take_bit_eq take_bit_nat_eq_self)
  finally show ?thesis .
qed

text \<open>
  The transactions that a worker acquires one after the other, and their indexes: a worker other
  than the first uses all 16 bits, the first worker skips 0.
\<close>

fun acquire_all :: "u32 \<Rightarrow> nat \<Rightarrow> transaction_manager \<Rightarrow> 'a transaction list" where
  "acquire_all wi 0 m = []"
| "acquire_all wi (Suc n) m = (let (t, m') = transaction_acquire wi m in t # acquire_all wi n m')"

definition index_after :: "bool \<Rightarrow> nat \<Rightarrow> nat \<Rightarrow> nat" where
  "index_after first_worker u k = (if first_worker then Suc ((u + k - 1) mod 65535) else (u + k) mod 65536)"

lemma index_after_step: "index_after b (index_after b u (Suc 0)) k = index_after b u (Suc k)"
  by (simp add: index_after_def mod_add_left_eq)

lemma index_after_inject:
  assumes "1 \<le> j" "j < k" "k \<le> 65535"
  shows "index_after b u j \<noteq> index_after b u k"
proof
  assume eq: "index_after b u j = index_after b u k"
  define M :: nat where "M = (if b then 65535 else 65536)"
  have "M dvd (k - j)"
  proof (cases b)
    case True
    then have "(u + j - 1) mod 65535 = (u + k - 1) mod 65535" using eq by (simp add: index_after_def)
    then have "65535 dvd (u + k - 1 - (u + j - 1))" using assms by (subst mod_eq_dvd_iff_nat [symmetric]) auto
    moreover have "u + k - 1 - (u + j - 1) = k - j" using assms by simp
    ultimately show ?thesis using True by (simp add: M_def)
  next
    case False
    then have "(u + j) mod 65536 = (u + k) mod 65536" using eq by (simp add: index_after_def)
    then have "65536 dvd (u + k - (u + j))" using assms by (subst mod_eq_dvd_iff_nat [symmetric]) auto
    then show ?thesis using False by (simp add: M_def)
  qed
  moreover have "0 < k - j" "k - j < M" using assms by (simp_all add: M_def) linarith
  ultimately show False using nat_dvd_not_less by blast
qed

lemma acquire_index:
  fixes t :: "'a transaction"
  assumes "transaction_acquire wi m = (t, m')"
  shows "unat (transaction_index t)
      = index_after (manager_worker wi m = 0) (unat (transaction_manager_transaction_index m)) 1"
    and "transaction_manager_transaction_index m' = transaction_index t"
    and "manager_worker wi m' = manager_worker wi m"
proof -
  let ?i = "transaction_manager_transaction_index m"
  have "unat ?i < 65536" by (rule order.strict_trans2 [OF unsigned_less]) simp
  then have "unat ?i < 65535 \<or> unat ?i = 65535" by linarith
  then have z: "?i + 1 = 0 \<longleftrightarrow> unat ?i = 65535" "?i + 1 \<noteq> 0 \<Longrightarrow> unat (?i + 1) = Suc (unat ?i)"
    by (auto simp: unat_word_ariths unat_eq_zero [symmetric] dest: dvd_imp_le)
  show "unat (transaction_index t) = index_after (manager_worker wi m = 0) (unat ?i) 1"
    using assms z \<open>unat ?i < 65536\<close>
    by (auto simp: transaction_acquire_def Let_def manager_worker_def transaction_manager_init_def
        transaction_set_worker_index_def index_after_def)
  have tm: "t = fst (transaction_acquire wi m)" "m' = snd (transaction_acquire wi m :: 'a transaction \<times> _)"
    using assms by simp_all
  show "transaction_manager_transaction_index m' = transaction_index t"
    unfolding tm by (simp add: transaction_acquire_def Let_def)
  show "manager_worker wi m' = manager_worker wi m"
    unfolding tm by (simp add: transaction_acquire_def Let_def manager_worker_def
        transaction_manager_init_def transaction_set_worker_index_def)
qed

lemma acquire_all_indexes:
  "map (\<lambda>t. unat (transaction_index t)) (acquire_all wi n m :: 'a transaction list)
    = map (index_after (manager_worker wi m = 0) (unat (transaction_manager_transaction_index m))) [1..<Suc n]"
proof (induction n arbitrary: m)
  case (Suc n)
  obtain t m' where a: "(transaction_acquire wi m :: 'a transaction \<times> _) = (t, m')" by (metis prod.exhaust)
  define b u where "b = (manager_worker wi m = 0)" and "u = unat (transaction_manager_transaction_index m)"
  have "unat (transaction_index t) = index_after b u 1"
    and "unat (transaction_manager_transaction_index m') = index_after b u 1"
    and "manager_worker wi m' = manager_worker wi m"
    using acquire_index [OF a] by (simp_all add: b_def u_def)
  then have "map (\<lambda>t. unat (transaction_index t)) (acquire_all wi (Suc n) m :: 'a transaction list)
      = index_after b u 1 # map (\<lambda>k. index_after b u (Suc k)) [1..<Suc n]"
    using a Suc.IH [of m'] by (simp add: index_after_step b_def)
  also have "\<dots> = map (index_after b u) [1..<Suc (Suc n)]"
    by (simp add: upt_conv_Cons map_Suc_upt [symmetric] del: upt_Suc)
  finally show ?case by (simp add: b_def u_def)
qed simp

lemma acquire_all_distinct:
  assumes "n \<le> 65535"
  shows "distinct (map id_of (acquire_all wi n m))"
proof -
  have "inj_on (index_after b u) (set [1..<Suc n])" for b u
  proof (rule linorder_inj_onI)
    fix j k assume "j < k" "j \<in> set [1..<Suc n]" "k \<in> set [1..<Suc n]"
    then show "index_after b u j \<noteq> index_after b u k" using assms by (intro index_after_inject) auto
  qed auto
  then have "distinct (map (\<lambda>t. unat (transaction_index t)) (acquire_all wi n m))"
    unfolding acquire_all_indexes by (simp add: distinct_map)
  then show ?thesis by (auto simp: distinct_map inj_on_def id_of_eq_iff)
qed

text \<open>
  C1: mutual exclusion. In every interleaving of transactions that take the write lock at most
  once each, a transaction that holds the write lock is the one recorded in the lock, and no other
  transaction holds the lock for writing or for reading.
\<close>

theorem write_lock_exclusive:
  assumes "reachable rwlock_init rwlock_step_once s" and "0 < held_writes (txns s t)"
  shows "transaction_id (the_lock s) = t
    \<and> (\<forall>u. u \<noteq> t \<longrightarrow> held_writes (txns s u) = 0 \<and> held_reads (txns s u) = 0)"
  using rwlock.inv_reachable [OF assms(1)] assms(2) by (auto simp: rwlock_inv_def split: if_splits)

definition free_lock :: transaction_rwspinlock where
  "free_lock = \<lparr>transaction_id = 0, readers_count = 0, reserved = 0\<rparr>"

definition sys_free :: rwlock_sys where
  "sys_free = \<lparr>the_lock = free_lock, txns = (\<lambda>t. idle_txn)\<rparr>"

definition sys_written :: "u32 \<Rightarrow> rwlock_sys" where
  "sys_written t = updated sys_free t (free_lock\<lparr>transaction_id := t\<rparr>) (idle_txn\<lparr>held_writes := 1\<rparr>)"

lemma sys_free_init: "rwlock_init sys_free"
  by (simp add: rwlock_init_def sys_free_def free_lock_def lock_access_defs)

lemma sys_written_step: "t \<noteq> 0 \<Longrightarrow> rwlock_step sys_free (sys_written t)"
  using rwlock_step.write_cas [of t sys_free "free_lock\<lparr>transaction_id := t\<rparr>"]
  by (simp add: sys_free_def sys_written_def try_write_lock_eq free_lock_def idle_txn_def
      lock_access_defs)

lemma sys_written_once: "held_writes (txns (sys_written t) u) \<le> Suc 0"
  by (simp add: sys_written_def updated_def sys_free_def idle_txn_def)

lemma sys_written_reachable:
  assumes "step sys_free (sys_written t)"
  shows "reachable rwlock_init step (sys_written t)"
proof (rule reachable_step)
  show "reachable rwlock_init step sys_free" by (rule reachable_init) (rule sys_free_init)
qed (rule assms)

theorem write_lock_exclusive_witness:
  "transaction_id (the_lock (sys_written 65537)) = 65537
    \<and> held_writes (txns (sys_written 65537) 65538) = 0"
proof -
  have r: "reachable rwlock_init rwlock_step_once (sys_written 65537)"
    by (rule sys_written_reachable) (simp add: rwlock_step_once_def sys_written_step sys_written_once)
  have "0 < held_writes (txns (sys_written 65537) 65537)"
    by (simp add: sys_written_def updated_def)
  from write_lock_exclusive [OF r this] show ?thesis by simp
qed

text \<open>
  States in which nobody reads and nobody waits: the owner in the lock and how many WRITE entries
  every transaction has.
\<close>

definition writers :: "u32 \<Rightarrow> (u32 \<Rightarrow> nat) \<Rightarrow> rwlock_sys" where
  "writers w f = \<lparr>the_lock = free_lock\<lparr>transaction_id := w\<rparr>,
     txns = (\<lambda>t. idle_txn\<lparr>held_writes := f t\<rparr>)\<rparr>"

lemma writers_init: "rwlock_init (writers 0 (\<lambda>t. 0))"
  by (simp add: rwlock_init_def writers_def free_lock_def idle_txn_def lock_access_defs)

lemma writers_upd:
  "updated (writers w f) t (free_lock\<lparr>transaction_id := v\<rparr>) (idle_txn\<lparr>held_writes := n\<rparr>)
    = writers v (f(t := n))"
  by (auto simp: updated_def writers_def)

lemma writers_txn: "txns (writers w f) t = idle_txn\<lparr>held_writes := f t\<rparr>"
  "the_lock (writers w f) = free_lock\<lparr>transaction_id := w\<rparr>"
  "\<not> waiting idle_txn"
  by (simp_all add: writers_def idle_txn_def)

lemma writers_lock: "t \<noteq> 0 \<Longrightarrow> rwlock_step (writers 0 f) (writers t (f(t := Suc (f t))))"
  using rwlock_step.write_cas [of t "writers 0 f" "free_lock\<lparr>transaction_id := t\<rparr>"]
  by (simp add: writers_txn try_write_lock_eq writers_upd free_lock_def [THEN arg_cong, of transaction_id]
      free_lock_def [THEN arg_cong, of readers_count] lock_access_defs)

lemma writers_relock: "t \<noteq> 0 \<Longrightarrow> rwlock_step (writers t f) (writers t (f(t := Suc (f t))))"
  using rwlock_step.already_owned [of t "writers t f"]
  by (simp add: writers_txn writers_upd lock_access_defs)

lemma writers_release: "f t = Suc n \<Longrightarrow> rwlock_step (writers w f) (writers 0 (f(t := n)))"
  using rwlock_step.release_write [of "writers w f" t n]
  by (simp add: writers_txn writers_upd lock_access_defs)

lemma writers_reads [simp]:
  "transaction_id (the_lock (writers w f)) = w"
  "held_writes (txns (writers w f) t) = f t"
  by (simp_all add: writers_def)

text \<open>
  C2: the limit of the lock. Let a transaction \<open>t\<close> own a write lock that it has taken twice (the
  second time the lock is found already owned and is listed again). Releasing its list unlocks the
  lock twice: after its first release the lock is free although \<open>t\<close> still lists it, \<open>u\<close> takes
  it, the second release of \<open>t\<close> frees the lock that \<open>u\<close> owns, and \<open>v\<close> takes it as well. At the
  end \<open>t\<close> has released everything, while \<open>u\<close> and \<open>v\<close>, which have released nothing, both hold
  the write lock. This is so for any three transactions.
\<close>

theorem relock_breaks_exclusion:
  assumes "distinct [t, u, v]" and "0 \<notin> set [t, u, v]"
  shows "\<exists>s0 s1 s2 s3 s4. reachable rwlock_init rwlock_step s0
    \<and> transaction_id (the_lock s0) = t \<and> held_writes (txns s0 t) = 2
    \<and> rwlock_step s0 s1 \<and> transaction_id (the_lock s1) = 0 \<and> held_writes (txns s1 t) = 1
    \<and> rwlock_step s1 s2 \<and> transaction_id (the_lock s2) = u \<and> held_writes (txns s2 t) = 1
      \<and> held_writes (txns s2 u) = 1
    \<and> rwlock_step s2 s3 \<and> transaction_id (the_lock s3) = 0 \<and> held_writes (txns s3 t) = 0
      \<and> held_writes (txns s3 u) = 1
    \<and> rwlock_step s3 s4 \<and> transaction_id (the_lock s4) = v \<and> held_writes (txns s4 t) = 0
      \<and> held_writes (txns s4 u) = 1 \<and> held_writes (txns s4 v) = 1"
proof -
  let ?f = "(\<lambda>t. 0)(t := 2)"
  have neq: "u \<noteq> t" "t \<noteq> u" "v \<noteq> t" "v \<noteq> u" "t \<noteq> v" "u \<noteq> v" "t \<noteq> 0" "u \<noteq> 0" "v \<noteq> 0"
    using assms by auto
  have "reachable rwlock_init rwlock_step (writers t ((\<lambda>t. 0)(t := Suc 0)))"
    by (rule reachable_step, rule reachable_init, rule writers_init)
      (use writers_lock [of t "\<lambda>t. 0"] neq in simp)
  then have 0: "reachable rwlock_init rwlock_step (writers t ?f)"
    by (rule reachable_step) (use writers_relock [of t "(\<lambda>t. 0)(t := Suc 0)"] neq
        in \<open>simp add: numeral_2_eq_2\<close>)
  have 1: "rwlock_step (writers t ?f) (writers 0 (?f(t := 1)))"
    by (rule writers_release) simp
  have 2: "rwlock_step (writers 0 (?f(t := 1))) (writers u (?f(t := 1, u := 1)))"
    using writers_lock [of u "?f(t := 1)"] neq by simp
  have 3: "rwlock_step (writers u (?f(t := 1, u := 1))) (writers 0 (?f(t := 1, u := 1, t := 0)))"
    by (rule writers_release) (use neq in simp)
  have 4: "rwlock_step (writers 0 (?f(t := 1, u := 1, t := 0)))
      (writers v (?f(t := 1, u := 1, t := 0, v := 1)))"
    using writers_lock [of v "?f(t := 1, u := 1, t := 0)"] neq by simp
  show ?thesis
    by (rule exI [of _ "writers t ?f"], rule exI [of _ "writers 0 (?f(t := 1))"],
        rule exI [of _ "writers u (?f(t := 1, u := 1))"],
        rule exI [of _ "writers 0 (?f(t := 1, u := 1, t := 0))"],
        rule exI [of _ "writers v (?f(t := 1, u := 1, t := 0, v := 1))"])
      (intro conjI 0 1 2 3 4; simp add: neq)
qed

theorem relock_breaks_exclusion_witness:
  "\<exists>s0 s4. reachable rwlock_init rwlock_step s0 \<and> held_writes (txns s0 1) = 2
    \<and> held_writes (txns s4 3) = 1 \<and> held_writes (txns s4 2) = 1 \<and> held_writes (txns s4 1) = 0
    \<and> rwlock_step\<^sup>*\<^sup>* s0 s4"
proof -
  have "distinct [1, 2, 3 :: u32]" and "0 \<notin> set [1, 2, 3 :: u32]" by simp_all
  from relock_breaks_exclusion [OF this] obtain s0 s1 s2 s3 s4
    where s0: "reachable rwlock_init rwlock_step s0" "held_writes (txns s0 1) = 2"
      and steps: "rwlock_step s0 s1" "rwlock_step s1 s2" "rwlock_step s2 s3" "rwlock_step s3 s4"
      and s4: "held_writes (txns s4 1) = 0" "held_writes (txns s4 2) = 1" "held_writes (txns s4 3) = 1"
    by (elim exE conjE)
  from steps have "rwlock_step\<^sup>*\<^sup>* s0 s4" by (meson r_into_rtranclp rtranclp_trans)
  with s0 s4 show ?thesis by (intro exI [of _ s0] exI [of _ s4]) simp
qed

text \<open>
  C3: a transaction gives back what it took. Whatever sequence of lock requests an acquired
  transaction makes on the locks of a store, granted or refused, in any order and with repetitions,
  releasing it restores every lock of the store to its value at the start, the metadata bytes
  included, and leaves the transaction not acquired.
\<close>

theorem release_gives_back:
  assumes "transaction_acquire wi m = (t, m')" and "unat (manager_worker wi m) \<le> 65535"
    and "\<forall>a. transaction_id (L0 a) \<noteq> id_of t"
    and "fold perform rs (t, L0) = (t', L)"
  shows "snd (transaction_release t' L) = L0
    \<and> id_of (fst (transaction_release t' L)) = TRANSACTION_ID_NOT_ACQUIRED"
proof -
  have "locks_list t = []" using assms(1) by (metis acquire_fresh fst_conv)
  then have "locks_accounted L0 t L0" by (simp add: locks_accounted_def lock_accounted_def)
  moreover have "id_of t \<noteq> 0"
    using acquire_id_nonzero [OF assms(1,2)] by (simp add: TRANSACTION_ID_NOT_ACQUIRED_def)
  ultimately have "locks_accounted L0 t' L" using locks_accounted_fold assms(3,4) by blast
  then show ?thesis
    using release_restores [of L0 t' L]
    by (simp add: transaction_release_def id_of_def TRANSACTION_ID_NOT_ACQUIRED_def)
qed

definition manager_example :: transaction_manager where
  "manager_example = \<lparr>transaction_manager_worker_index = 3,
     transaction_manager_transaction_index = 7, transaction_manager_inited = True\<rparr>"

definition requests_example :: "nat lock_request list" where
  "requests_example = [Lock_read 0, Lock_upgrade 0, Lock_write 1, Lock_write 1, Lock_read 1]"

theorem release_gives_back_witness:
  "snd (transaction_release
     (fst (fold perform requests_example (fst (transaction_acquire 3 manager_example), \<lambda>a. free_lock)))
     (snd (fold perform requests_example (fst (transaction_acquire 3 manager_example), \<lambda>a. free_lock))))
   = (\<lambda>a. free_lock)"
proof -
  let ?t = "fst (transaction_acquire 3 manager_example) :: nat transaction"
  let ?r = "fold perform requests_example (?t, \<lambda>a. free_lock)"
  have "transaction_acquire 3 manager_example = (?t, snd (transaction_acquire 3 manager_example))"
    by (simp add: transaction_acquire_def Let_def)
  moreover have "unat (manager_worker 3 manager_example) \<le> 65535"
    by (simp add: manager_worker_def manager_example_def)
  moreover have "\<forall>a::nat. transaction_id free_lock \<noteq> id_of ?t"
    by (simp add: free_lock_def id_of_def transaction_acquire_def Let_def manager_example_def)
  moreover have "fold perform requests_example (?t, \<lambda>a. free_lock) = (fst ?r, snd ?r)" by simp
  ultimately show ?thesis
    using release_gives_back [of 3 manager_example ?t _ "\<lambda>a. free_lock" requests_example "fst ?r" "snd ?r"]
    by blast
qed

text \<open>
  C4: transaction ids. An acquired transaction never has the id that means not acquired; the id
  tells its worker; transactions of different workers never have the same id; and neither have
  any 65535 transactions that a worker acquires one after the other.
\<close>

theorem acquired_ids:
  assumes "transaction_acquire wi m = (t, m')" and "unat (manager_worker wi m) \<le> 65535"
    and "transaction_acquire wi2 m2 = (t2, m2')" and "unat (manager_worker wi2 m2) \<le> 65535"
  shows "id_of t \<noteq> TRANSACTION_ID_NOT_ACQUIRED
    \<and> drop_bit 16 (id_of t) = manager_worker wi m
    \<and> (manager_worker wi m \<noteq> manager_worker wi2 m2 \<longrightarrow> id_of t \<noteq> id_of t2)
    \<and> (n \<le> 65535 \<longrightarrow> distinct (map id_of (acquire_all wi n m)))"
  using acquire_id_nonzero [OF assms(1,2)] acquire_id_worker [OF assms(1,2)]
    acquire_id_worker [OF assms(3,4)] acquire_all_distinct [of n wi m]
  by auto

theorem acquired_ids_witness:
  "id_of (fst (transaction_acquire 3 manager_example) :: nat transaction) \<noteq> TRANSACTION_ID_NOT_ACQUIRED
    \<and> id_of (fst (transaction_acquire 3 manager_example) :: nat transaction)
      \<noteq> id_of (fst (transaction_acquire 0 (manager_example\<lparr>transaction_manager_inited := False\<rparr>))
          :: nat transaction)
    \<and> distinct (map id_of (acquire_all 3 65535 manager_example :: nat transaction list))"
proof -
  let ?other = "manager_example\<lparr>transaction_manager_inited := False\<rparr>"
  have "unat (manager_worker 3 manager_example) \<le> 65535" "unat (manager_worker 0 ?other) \<le> 65535"
    "manager_worker 3 manager_example \<noteq> manager_worker 0 ?other"
    by (simp_all add: manager_worker_def manager_example_def)
  then show ?thesis
    using acquired_ids [OF prod.collapse [symmetric] _ prod.collapse [symmetric],
        of 3 manager_example 0 ?other 65535] by blast
qed

end
