(* ===== verification/Hash_Search.thy ===== *)
theory Hash_Search
  imports Prelude
begin

text \<open>
  \<open>src/src/data_structures/hashtable/mcmp/hashtable_support_hash_search_*.h\<close>: the search
  of a 32 bit slot id in the 14 slots of a chunk, once per instruction set. The result is a mask
  with one bit per matching slot. The vector instructions are written out lane by lane.
\<close>

section \<open>The variants\<close>

definition hashtable_mcmp_support_hash_search_loop_n :: "u32 \<Rightarrow> u32 list \<Rightarrow> nat \<Rightarrow> u32" where
  "hashtable_mcmp_support_hash_search_loop_n hash hashes n =
     fold (\<lambda>i return_val. if hashes ! i = hash then return_val OR push_bit i 1 else return_val)
       [0..<n] 0"

definition hashtable_mcmp_support_hash_search_loop_14 :: "u32 \<Rightarrow> u32 list \<Rightarrow> u32" where
  "hashtable_mcmp_support_hash_search_loop_14 hash hashes =
     hashtable_mcmp_support_hash_search_loop_n hash hashes 14"

text \<open>\<open>_mm256_movemask_ps\<close> and \<open>_mm512_cmpeq_epi32_mask\<close>: one bit per lane.\<close>

definition movemask :: "bool list \<Rightarrow> u32" where
  "movemask lanes = mask_of (\<lambda>i. lanes ! i) [0..<length lanes]"

definition load_lanes :: "nat \<Rightarrow> nat \<Rightarrow> u32 list \<Rightarrow> u32 list" where
  "load_lanes n base hashes = take n (drop base hashes)"

definition hashtable_mcmp_support_hash_search_avx2_14 :: "u32 \<Rightarrow> u32 list \<Rightarrow> u32" where
  "hashtable_mcmp_support_hash_search_avx2_14 hash hashes =
     fold (\<lambda>base_index compacted_result_mask.
         compacted_result_mask
           OR push_bit base_index
                (movemask (map (\<lambda>x. x = hash) (load_lanes 8 base_index hashes))))
       [0, 6] 0"

text \<open>
  \<open>_mm256_cmp_ps\<close> with \<open>_CMP_EQ_OQ\<close>: the lanes are compared as IEEE single precision
  numbers, so a NaN equals nothing, itself included, and the two zeros are equal.
\<close>

definition float_is_nan :: "u32 \<Rightarrow> bool" where
  "float_is_nan x \<longleftrightarrow> take_bit 8 (drop_bit 23 x) = mask 8 \<and> take_bit 23 x \<noteq> 0"

definition cmp_eq_oq :: "u32 \<Rightarrow> u32 \<Rightarrow> bool" where
  "cmp_eq_oq x y \<longleftrightarrow>
     \<not> float_is_nan x \<and> \<not> float_is_nan y \<and> (x = y \<or> take_bit 31 x = 0 \<and> take_bit 31 y = 0)"

definition hashtable_mcmp_support_hash_search_avx_14 :: "u32 \<Rightarrow> u32 list \<Rightarrow> u32" where
  "hashtable_mcmp_support_hash_search_avx_14 hash hashes =
     fold (\<lambda>base_index compacted_result_mask.
         compacted_result_mask
           OR push_bit base_index
                (movemask (map (\<lambda>x. cmp_eq_oq x hash) (load_lanes 8 base_index hashes))))
       [0, 6] 0"

text \<open>The 16 lanes read the two words that follow the slots of the chunk.\<close>

definition hashtable_mcmp_support_hash_search_avx512f_14 :: "u32 \<Rightarrow> u32 list \<Rightarrow> u32" where
  "hashtable_mcmp_support_hash_search_avx512f_14 hash memory =
     movemask (map (\<lambda>x. x = hash) (load_lanes 16 0 memory))"

definition vceqq_u32 :: "u32 \<Rightarrow> u32 \<Rightarrow> u32" where
  "vceqq_u32 x y = (if x = y then - 1 else 0)"

definition neon_step :: "u32 \<Rightarrow> u32 list \<Rightarrow> nat \<Rightarrow> u32" where
  "neon_step hash hashes base =
     push_bit base
       (sum_list (map (\<lambda>i. push_bit i (drop_bit 31 (vceqq_u32 (hashes ! (base + i)) hash)))
          [0, 1, 2, 3]))"

definition hashtable_mcmp_support_hash_search_armv8a_neon_14 :: "u32 \<Rightarrow> u32 list \<Rightarrow> u32" where
  "hashtable_mcmp_support_hash_search_armv8a_neon_14 hash hashes =
     fold (\<lambda>base compacted_result_mask. compacted_result_mask OR neon_step hash hashes base)
       [0, 4, 8, 10] 0"

section \<open>What the callers rely on\<close>

text \<open>
  The callers mask the bits 14 and 15 away, so a search routine may set them freely, but nothing
  above.
\<close>

definition slots_mask :: "u32 \<Rightarrow> u32" where
  "slots_mask m = m AND NOT 0xC000"

lemma bit_0xC000: "bit (0xC000 :: u32) i \<longleftrightarrow> i = 14 \<or> i = 15"
proof -
  have "bit (push_bit 14 1 OR push_bit 15 1 :: u32) i \<longleftrightarrow> i = 14 \<or> i = 15"
    unfolding bit_or_iff bit_push_bit_iff bit_1_iff by auto
  then show ?thesis by simp
qed

lemma bit_slots_mask: "bit (slots_mask m) i \<longleftrightarrow> bit m i \<and> i \<noteq> 14 \<and> i \<noteq> 15"
  unfolding slots_mask_def bit_and_iff bit_not_iff bit_0xC000
  by (auto dest: bit_imp_le_length)

locale hash_search =
  fixes search :: "u32 \<Rightarrow> u32 list \<Rightarrow> u32"
  assumes bit_search: "length hs = 14 \<Longrightarrow> i < 14 \<Longrightarrow> bit (search h hs) i \<longleftrightarrow> hs ! i = h"
    and no_high_bits: "length hs = 14 \<Longrightarrow> bit (search h hs) i \<Longrightarrow> i < 16"
begin

lemma bit_slots_search:
  assumes "length hs = 14"
  shows "bit (slots_mask (search h hs)) i \<longleftrightarrow> i < 14 \<and> hs ! i = h"
proof (cases "i < 14")
  case True
  then show ?thesis using assms by (simp add: bit_slots_mask bit_search)
next
  case False
  then show ?thesis
    using no_high_bits [OF assms, of h i] by (auto simp: bit_slots_mask)
qed

lemma slots_search_eq:
  assumes "length hs = 14"
  shows "slots_mask (search h hs) = mask_of (\<lambda>i. hs ! i = h) [0..<14]"
  by (rule bit_eqI) (auto simp: bit_slots_search [OF assms])

end

section \<open>The variants agree\<close>

lemma search_loop_14_eq:
  "hashtable_mcmp_support_hash_search_loop_14 h hs = mask_of (\<lambda>i. hs ! i = h) [0..<14]"
  by (simp add: hashtable_mcmp_support_hash_search_loop_14_def
      hashtable_mcmp_support_hash_search_loop_n_def mask_of_def)

interpretation search_loop: hash_search hashtable_mcmp_support_hash_search_loop_14
  by unfold_locales (auto simp: search_loop_14_eq)

lemma bit_movemask: "bit (movemask lanes) i \<longleftrightarrow> i < 32 \<and> i < length lanes \<and> lanes ! i"
  by (auto simp: movemask_def)

lemma bit_two_loads:
  assumes "length hs = 14"
  shows "bit (fold (\<lambda>base r. r OR push_bit base (movemask (map P (load_lanes 8 base hs)))) [0, 6] 0) i
    \<longleftrightarrow> i < 14 \<and> P (hs ! i)"
  using assms by (cases "i < 8") (auto simp: bit_simps bit_movemask load_lanes_def)

lemma search_avx2_14_eq:
  assumes "length hs = 14"
  shows "hashtable_mcmp_support_hash_search_avx2_14 h hs = hashtable_mcmp_support_hash_search_loop_14 h hs"
  unfolding hashtable_mcmp_support_hash_search_avx2_14_def search_loop_14_eq
  by (rule bit_eqI) (subst bit_two_loads [OF assms], auto)

interpretation search_avx2: hash_search hashtable_mcmp_support_hash_search_avx2_14
  by unfold_locales (auto simp: search_avx2_14_eq search_loop_14_eq)

lemma neon_step_mask:
  "neon_step h hs base = push_bit base (mask_of (\<lambda>i. hs ! (base + i) = h) [0, 1, 2, 3])"
  unfolding neon_step_def
  by (rule arg_cong [where f = "push_bit base"])
    (simp add: vceqq_u32_def mask_of_def drop_bit_eq_div)

lemma bit_neon_step: "bit (neon_step h hs b) n \<longleftrightarrow> b \<le> n \<and> n < b + 4 \<and> n < 32 \<and> hs ! n = h"
proof (cases "b \<le> n")
  case True
  have "n - b \<in> set [0, 1, 2, 3] \<longleftrightarrow> n < b + 4" using True by auto
  with True show ?thesis
    by (simp only: neon_step_mask bit_push_bit_iff bit_mask_of possible_bit_word le_add_diff_inverse)
      auto
next
  case False
  then show ?thesis by (simp only: neon_step_mask bit_push_bit_iff) simp
qed

lemma search_neon_14_eq:
  "hashtable_mcmp_support_hash_search_armv8a_neon_14 h hs = hashtable_mcmp_support_hash_search_loop_14 h hs"
proof (rule bit_eqI)
  fix n
  show "bit (hashtable_mcmp_support_hash_search_armv8a_neon_14 h hs) n
    = bit (hashtable_mcmp_support_hash_search_loop_14 h hs) n"
    unfolding search_loop_14_eq bit_mask_of hashtable_mcmp_support_hash_search_armv8a_neon_14_def
    by (simp add: bit_or_iff bit_neon_step) linarith
qed

interpretation search_neon: hash_search hashtable_mcmp_support_hash_search_armv8a_neon_14
  by unfold_locales (auto simp: search_neon_14_eq search_loop_14_eq)

lemma search_avx512f_hash_search:
  "hash_search (\<lambda>h hs. hashtable_mcmp_support_hash_search_avx512f_14 h (hs @ [a, b]))"
  by unfold_locales
    (auto simp: hashtable_mcmp_support_hash_search_avx512f_14_def bit_movemask load_lanes_def
      nth_append)

section \<open>The AVX variant\<close>

text \<open>A slot id in use, as the chunks store it (little-endian: filled, distance, quarter hash).\<close>

definition slot_id :: "u8 \<Rightarrow> u16 \<Rightarrow> u32" where
  "slot_id distance quarter_hash =
     push_bit 16 (ucast quarter_hash) OR push_bit 8 (ucast distance) OR 1"

lemma bit_slot_id:
  "bit (slot_id d q) i \<longleftrightarrow> i = 0 \<or> 8 \<le> i \<and> bit d (i - 8) \<or> 16 \<le> i \<and> bit q (i - 16)"
proof (cases "i < 32")
  case True
  then show ?thesis by (auto simp: slot_id_def bit_simps)
next
  case False
  then show ?thesis
    by (auto dest!: bit_imp_le_length)
qed

lemma slot_id_nonzero [simp]: "slot_id d q \<noteq> 0"
  using bit_slot_id [of d q 0] by auto

lemma slot_id_nan: "float_is_nan (slot_id d q) \<longleftrightarrow> (\<forall>i\<in>{7..<15}. bit q i)"
proof -
  have "bit (take_bit 23 (slot_id d q)) 0" by (simp add: bit_take_bit_iff bit_slot_id)
  then have nz: "take_bit 23 (slot_id d q) \<noteq> 0" by auto
  have "take_bit 8 (drop_bit 23 (slot_id d q)) = mask 8 \<longleftrightarrow> (\<forall>i<8. bit q (7 + i))"
  proof
    assume eq: "take_bit 8 (drop_bit 23 (slot_id d q)) = mask 8"
    show "\<forall>i<8. bit q (7 + i)"
    proof (intro allI impI)
      fix i :: nat
      assume "i < 8"
      then have "bit (take_bit 8 (drop_bit 23 (slot_id d q))) i"
        unfolding eq by (simp add: bit_mask_iff)
      then show "bit q (7 + i)"
        by (auto simp: bit_take_bit_iff bit_drop_bit_eq bit_slot_id dest: bit_imp_le_length)
    qed
  next
    assume "\<forall>i<8. bit q (7 + i)"
    then show "take_bit 8 (drop_bit 23 (slot_id d q)) = mask 8"
      by (intro bit_eqI) (auto simp: bit_take_bit_iff bit_drop_bit_eq bit_slot_id bit_mask_iff)
  qed
  also have "\<dots> \<longleftrightarrow> (\<forall>i\<in>{7..<15}. bit q i)"
  proof
    assume *: "\<forall>i<8. bit q (7 + i)"
    show "\<forall>i\<in>{7..<15}. bit q i"
    proof
      fix i :: nat
      assume "i \<in> {7..<15}"
      then have "i - 7 < 8" and "7 + (i - 7) = i" by auto
      with * show "bit q i" by metis
    qed
  qed simp
  finally show ?thesis using nz by (simp add: float_is_nan_def)
qed

lemma cmp_eq_oq_slot_id: "cmp_eq_oq x (slot_id d q) \<longleftrightarrow> x = slot_id d q \<and> \<not> float_is_nan (slot_id d q)"
proof -
  have "bit (take_bit 31 (slot_id d q)) 0" by (simp add: bit_take_bit_iff bit_slot_id)
  then have "take_bit 31 (slot_id d q) \<noteq> 0" by auto
  then show ?thesis by (auto simp: cmp_eq_oq_def)
qed

lemma search_avx_14_eq:
  assumes "length hs = 14"
  shows "hashtable_mcmp_support_hash_search_avx_14 (slot_id d q) hs
    = (if float_is_nan (slot_id d q) then 0
       else hashtable_mcmp_support_hash_search_loop_14 (slot_id d q) hs)"
proof (rule bit_eqI)
  fix n
  show "bit (hashtable_mcmp_support_hash_search_avx_14 (slot_id d q) hs) n
    = bit (if float_is_nan (slot_id d q) then 0
       else hashtable_mcmp_support_hash_search_loop_14 (slot_id d q) hs) n"
    unfolding hashtable_mcmp_support_hash_search_avx_14_def bit_two_loads [OF assms] search_loop_14_eq
    by (auto simp: cmp_eq_oq_slot_id)
qed

section \<open>Properties\<close>

text \<open>
  C12: the vectorised slot searches. On the 14 slots of a chunk the AVX2 and the NEON routine
  return the mask of the portable loop, and so does the AVX-512 routine once the callers have
  cleared the bits 14 and 15, whatever the two words behind the slots are.
\<close>

theorem vector_searches_agree:
  assumes "length hs = 14"
  shows "hashtable_mcmp_support_hash_search_avx2_14 h hs = hashtable_mcmp_support_hash_search_loop_14 h hs
    \<and> hashtable_mcmp_support_hash_search_armv8a_neon_14 h hs
        = hashtable_mcmp_support_hash_search_loop_14 h hs
    \<and> slots_mask (hashtable_mcmp_support_hash_search_avx512f_14 h (hs @ [a, b]))
        = hashtable_mcmp_support_hash_search_loop_14 h hs"
  using search_avx2_14_eq [OF assms] search_neon_14_eq
    hash_search.slots_search_eq [OF search_avx512f_hash_search assms]
  by (simp add: search_loop_14_eq)

definition slots_example :: "u32 list" where
  "slots_example = replicate 5 7 @ [3, 7, 7, 3, 7, 7, 7, 7, 3]"

theorem vector_searches_agree_witness:
  "hashtable_mcmp_support_hash_search_avx2_14 3 slots_example
     = hashtable_mcmp_support_hash_search_loop_14 3 slots_example
   \<and> slots_mask (hashtable_mcmp_support_hash_search_avx512f_14 3 (slots_example @ [3, 3]))
     = hashtable_mcmp_support_hash_search_loop_14 3 slots_example"
  using vector_searches_agree [of slots_example 3 3 3] by (simp add: slots_example_def)

text \<open>
  C13: the AVX routine compares the slot ids as floating point numbers. For a slot id whose
  quarter hash has the bits 7 to 14 set it finds nothing, even where the slot holds it (the bit
  pattern is a NaN); for every other slot id it agrees with the portable loop.
\<close>

theorem avx_search_misses_nan:
  assumes "length hs = 14"
  shows "hashtable_mcmp_support_hash_search_avx_14 (slot_id d q) hs
    = (if \<forall>i\<in>{7..<15}. bit q i then 0
       else hashtable_mcmp_support_hash_search_loop_14 (slot_id d q) hs)"
  unfolding search_avx_14_eq [OF assms] slot_id_nan by (rule refl)

theorem avx_search_misses_nan_witness:
  "hashtable_mcmp_support_hash_search_avx_14 (slot_id 0 (- 1)) (replicate 14 (slot_id 0 (- 1))) = 0
   \<and> hashtable_mcmp_support_hash_search_loop_14 (slot_id 0 (- 1)) (replicate 14 (slot_id 0 (- 1))) \<noteq> 0"
proof -
  have "\<forall>i\<in>{7..<15}. bit (- 1 :: u16) i" by simp
  moreover have "bit (hashtable_mcmp_support_hash_search_loop_14 (slot_id 0 (- 1))
      (replicate 14 (slot_id 0 (- 1)))) 0"
    by (simp add: search_loop_14_eq)
  ultimately show ?thesis
    using avx_search_misses_nan [of "replicate 14 (slot_id 0 (- 1))" 0 "- 1"] by auto
qed

end
