(* ===== verification/Mcmp_Table.thy ===== *)
theory Mcmp_Table
  imports Transaction Pow2 Hash_Search
begin

text \<open>
  The data of the multi-producer multi-consumer hash table,
  \<open>src/src/data_structures/hashtable/mcmp/hashtable.h\<close>, \<open>hashtable_data.c\<close>,
  \<open>hashtable.c\<close>, \<open>hashtable_support_index.c\<close> and \<open>hashtable_support_hash.h\<close>.

  A chunk is its lock and its 14 slot ids; the two metadata bytes live in the \<open>reserved\<close>
  bytes of the lock, as the union of the C struct has it. A slot id is kept as the 32 bit word of
  the union (0 is a free slot). Pointers into the two arrays are indexes; the memory a key pointer
  points to is its bytes. The hash function (t1ha2, xxh3 or crc32c, chosen by the build) is a
  parameter \<open>hash_calculate\<close>.
\<close>

section \<open>Constants and indexes\<close>

definition HASHTABLE_MCMP_HALF_HASHES_CHUNK_SLOTS_COUNT :: nat where
  "HASHTABLE_MCMP_HALF_HASHES_CHUNK_SLOTS_COUNT = 14"

definition HASHTABLE_HALF_HASHES_CHUNK_SEARCH_MAX :: nat where
  "HASHTABLE_HALF_HASHES_CHUNK_SEARCH_MAX = 32"

lemmas table_constants =
  HASHTABLE_MCMP_HALF_HASHES_CHUNK_SLOTS_COUNT_def HASHTABLE_HALF_HASHES_CHUNK_SEARCH_MAX_def

definition HASHTABLE_TO_CHUNK_INDEX :: "nat \<Rightarrow> nat" where
  "HASHTABLE_TO_CHUNK_INDEX bucket_index =
     bucket_index div HASHTABLE_MCMP_HALF_HASHES_CHUNK_SLOTS_COUNT"

definition HASHTABLE_TO_CHUNK_SLOT_INDEX :: "nat \<Rightarrow> nat" where
  "HASHTABLE_TO_CHUNK_SLOT_INDEX bucket_index =
     bucket_index mod HASHTABLE_MCMP_HALF_HASHES_CHUNK_SLOTS_COUNT"

definition HASHTABLE_TO_BUCKET_INDEX :: "nat \<Rightarrow> nat \<Rightarrow> nat" where
  "HASHTABLE_TO_BUCKET_INDEX chunk_index chunk_slot_index =
     chunk_index * HASHTABLE_MCMP_HALF_HASHES_CHUNK_SLOTS_COUNT + chunk_slot_index"

definition HASHTABLE_KEY_VALUE_FLAG_DELETED :: u8 where
  "HASHTABLE_KEY_VALUE_FLAG_DELETED = 0x01"

definition HASHTABLE_KEY_VALUE_FLAG_FILLED :: u8 where
  "HASHTABLE_KEY_VALUE_FLAG_FILLED = 0x02"

definition HASHTABLE_KEY_VALUE_HAS_FLAG :: "u8 \<Rightarrow> u8 \<Rightarrow> bool" where
  "HASHTABLE_KEY_VALUE_HAS_FLAG flags flag \<longleftrightarrow> flags AND flag = flag"

definition HASHTABLE_KEY_VALUE_SET_FLAG :: "u8 \<Rightarrow> u8 \<Rightarrow> u8" where
  "HASHTABLE_KEY_VALUE_SET_FLAG flags flag = flags OR flag"

definition HASHTABLE_KEY_VALUE_IS_EMPTY :: "u8 \<Rightarrow> bool" where
  "HASHTABLE_KEY_VALUE_IS_EMPTY flags \<longleftrightarrow> flags = 0"

section \<open>Data\<close>

record hashtable_key_value =
  kv_flags :: u8
  kv_database_number :: u32
  kv_key_length :: u32
  kv_key :: "bytes option"
  kv_data :: u64

record hashtable_half_hashes_chunk =
  chunk_lock :: transaction_rwspinlock
  half_hashes :: "u32 list"

record hashtable_data =
  buckets_count :: u64
  buckets_count_real :: u64
  chunks_count :: u64
  half_hashes_chunk :: "hashtable_half_hashes_chunk list"
  keys_values :: "hashtable_key_value list"

record hashtable =
  ht_current :: hashtable_data
  ht_old :: "hashtable_data option"
  is_resizing :: bool

text \<open>The views of the slot id union.\<close>

definition slot_filled :: "u32 \<Rightarrow> bool" where
  "slot_filled w \<longleftrightarrow> (ucast w :: u8) \<noteq> 0"

definition slot_quarter_hash :: "u32 \<Rightarrow> u16" where
  "slot_quarter_hash w = ucast (drop_bit 16 w)"

section \<open>The metadata bytes\<close>

definition md_overflowed_chunks_counter :: "u16 \<Rightarrow> u8" where
  "md_overflowed_chunks_counter r = ucast r"

definition md_slots_occupied :: "u16 \<Rightarrow> u8" where
  "md_slots_occupied r = ucast (take_bit 7 (drop_bit 8 r))"

definition md_is_full :: "u16 \<Rightarrow> bool" where
  "md_is_full r \<longleftrightarrow> bit r 15"

definition md_set_overflowed_chunks_counter :: "u8 \<Rightarrow> u16 \<Rightarrow> u16" where
  "md_set_overflowed_chunks_counter v r = push_bit 8 (drop_bit 8 r) OR ucast v"

definition md_set_slots_occupied :: "u8 \<Rightarrow> u16 \<Rightarrow> u16" where
  "md_set_slots_occupied v r =
     (r AND NOT (push_bit 8 (mask 7))) OR push_bit 8 (take_bit 7 (ucast v))"

definition md_set_is_full :: "bool \<Rightarrow> u16 \<Rightarrow> u16" where
  "md_set_is_full v r = (if v then set_bit 15 r else unset_bit 15 r)"

text \<open>A bit field: what is written is read back, and nothing is written twice.\<close>

locale field_lens =
  fixes get :: "'w \<Rightarrow> 'v"
    and put :: "'v \<Rightarrow> 'w \<Rightarrow> 'w"
    and fits :: "'v \<Rightarrow> bool"
  assumes get_put: "fits v \<Longrightarrow> get (put v w) = v"
    and put_get: "put (get w) w = w"
    and put_put: "put v (put u w) = put v w"
    and get_fits: "fits (get w)"
begin

lemma put_inject: "fits u \<Longrightarrow> fits v \<Longrightarrow> put u w = put v w \<longleftrightarrow> u = v"
  by (metis get_put)

lemma put_back: "put (get w) (put v w) = w"
  by (simp add: put_put put_get)

end

definition fits_7_bits :: "u8 \<Rightarrow> bool" where
  "fits_7_bits v \<longleftrightarrow> take_bit 7 v = v"

lemmas md_defs =
  md_overflowed_chunks_counter_def md_slots_occupied_def md_is_full_def
  md_set_overflowed_chunks_counter_def md_set_slots_occupied_def md_set_is_full_def

lemma bit_md_set_overflowed:
  "bit (md_set_overflowed_chunks_counter v r) i \<longleftrightarrow> (if i < 8 then bit v i else bit r i)"
  by (auto simp: md_defs bit_simps dest: bit_imp_le_length)

lemma bit_md_set_occupied:
  "bit (md_set_slots_occupied v r) i
    \<longleftrightarrow> (if 8 \<le> i \<and> i < 15 then bit v (i - 8) else bit r i)"
proof (cases "i < 16")
  case True
  then show ?thesis by (auto simp: md_defs bit_simps dest: bit_imp_le_length)
next
  case False
  then show ?thesis by (auto dest!: bit_imp_le_length)
qed

lemma bit_md_set_is_full: "bit (md_set_is_full v r) i \<longleftrightarrow> (if i = 15 then v else bit r i)"
  by (auto simp: md_defs bit_simps dest: bit_imp_le_length)

lemma bit_md_overflowed: "bit (md_overflowed_chunks_counter r) i \<longleftrightarrow> i < 8 \<and> bit r i"
  by (auto simp: md_defs bit_simps dest: bit_imp_le_length)

lemma bit_md_occupied: "bit (md_slots_occupied r) i \<longleftrightarrow> i < 7 \<and> bit r (i + 8)"
  by (auto simp: md_defs bit_simps add.commute dest: bit_imp_le_length)

lemmas bit_md =
  bit_md_set_overflowed bit_md_set_occupied bit_md_set_is_full bit_md_overflowed bit_md_occupied

lemma fits_7_bits_bit: "fits_7_bits v \<Longrightarrow> bit v i \<Longrightarrow> i < 7"
  unfolding fits_7_bits_def by (metis bit_take_bit_iff)

interpretation overflowed: field_lens md_overflowed_chunks_counter md_set_overflowed_chunks_counter
  "\<lambda>v. True"
  by unfold_locales (auto intro!: bit_word_eqI simp: bit_md split: if_splits)

interpretation occupied: field_lens md_slots_occupied md_set_slots_occupied fits_7_bits
proof
  fix v :: u8 and w :: u16
  assume "fits_7_bits v"
  then show "md_slots_occupied (md_set_slots_occupied v w) = v"
    by (intro bit_eqI) (auto simp: bit_md dest: fits_7_bits_bit)
next
  fix w :: u16
  show "fits_7_bits (md_slots_occupied w)"
    unfolding fits_7_bits_def by (rule bit_eqI) (auto simp: bit_md bit_take_bit_iff)
qed (auto intro!: bit_word_eqI simp: bit_md split: if_splits)

interpretation is_full: field_lens md_is_full md_set_is_full "\<lambda>v. True"
  by unfold_locales (auto intro!: bit_word_eqI simp: bit_md md_is_full_def split: if_splits)

text \<open>The three fields do not overlap.\<close>

lemma md_independent [simp]:
  "md_overflowed_chunks_counter (md_set_slots_occupied v r) = md_overflowed_chunks_counter r"
  "md_overflowed_chunks_counter (md_set_is_full b r) = md_overflowed_chunks_counter r"
  "md_slots_occupied (md_set_overflowed_chunks_counter v r) = md_slots_occupied r"
  "md_slots_occupied (md_set_is_full b r) = md_slots_occupied r"
  "md_is_full (md_set_overflowed_chunks_counter v r) = md_is_full r"
  "md_is_full (md_set_slots_occupied v r) = md_is_full r"
  by (auto intro!: bit_word_eqI simp: bit_md md_is_full_def split: if_splits)

section \<open>Chunks\<close>

definition overflowed_chunks_counter :: "hashtable_half_hashes_chunk \<Rightarrow> u8" where
  "overflowed_chunks_counter ch = md_overflowed_chunks_counter (reserved (chunk_lock ch))"

definition slots_occupied :: "hashtable_half_hashes_chunk \<Rightarrow> u8" where
  "slots_occupied ch = md_slots_occupied (reserved (chunk_lock ch))"

definition is_full :: "hashtable_half_hashes_chunk \<Rightarrow> bool" where
  "is_full ch = md_is_full (reserved (chunk_lock ch))"

definition upd_metadata ::
    "(u16 \<Rightarrow> u16) \<Rightarrow> hashtable_half_hashes_chunk \<Rightarrow> hashtable_half_hashes_chunk" where
  "upd_metadata f ch =
     ch\<lparr>chunk_lock := (chunk_lock ch)\<lparr>reserved := f (reserved (chunk_lock ch))\<rparr>\<rparr>"

definition set_overflowed_chunks_counter ::
    "u8 \<Rightarrow> hashtable_half_hashes_chunk \<Rightarrow> hashtable_half_hashes_chunk" where
  "set_overflowed_chunks_counter v = upd_metadata (md_set_overflowed_chunks_counter v)"

definition set_slots_occupied ::
    "u8 \<Rightarrow> hashtable_half_hashes_chunk \<Rightarrow> hashtable_half_hashes_chunk" where
  "set_slots_occupied v = upd_metadata (md_set_slots_occupied v)"

definition set_is_full ::
    "bool \<Rightarrow> hashtable_half_hashes_chunk \<Rightarrow> hashtable_half_hashes_chunk" where
  "set_is_full v = upd_metadata (md_set_is_full v)"

definition set_slot_id ::
    "nat \<Rightarrow> u32 \<Rightarrow> hashtable_half_hashes_chunk \<Rightarrow> hashtable_half_hashes_chunk" where
  "set_slot_id s w ch = ch\<lparr>half_hashes := (half_hashes ch)[s := w]\<rparr>"

definition upd_chunk ::
    "nat \<Rightarrow> (hashtable_half_hashes_chunk \<Rightarrow> hashtable_half_hashes_chunk)
      \<Rightarrow> hashtable_data \<Rightarrow> hashtable_data" where
  "upd_chunk c f d =
     d\<lparr>half_hashes_chunk := (half_hashes_chunk d)[c := f (half_hashes_chunk d ! c)]\<rparr>"

definition upd_kv ::
    "nat \<Rightarrow> (hashtable_key_value \<Rightarrow> hashtable_key_value) \<Rightarrow> hashtable_data \<Rightarrow> hashtable_data" where
  "upd_kv b f d = d\<lparr>keys_values := (keys_values d)[b := f (keys_values d ! b)]\<rparr>"

section \<open>Creation\<close>

definition empty_chunk :: hashtable_half_hashes_chunk where
  "empty_chunk =
     \<lparr>chunk_lock = \<lparr>transaction_id = 0, readers_count = 0, reserved = 0\<rparr>,
      half_hashes = replicate HASHTABLE_MCMP_HALF_HASHES_CHUNK_SLOTS_COUNT 0\<rparr>"

definition empty_key_value :: hashtable_key_value where
  "empty_key_value =
     \<lparr>kv_flags = 0, kv_database_number = 0, kv_key_length = 0, kv_key = None, kv_data = 0\<rparr>"

definition hashtable_mcmp_data_init :: "u64 \<Rightarrow> hashtable_data option" where
  "hashtable_mcmp_data_init bc =
     (if \<not> pow2_is bc then None
      else let slots = of_nat HASHTABLE_MCMP_HALF_HASHES_CHUNK_SLOTS_COUNT :: u64;
               real = bc - (bc mod slots) + slots
                        + of_nat HASHTABLE_HALF_HASHES_CHUNK_SEARCH_MAX * slots;
               chunks = real div slots
           in Some \<lparr>buckets_count = bc, buckets_count_real = real, chunks_count = chunks,
                    half_hashes_chunk = replicate (unat chunks) empty_chunk,
                    keys_values = replicate (unat real) empty_key_value\<rparr>)"

text \<open>\<open>numa\<close> is the outcome of \<open>hashtable_mcmp_data_numa_interleave_memory\<close> (libnuma).\<close>

definition hashtable_mcmp_init :: "u64 \<Rightarrow> bool \<Rightarrow> bool \<Rightarrow> hashtable option" where
  "hashtable_mcmp_init initial_size numa_aware numa =
     (case hashtable_mcmp_data_init (pow2_next initial_size) of
        None \<Rightarrow> None
      | Some d \<Rightarrow>
          if numa_aware \<and> \<not> numa then None
          else Some \<lparr>ht_current = d, ht_old = None, is_resizing = False\<rparr>)"

text \<open>The keys that \<open>hashtable_mcmp_data_keys_free\<close> gives back to the allocator, in order.\<close>

definition hashtable_mcmp_data_keys_free :: "hashtable_data \<Rightarrow> bytes option list" where
  "hashtable_mcmp_data_keys_free d =
     map kv_key
       (filter (\<lambda>kv.
            \<not> (HASHTABLE_KEY_VALUE_IS_EMPTY (kv_flags kv)
               \<or> \<not> HASHTABLE_KEY_VALUE_HAS_FLAG (kv_flags kv) HASHTABLE_KEY_VALUE_FLAG_FILLED)
            \<and> \<not> HASHTABLE_KEY_VALUE_HAS_FLAG (kv_flags kv) HASHTABLE_KEY_VALUE_FLAG_DELETED)
          (take (unat (buckets_count_real d)) (keys_values d)))"

section \<open>Hashes and indexes\<close>

definition hashtable_mcmp_support_index_from_hash :: "u64 \<Rightarrow> u64 \<Rightarrow> u64" where
  "hashtable_mcmp_support_index_from_hash bc hash = hash AND (bc - 1)"

definition hashtable_mcmp_support_hash_half :: "u64 \<Rightarrow> u32" where
  "hashtable_mcmp_support_hash_half hash = ucast (drop_bit 32 hash OR 0x80000000)"

definition hashtable_mcmp_support_hash_quarter :: "u32 \<Rightarrow> u16" where
  "hashtable_mcmp_support_hash_quarter hash_half = ucast (hash_half AND 0xFFFF)"

text \<open>The chunk in which the search for a hash starts, and the quarter hash it looks for.\<close>

definition home_chunk :: "hashtable_data \<Rightarrow> u64 \<Rightarrow> nat" where
  "home_chunk d hash =
     HASHTABLE_TO_CHUNK_INDEX (unat (hashtable_mcmp_support_index_from_hash (buckets_count d) hash))"

definition quarter_of :: "u64 \<Rightarrow> u16" where
  "quarter_of hash = hashtable_mcmp_support_hash_quarter (hashtable_mcmp_support_hash_half hash)"

end
