(* ===== verification/Mcmp_Search.thy ===== *)
theory Mcmp_Search
  imports Mcmp_Table
begin

text \<open>
  \<open>src/src/data_structures/hashtable/mcmp/hashtable_support_op_arch.c\<close>: the search of a key in
  the chunks its hash leads to, and the search that creates the slot when there is none. The
  source is compiled once per instruction set; the slot search it includes is the argument
  \<open>search\<close> here.

  The state is the pair of the transaction, which collects the locks, and the table. A lock is
  named by the number of its table (0 for \<open>ht_current\<close>, 1 for \<open>ht_old\<close>) and the
  index of its chunk. Indexes of chunks are natural numbers: with at most \<open>2 ^ 63\<close> buckets no
  index arithmetic of the source leaves 64 bits.
\<close>

section \<open>The loop over the matching slots of a chunk\<close>

datatype slot_verdict = Slot_stop | Slot_continue | Slot_found

function scan_slots :: "(nat \<Rightarrow> slot_verdict) \<Rightarrow> u32 \<Rightarrow> u32 \<Rightarrow> nat option" where
  "scan_slots verdict result_mask skip_indexes_mask =
     (let skip_indexes_mask_inv = NOT (skip_indexes_mask OR 0xC000)
      in if result_mask AND skip_indexes_mask_inv = 0 then None
         else let chunk_slot_index = ctz (result_mask AND skip_indexes_mask_inv);
                  skip = skip_indexes_mask OR push_bit chunk_slot_index 1
              in case verdict chunk_slot_index of
                   Slot_stop \<Rightarrow> None
                 | Slot_continue \<Rightarrow> scan_slots verdict result_mask skip
                 | Slot_found \<Rightarrow> Some chunk_slot_index)"
  by pat_completeness auto

definition open_slots :: "u32 \<Rightarrow> u32 \<Rightarrow> nat set" where
  "open_slots m skip = {i. bit (slots_mask m) i \<and> \<not> bit skip i}"

lemma bit_open_slots: "bit (m AND NOT (skip OR 0xC000)) i \<longleftrightarrow> i \<in> open_slots m skip"
  unfolding open_slots_def mem_Collect_eq bit_slots_mask bit_and_iff bit_not_iff bit_or_iff bit_0xC000
  by (auto dest: bit_imp_le_length)

lemma finite_open_slots [simp]: "finite (open_slots m skip)"
proof -
  have "open_slots m skip \<subseteq> {i. i < 32}"
    by (auto simp: open_slots_def dest: bit_imp_le_length)
  then show ?thesis by (rule finite_subset) simp
qed

lemma open_slots_empty_iff: "m AND NOT (skip OR 0xC000) = 0 \<longleftrightarrow> open_slots m skip = {}"
proof
  assume "m AND NOT (skip OR 0xC000) = 0"
  then show "open_slots m skip = {}" using bit_open_slots [of m skip] by auto
next
  assume "open_slots m skip = {}"
  then show "m AND NOT (skip OR 0xC000) = 0"
    by (intro bit_word_eqI) (simp only: bit_open_slots, simp)
qed

lemma open_slots_skip: "i < 32 \<Longrightarrow> open_slots m (skip OR push_bit i 1) = open_slots m skip - {i}"
  by (auto simp: open_slots_def bit_simps)

lemma ctz_open_slots:
  assumes "open_slots m skip \<noteq> {}"
  shows "ctz (m AND NOT (skip OR 0xC000)) \<in> open_slots m skip"
  using bit_ctz [of "m AND NOT (skip OR 0xC000)"] assms
  by (simp only: open_slots_empty_iff [symmetric] bit_open_slots not_False_eq_True)

lemma open_slots_less: "i \<in> open_slots m skip \<Longrightarrow> i < 32"
  by (auto simp: open_slots_def dest: bit_imp_le_length)

termination scan_slots
proof (relation "measure (\<lambda>(v, m, skip). card (open_slots m skip))", goal_cases)
  case 1
  then show ?case by simp
next
  case (2 verdict m skip inv s skip')
  then have s: "s \<in> open_slots m skip"
    by (metis ctz_open_slots open_slots_empty_iff)
  with 2 have "open_slots m skip' = open_slots m skip - {s}"
    by (simp only: open_slots_skip [OF open_slots_less])
  with s show ?case using card_Diff1_less [OF finite_open_slots s] by simp
qed

declare scan_slots.simps [simp del]

lemma scan_slots_step:
  "m AND NOT (skip OR 0xC000) \<noteq> 0 \<Longrightarrow> scan_slots v m skip =
     (case v (ctz (m AND NOT (skip OR 0xC000))) of
        Slot_stop \<Rightarrow> None
      | Slot_continue \<Rightarrow> scan_slots v m (skip OR push_bit (ctz (m AND NOT (skip OR 0xC000))) 1)
      | Slot_found \<Rightarrow> Some (ctz (m AND NOT (skip OR 0xC000))))"
  by (subst scan_slots.simps) (simp only: Let_def if_False)

lemma scan_slots_found:
  "scan_slots v m skip = Some s \<Longrightarrow> s \<in> open_slots m skip \<and> v s = Slot_found"
proof (induction v m skip rule: scan_slots.induct)
  case (1 v m skip)
  let ?w = "m AND NOT (skip OR 0xC000)"
  show ?case
  proof (cases "?w = 0")
    case True
    then show ?thesis using "1.prems" by (subst (asm) scan_slots.simps) (simp only: Let_def refl if_True option.distinct)
  next
    case False
    then have s: "ctz ?w \<in> open_slots m skip" by (metis ctz_open_slots open_slots_empty_iff)
    have "open_slots m (skip OR push_bit (ctz ?w) 1) \<subseteq> open_slots m skip"
      using open_slots_skip [OF open_slots_less [OF s], of m skip] by blast
    then show ?thesis
      using "1.prems" "1.IH" [OF refl False refl refl] s
      by (auto simp only: scan_slots_step [OF False] split: slot_verdict.splits)
  qed
qed

lemma scan_slots_none:
  "scan_slots v m skip = None \<Longrightarrow> \<forall>i\<in>open_slots m skip. v i \<noteq> Slot_stop
    \<Longrightarrow> \<forall>i\<in>open_slots m skip. v i = Slot_continue"
proof (induction v m skip rule: scan_slots.induct)
  case (1 v m skip)
  let ?w = "m AND NOT (skip OR 0xC000)"
  show ?case
  proof (cases "?w = 0")
    case True
    then show ?thesis by (simp only: open_slots_empty_iff ball_empty)
  next
    case False
    then have s: "ctz ?w \<in> open_slots m skip" by (metis ctz_open_slots open_slots_empty_iff)
    note eq = open_slots_skip [OF open_slots_less [OF s], of m skip]
    have "v (ctz ?w) = Slot_continue
        \<and> scan_slots v m (skip OR push_bit (ctz ?w) 1) = None"
      using "1.prems" s
      by (auto simp only: scan_slots_step [OF False] split: slot_verdict.splits)
    then show ?thesis
      using "1.IH" [OF refl False refl refl] "1.prems"(2) unfolding eq by blast
  qed
qed

section \<open>Locking a chunk\<close>

type_synonym ht_place = "nat \<times> nat"
type_synonym ht_state = "ht_place transaction \<times> hashtable_data"

text \<open>Take the lock of a chunk unless the transaction already owns it for writing.\<close>

definition chunk_lock_with ::
    "(ht_place transaction \<Rightarrow> ht_place \<Rightarrow> transaction_rwspinlock
        \<Rightarrow> bool \<times> ht_place transaction \<times> transaction_rwspinlock)
      \<Rightarrow> nat \<Rightarrow> nat \<Rightarrow> ht_state \<Rightarrow> bool \<times> ht_state" where
  "chunk_lock_with take_lock tbl c st =
     (let (t, d) = st; lk = chunk_lock (half_hashes_chunk d ! c)
      in if transaction_rwspinlock_is_owned_by_transaction lk t then (True, st)
         else let (res, t', lk') = take_lock t (tbl, c) lk
              in (res, t', upd_chunk c (\<lambda>ch. ch\<lparr>chunk_lock := lk'\<rparr>) d))"

definition chunk_read_lock :: "nat \<Rightarrow> nat \<Rightarrow> ht_state \<Rightarrow> bool \<times> ht_state" where
  "chunk_read_lock = chunk_lock_with transaction_lock_for_read"

definition chunk_write_lock :: "nat \<Rightarrow> nat \<Rightarrow> ht_state \<Rightarrow> bool \<times> ht_state" where
  "chunk_write_lock = chunk_lock_with transaction_lock_for_write"

definition chunk_upgrade_lock :: "nat \<Rightarrow> nat \<Rightarrow> ht_state \<Rightarrow> bool \<times> ht_state" where
  "chunk_upgrade_lock = chunk_lock_with transaction_upgrade_lock_for_write"

section \<open>Search of a key\<close>

text \<open>
  \<open>strncmp\<close> of the two keys over the given length. A key pointer that is NULL matches nothing
  here; reading through it would be undefined in C, and the invariant of the table excludes it for
  the slots whose length matches.
\<close>

definition key_matches :: "bytes \<Rightarrow> u32 \<Rightarrow> hashtable_key_value \<Rightarrow> bool" where
  "key_matches key key_length kv =
     (case kv_key kv of
        None \<Rightarrow> False
      | Some found_key \<Rightarrow>
          strncmp_eq (take (unat key_length) key) (take (unat key_length) found_key))"

definition search_key_verdict ::
    "hashtable_data \<Rightarrow> u32 \<Rightarrow> bytes \<Rightarrow> u32 \<Rightarrow> nat \<Rightarrow> nat \<Rightarrow> slot_verdict" where
  "search_key_verdict d database_number key key_length chunk_index chunk_slot_index =
     (let kv = keys_values d ! HASHTABLE_TO_BUCKET_INDEX chunk_index chunk_slot_index
      in if HASHTABLE_KEY_VALUE_IS_EMPTY (kv_flags kv) then Slot_stop
         else if HASHTABLE_KEY_VALUE_HAS_FLAG (kv_flags kv) HASHTABLE_KEY_VALUE_FLAG_DELETED
         then Slot_continue
         else if kv_key_length kv \<noteq> key_length then Slot_continue
         else if \<not> key_matches key key_length kv \<or> database_number \<noteq> kv_database_number kv
         then Slot_continue
         else Slot_found)"

fun search_key_chunks ::
    "(u32 \<Rightarrow> u32 list \<Rightarrow> u32) \<Rightarrow> nat \<Rightarrow> u32 \<Rightarrow> bytes \<Rightarrow> u32 \<Rightarrow> u16 \<Rightarrow> nat
      \<Rightarrow> nat \<Rightarrow> nat \<Rightarrow> ht_state \<Rightarrow> (nat \<times> nat) option \<times> ht_state" where
  "search_key_chunks search tbl db key len quarter start 0 chunk_index st = (None, st)"
| "search_key_chunks search tbl db key len quarter start (Suc n) chunk_index st =
     (if slots_occupied (half_hashes_chunk (snd st) ! chunk_index) = 0
      then search_key_chunks search tbl db key len quarter start n (Suc chunk_index) st
      else
        let (ok, st') = (if chunk_index \<noteq> start then chunk_read_lock tbl chunk_index st
                         else (True, st))
        in if \<not> ok then (None, st')
           else
             case scan_slots (search_key_verdict (snd st') db key len chunk_index)
                    (search (slot_id (of_nat (chunk_index - start)) quarter)
                       (half_hashes (half_hashes_chunk (snd st') ! chunk_index))) 0 of
               Some chunk_slot_index \<Rightarrow> (Some (chunk_index, chunk_slot_index), st')
             | None \<Rightarrow>
                 search_key_chunks search tbl db key len quarter start n (Suc chunk_index) st')"

definition hashtable_mcmp_support_op_search_key ::
    "(u32 \<Rightarrow> u32 list \<Rightarrow> u32) \<Rightarrow> nat \<Rightarrow> u32 \<Rightarrow> bytes \<Rightarrow> u32 \<Rightarrow> u64 \<Rightarrow> ht_state
      \<Rightarrow> (nat \<times> nat) option \<times> ht_state" where
  "hashtable_mcmp_support_op_search_key search tbl db key len hash st =
     (let start = home_chunk (snd st) hash;
          (ok, st') = chunk_read_lock tbl start st
      in if \<not> ok then (None, st')
         else
           search_key_chunks search tbl db key len (quarter_of hash) start
             (Suc (unat (overflowed_chunks_counter (half_hashes_chunk (snd st') ! start)))) start st')"

section \<open>Search of a key, with creation of the slot\<close>

text \<open>The local variables that both passes of the search share.\<close>

record soc_state =
  soc_st :: ht_state
  locked_up_to_chunk_index :: nat
  found_chunk_with_freespace :: bool
  chunk_first_with_freespace :: nat

datatype soc_result = Soc_lock_failed | Soc_not_found | Soc_found nat nat

definition soc_lock :: "nat \<Rightarrow> nat \<Rightarrow> soc_state \<Rightarrow> bool \<times> soc_state" where
  "soc_lock tbl c s =
     (if c > locked_up_to_chunk_index s
      then let (ok, st') = chunk_write_lock tbl c (soc_st s)
           in (ok, s\<lparr>soc_st := st', locked_up_to_chunk_index := c\<rparr>)
      else (True, s))"

definition soc_freespace :: "nat \<Rightarrow> soc_state \<Rightarrow> soc_state" where
  "soc_freespace c s =
     (if found_chunk_with_freespace s then s
      else s\<lparr>chunk_first_with_freespace := c,
             found_chunk_with_freespace := \<not> is_full (half_hashes_chunk (snd (soc_st s)) ! c)\<rparr>)"

definition soc_verdict ::
    "hashtable_data \<Rightarrow> u32 \<Rightarrow> bytes \<Rightarrow> u32 \<Rightarrow> nat \<Rightarrow> nat \<Rightarrow> slot_verdict" where
  "soc_verdict d database_number key key_length chunk_index chunk_slot_index =
     (let kv = keys_values d ! HASHTABLE_TO_BUCKET_INDEX chunk_index chunk_slot_index
      in if kv_key_length kv \<noteq> key_length then Slot_continue
         else if \<not> key_matches key key_length kv \<or> database_number \<noteq> kv_database_number kv
         then Slot_continue
         else Slot_found)"

definition soc_update_overflowed :: "nat \<Rightarrow> nat \<Rightarrow> hashtable_data \<Rightarrow> hashtable_data" where
  "soc_update_overflowed start c d =
     (let overflowed_chunks_counter_new = of_nat (c - start) :: u8;
          overflowed_chunks_counter_current = overflowed_chunks_counter (half_hashes_chunk d ! start)
      in upd_chunk start
           (set_overflowed_chunks_counter
              (max overflowed_chunks_counter_new overflowed_chunks_counter_current)) d)"

fun soc_search ::
    "(u32 \<Rightarrow> u32 list \<Rightarrow> u32) \<Rightarrow> nat \<Rightarrow> u32 \<Rightarrow> bytes \<Rightarrow> u32 \<Rightarrow> u16 \<Rightarrow> nat
      \<Rightarrow> nat \<Rightarrow> nat \<Rightarrow> soc_state \<Rightarrow> soc_result \<times> soc_state" where
  "soc_search search tbl db key len quarter start 0 c s = (Soc_not_found, s)"
| "soc_search search tbl db key len quarter start (Suc n) c s =
     (let (ok, s1) = soc_lock tbl c s
      in if \<not> ok then (Soc_lock_failed, s1)
         else
           let s2 = soc_freespace c s1; d = snd (soc_st s2); ch = half_hashes_chunk d ! c
           in if slots_occupied ch = 0
              then soc_search search tbl db key len quarter start n (Suc c) s2
              else
                case scan_slots (soc_verdict d db key len c)
                       (search (slot_id (of_nat (c - start)) quarter) (half_hashes ch)) 0 of
                  Some slot \<Rightarrow>
                    (Soc_found c slot,
                     s2\<lparr>soc_st := (fst (soc_st s2), soc_update_overflowed start c d)\<rparr>)
                | None \<Rightarrow> soc_search search tbl db key len quarter start n (Suc c) s2)"

definition occupy_slot :: "nat \<Rightarrow> u32 \<Rightarrow> hashtable_half_hashes_chunk \<Rightarrow> hashtable_half_hashes_chunk"
  where
  "occupy_slot slot w ch =
     (let ch' = set_slot_id slot w ch in set_slots_occupied (slots_occupied ch' + 1) ch')"

fun soc_create ::
    "(u32 \<Rightarrow> u32 list \<Rightarrow> u32) \<Rightarrow> nat \<Rightarrow> u16 \<Rightarrow> nat \<Rightarrow> nat \<Rightarrow> nat \<Rightarrow> soc_state
      \<Rightarrow> soc_result \<times> soc_state" where
  "soc_create search tbl quarter start 0 c s = (Soc_not_found, s)"
| "soc_create search tbl quarter start (Suc n) c s =
     (let (ok, s1) = soc_lock tbl c s
      in if \<not> ok then (Soc_lock_failed, s1)
         else
           let d = snd (soc_st s1); ch = half_hashes_chunk d ! c
           in case scan_slots (\<lambda>_. Slot_found) (search 0 (half_hashes ch)) 0 of
                Some slot \<Rightarrow>
                  (Soc_found c slot,
                   s1\<lparr>soc_st := (fst (soc_st s1),
                        soc_update_overflowed start c
                          (upd_chunk c
                             (occupy_slot slot (slot_id (of_nat (c - start)) quarter)) d))\<rparr>)
              | None \<Rightarrow>
                  soc_create search tbl quarter start n (Suc c)
                    (s1\<lparr>soc_st := (fst (soc_st s1), upd_chunk c (set_is_full True) d)\<rparr>))"

definition hashtable_mcmp_support_op_search_key_or_create_new ::
    "(u32 \<Rightarrow> u32 list \<Rightarrow> u32) \<Rightarrow> nat \<Rightarrow> u32 \<Rightarrow> bytes \<Rightarrow> u32 \<Rightarrow> u64 \<Rightarrow> bool \<Rightarrow> ht_state
      \<Rightarrow> (nat \<times> nat \<times> bool) option \<times> ht_state" where
  "hashtable_mcmp_support_op_search_key_or_create_new search tbl db key len hash
      create_new_if_missing st =
     (let start = home_chunk (snd st) hash;
          (ok, st1) = chunk_write_lock tbl start st
      in if \<not> ok then (None, st1)
         else
           let overflowed = unat (overflowed_chunks_counter (half_hashes_chunk (snd st1) ! start));
               (r, s) = soc_search search tbl db key len (quarter_of hash) start (Suc overflowed) start
                          \<lparr>soc_st = st1, locked_up_to_chunk_index = start,
                           found_chunk_with_freespace = False, chunk_first_with_freespace = 0\<rparr>
           in case r of
                Soc_lock_failed \<Rightarrow> (None, soc_st s)
              | Soc_found c slot \<Rightarrow> (Some (c, slot, False), soc_st s)
              | Soc_not_found \<Rightarrow>
                  if \<not> create_new_if_missing then (None, soc_st s)
                  else
                    let first = chunk_first_with_freespace s;
                        (r', s') = soc_create search tbl (quarter_of hash) start
                          (start + HASHTABLE_HALF_HASHES_CHUNK_SEARCH_MAX - first) first s
                    in (case r' of
                          Soc_found c slot \<Rightarrow> (Some (c, slot, True), soc_st s')
                        | _ \<Rightarrow> (None, soc_st s')))"

end
