(* ===== verification/Mcmp_Inv.thy ===== *)
theory Mcmp_Inv
  imports Mcmp_Search
begin

text \<open>
  The invariant of the hash table, the map it stands for, and what locking and searching keep of
  them.
\<close>

section \<open>The map of a list of buckets\<close>

definition kv_filled :: "hashtable_key_value \<Rightarrow> bool" where
  "kv_filled kv \<longleftrightarrow> kv_flags kv = HASHTABLE_KEY_VALUE_FLAG_FILLED"

definition kv_ident :: "hashtable_key_value \<Rightarrow> u32 \<times> bytes option" where
  "kv_ident kv = (kv_database_number kv, kv_key kv)"

definition kv_map :: "hashtable_key_value list \<Rightarrow> u32 \<times> bytes option \<Rightarrow> u64 option" where
  "kv_map kvs = map_of (map (\<lambda>kv. (kv_ident kv, kv_data kv)) (filter kv_filled kvs))"

definition ht_map :: "hashtable_data \<Rightarrow> u32 \<times> bytes \<Rightarrow> u64 option" where
  "ht_map d = (\<lambda>(db, k). kv_map (keys_values d) (db, Some k))"

definition has_ident :: "hashtable_key_value list \<Rightarrow> nat \<Rightarrow> u32 \<times> bytes option \<Rightarrow> bool" where
  "has_ident kvs i k \<longleftrightarrow> i < length kvs \<and> kv_filled (kvs ! i) \<and> kv_ident (kvs ! i) = k"

definition unique_keys :: "hashtable_key_value list \<Rightarrow> bool" where
  "unique_keys kvs \<longleftrightarrow> (\<forall>i j k. has_ident kvs i k \<and> has_ident kvs j k \<longrightarrow> i = j)"

lemma kv_map_None: "kv_map kvs k = None \<longleftrightarrow> (\<forall>i. \<not> has_ident kvs i k)"
  by (auto simp: kv_map_def map_of_eq_None_iff has_ident_def image_iff in_set_conv_nth)

lemma kv_map_Some:
  assumes "unique_keys kvs"
  shows "kv_map kvs k = Some v \<longleftrightarrow> (\<exists>i. has_ident kvs i k \<and> kv_data (kvs ! i) = v)"
proof
  assume "kv_map kvs k = Some v"
  then have "(k, v) \<in> set (map (\<lambda>kv. (kv_ident kv, kv_data kv)) (filter kv_filled kvs))"
    unfolding kv_map_def by (rule map_of_SomeD)
  then show "\<exists>i. has_ident kvs i k \<and> kv_data (kvs ! i) = v"
    by (auto simp: has_ident_def in_set_conv_nth)
next
  assume "\<exists>i. has_ident kvs i k \<and> kv_data (kvs ! i) = v"
  then obtain i where i: "has_ident kvs i k" "kv_data (kvs ! i) = v" by blast
  then obtain v' where v': "kv_map kvs k = Some v'"
    using kv_map_None [of kvs k] by blast
  then have "(k, v') \<in> set (map (\<lambda>kv. (kv_ident kv, kv_data kv)) (filter kv_filled kvs))"
    unfolding kv_map_def by (rule map_of_SomeD)
  then obtain j where j: "has_ident kvs j k" "kv_data (kvs ! j) = v'"
    by (auto simp: has_ident_def in_set_conv_nth)
  with i assms have "i = j" unfolding unique_keys_def by blast
  with i j v' show "kv_map kvs k = Some v" by simp
qed

lemma has_ident_update:
  "i < length kvs \<Longrightarrow> has_ident (kvs[i := kv]) j k
    \<longleftrightarrow> (if j = i then kv_filled kv \<and> kv_ident kv = k else has_ident kvs j k)"
  by (auto simp: has_ident_def)

lemma kv_map_eqI:
  assumes "unique_keys kvs" and "\<And>k v. (\<exists>i. has_ident kvs i k \<and> kv_data (kvs ! i) = v) \<longleftrightarrow> m k = Some v"
  shows "kv_map kvs = m"
proof
  fix k
  show "kv_map kvs k = m k"
    using kv_map_Some [OF assms(1), of k] assms(2) [of k]
    by (cases "m k"; cases "kv_map kvs k") auto
qed

lemma kv_map_store:
  assumes u: "unique_keys kvs" and i: "i < length kvs" and kv: "kv_filled kv" "kv_ident kv = k"
    and old: "has_ident kvs i k \<or> \<not> kv_filled (kvs ! i) \<and> kv_map kvs k = None"
  shows "unique_keys (kvs[i := kv])" and "kv_map (kvs[i := kv]) = (kv_map kvs)(k \<mapsto> kv_data kv)"
proof -
  have only: "has_ident kvs j k \<Longrightarrow> j = i" for j
    using u old unfolding unique_keys_def kv_map_None by blast
  show u': "unique_keys (kvs[i := kv])"
    using u only kv i unfolding unique_keys_def by (auto simp: has_ident_update)
  show "kv_map (kvs[i := kv]) = (kv_map kvs)(k \<mapsto> kv_data kv)"
  proof (rule kv_map_eqI [OF u'])
    fix k' v
    show "(\<exists>j. has_ident (kvs[i := kv]) j k' \<and> kv_data (kvs[i := kv] ! j) = v)
        \<longleftrightarrow> ((kv_map kvs)(k \<mapsto> kv_data kv)) k' = Some v"
    proof (cases "k' = k")
      case True
      have "has_ident (kvs[i := kv]) j k \<longleftrightarrow> j = i" for j
        using only [of j] i kv by (auto simp: has_ident_update)
      with True i show ?thesis by simp
    next
      case False
      then have "has_ident (kvs[i := kv]) j k' \<longleftrightarrow> j \<noteq> i \<and> has_ident kvs j k'" for j
        using i kv by (simp add: has_ident_update)
      moreover have "\<not> has_ident kvs i k'" using old False by (auto simp: has_ident_def)
      ultimately have "(\<exists>j. has_ident (kvs[i := kv]) j k' \<and> kv_data (kvs[i := kv] ! j) = v)
          \<longleftrightarrow> (\<exists>j. has_ident kvs j k' \<and> kv_data (kvs ! j) = v)"
        by (metis nth_list_update_neq)
      with False show ?thesis by (simp add: kv_map_Some [OF u])
    qed
  qed
qed

lemma kv_map_remove:
  assumes u: "unique_keys kvs" and i: "has_ident kvs i k" and kv: "\<not> kv_filled kv"
  shows "unique_keys (kvs[i := kv])" and "kv_map (kvs[i := kv]) = (kv_map kvs)(k := None)"
proof -
  have len: "i < length kvs" using i by (simp add: has_ident_def)
  have only: "has_ident kvs j k \<Longrightarrow> j = i" for j using u i unfolding unique_keys_def by blast
  show u': "unique_keys (kvs[i := kv])"
    using u kv len unfolding unique_keys_def by (auto simp: has_ident_update)
  show "kv_map (kvs[i := kv]) = (kv_map kvs)(k := None)"
  proof (rule kv_map_eqI [OF u'])
    fix k' v
    have upd: "has_ident (kvs[i := kv]) j k' \<longleftrightarrow> j \<noteq> i \<and> has_ident kvs j k'" for j
      using len kv by (simp add: has_ident_update)
    show "(\<exists>j. has_ident (kvs[i := kv]) j k' \<and> kv_data (kvs[i := kv] ! j) = v)
        \<longleftrightarrow> ((kv_map kvs)(k := None)) k' = Some v"
    proof (cases "k' = k")
      case True
      then show ?thesis using only upd by auto
    next
      case False
      then have "\<not> has_ident kvs i k'" using i by (auto simp: has_ident_def)
      then have "(\<exists>j. has_ident (kvs[i := kv]) j k' \<and> kv_data (kvs[i := kv] ! j) = v)
          \<longleftrightarrow> (\<exists>j. has_ident kvs j k' \<and> kv_data (kvs ! j) = v)"
        using upd by (metis nth_list_update_neq)
      with False show ?thesis by (simp add: kv_map_Some [OF u])
    qed
  qed
qed

lemma ht_map_upd:
  "kv_map (keys_values d') = (kv_map (keys_values d))((db, Some k) := v)
    \<Longrightarrow> ht_map d' = (ht_map d)((db, k) := v)"
  by (auto simp: ht_map_def)

section \<open>The invariant\<close>

abbreviation nchunks :: "hashtable_data \<Rightarrow> nat" where
  "nchunks d \<equiv> length (half_hashes_chunk d)"

abbreviation chunk_at :: "hashtable_data \<Rightarrow> nat \<Rightarrow> hashtable_half_hashes_chunk" where
  "chunk_at d c \<equiv> half_hashes_chunk d ! c"

abbreviation slot_at :: "hashtable_data \<Rightarrow> nat \<Rightarrow> nat \<Rightarrow> u32" where
  "slot_at d c s \<equiv> half_hashes (chunk_at d c) ! s"

definition kv_at :: "hashtable_data \<Rightarrow> nat \<Rightarrow> nat \<Rightarrow> hashtable_key_value" where
  "kv_at d c s = keys_values d ! HASHTABLE_TO_BUCKET_INDEX c s"

definition table_shape :: "hashtable_data \<Rightarrow> bool" where
  "table_shape d \<longleftrightarrow>
     (\<exists>m\<le>63. buckets_count d = 2 ^ m)
     \<and> nchunks d = unat (buckets_count d) div 14 + 33
     \<and> unat (chunks_count d) = nchunks d
     \<and> unat (buckets_count_real d) = 14 * nchunks d
     \<and> length (keys_values d) = 14 * nchunks d
     \<and> (\<forall>c<nchunks d. length (half_hashes (chunk_at d c)) = 14)"

definition used_slots :: "u32 list \<Rightarrow> nat" where
  "used_slots ws = length (filter (\<lambda>w. w \<noteq> 0) ws)"

definition chunk_ok :: "hashtable_half_hashes_chunk \<Rightarrow> bool" where
  "chunk_ok ch \<longleftrightarrow>
     unat (slots_occupied ch) = used_slots (half_hashes ch)
     \<and> (is_full ch \<longrightarrow> 0 \<notin> set (half_hashes ch))
     \<and> unat (overflowed_chunks_counter ch) < 32"

text \<open>A bucket without a key: never used, deleted, or reserved by a read-modify-write.\<close>

definition kv_free :: "hashtable_key_value \<Rightarrow> bool" where
  "kv_free kv \<longleftrightarrow>
     kv_key kv = None \<and> kv_key_length kv = 0
     \<and> (kv_flags kv = 0 \<or> kv_flags kv = HASHTABLE_KEY_VALUE_FLAG_DELETED)"

text \<open>The keys the table accepts: not empty, without a NUL byte, with a 32 bit length.\<close>

definition good_key :: "bytes \<Rightarrow> u32 \<Rightarrow> bool" where
  "good_key key len \<longleftrightarrow> length key = unat len \<and> key \<noteq> [] \<and> 0 \<notin> set key"

text \<open>Where the entry of a hash may be: at most as far from its home as the home knows of.\<close>

definition placed :: "hashtable_data \<Rightarrow> u64 \<Rightarrow> nat \<Rightarrow> u32 \<Rightarrow> bool" where
  "placed d hash c w \<longleftrightarrow>
     (let home = home_chunk d hash
      in home \<le> c \<and> c - home \<le> unat (overflowed_chunks_counter (chunk_at d home))
         \<and> w = slot_id (of_nat (c - home)) (quarter_of hash))"

definition kv_live :: "hashtable_key_value \<Rightarrow> bool" where
  "kv_live kv \<longleftrightarrow> kv_filled kv \<and> (\<exists>k. kv_key kv = Some k \<and> good_key k (kv_key_length kv))"

definition slot_ok ::
    "(u32 \<Rightarrow> bytes \<Rightarrow> u64) \<Rightarrow> (nat \<times> nat) set \<Rightarrow> hashtable_data \<Rightarrow> nat \<Rightarrow> nat \<Rightarrow> bool" where
  "slot_ok H pend d c s \<longleftrightarrow>
     (if slot_at d c s = 0 then (c, s) \<notin> pend \<and> kv_free (kv_at d c s)
      else if (c, s) \<in> pend then kv_free (kv_at d c s)
      else kv_live (kv_at d c s)
        \<and> placed d (H (kv_database_number (kv_at d c s)) (the (kv_key (kv_at d c s)))) c (slot_at d c s))"

text \<open>
  \<open>pend\<close> are the slots that a read-modify-write has created and not yet filled; it is empty
  between the operations.
\<close>

definition ht_wf :: "(u32 \<Rightarrow> bytes \<Rightarrow> u64) \<Rightarrow> (nat \<times> nat) set \<Rightarrow> hashtable_data \<Rightarrow> bool" where
  "ht_wf H pend d \<longleftrightarrow>
     table_shape d
     \<and> (\<forall>c<nchunks d. chunk_ok (chunk_at d c) \<and> (\<forall>s<14. slot_ok H pend d c s))
     \<and> unique_keys (keys_values d)"

lemma bucket_index_less: "c < n \<Longrightarrow> s < 14 \<Longrightarrow> HASHTABLE_TO_BUCKET_INDEX c s < 14 * n"
  by (auto simp: HASHTABLE_TO_BUCKET_INDEX_def table_constants)

lemma bucket_index_div_mod:
  "s < 14 \<Longrightarrow> HASHTABLE_TO_BUCKET_INDEX c s div 14 = c \<and> HASHTABLE_TO_BUCKET_INDEX c s mod 14 = s"
  by (simp add: HASHTABLE_TO_BUCKET_INDEX_def table_constants)

lemma bucket_index_inject:
  assumes "s < 14" and "s' < 14"
  shows "HASHTABLE_TO_BUCKET_INDEX c s = HASHTABLE_TO_BUCKET_INDEX c' s' \<longleftrightarrow> c = c' \<and> s = s'"
  using bucket_index_div_mod [OF assms(1), of c] bucket_index_div_mod [OF assms(2), of c'] by metis

lemma bucket_index_split:
  "b < 14 * n \<Longrightarrow> HASHTABLE_TO_CHUNK_INDEX b < n \<and> HASHTABLE_TO_CHUNK_SLOT_INDEX b < 14
    \<and> HASHTABLE_TO_BUCKET_INDEX (HASHTABLE_TO_CHUNK_INDEX b) (HASHTABLE_TO_CHUNK_SLOT_INDEX b) = b"
  by (auto simp: HASHTABLE_TO_BUCKET_INDEX_def HASHTABLE_TO_CHUNK_INDEX_def
      HASHTABLE_TO_CHUNK_SLOT_INDEX_def table_constants)

lemma home_chunk_less:
  assumes "table_shape d"
  shows "home_chunk d hash + 32 < nchunks d"
proof -
  obtain m where m: "m \<le> 63" "buckets_count d = 2 ^ m"
    using assms by (auto simp: table_shape_def)
  have "unat (hash AND (2 ^ m - 1)) < 2 ^ m"
    using m by (simp add: and_pow2_minus_1)
  then have "unat (hash AND (2 ^ m - 1)) div 14 \<le> 2 ^ m div 14"
    by (intro div_le_mono) simp
  moreover have "unat (buckets_count d) = 2 ^ m"
    using m by (simp add: unat_power2)
  ultimately show ?thesis
    using assms m
    by (simp add: home_chunk_def hashtable_mcmp_support_index_from_hash_def table_shape_def
        HASHTABLE_TO_CHUNK_INDEX_def table_constants)
qed

section \<open>Tables that differ in their locks only\<close>

definition chunk_view :: "hashtable_half_hashes_chunk \<Rightarrow> u16 \<times> u32 list" where
  "chunk_view ch = (reserved (chunk_lock ch), half_hashes ch)"

definition same_table :: "hashtable_data \<Rightarrow> hashtable_data \<Rightarrow> bool" where
  "same_table d d' \<longleftrightarrow>
     buckets_count d' = buckets_count d \<and> buckets_count_real d' = buckets_count_real d
     \<and> chunks_count d' = chunks_count d \<and> keys_values d' = keys_values d
     \<and> map chunk_view (half_hashes_chunk d') = map chunk_view (half_hashes_chunk d)"

lemma same_table_refl [simp]: "same_table d d"
  by (simp add: same_table_def)

lemma same_table_trans [trans]: "same_table d e \<Longrightarrow> same_table e f \<Longrightarrow> same_table d f"
  by (simp add: same_table_def)

lemma same_table_nchunks: "same_table d d' \<Longrightarrow> nchunks d' = nchunks d"
  by (metis same_table_def length_map)

lemma same_table_at:
  assumes "same_table d d'" and "c < nchunks d"
  shows "half_hashes (chunk_at d' c) = half_hashes (chunk_at d c)"
    and "reserved (chunk_lock (chunk_at d' c)) = reserved (chunk_lock (chunk_at d c))"
proof -
  have "map chunk_view (half_hashes_chunk d') ! c = map chunk_view (half_hashes_chunk d) ! c"
    using assms by (simp add: same_table_def)
  then have "chunk_view (chunk_at d' c) = chunk_view (chunk_at d c)"
    using assms same_table_nchunks [OF assms(1)] by simp
  then show "half_hashes (chunk_at d' c) = half_hashes (chunk_at d c)"
    and "reserved (chunk_lock (chunk_at d' c)) = reserved (chunk_lock (chunk_at d c))"
    by (simp_all add: chunk_view_def)
qed

lemma same_table_meta:
  assumes "same_table d d'" and "c < nchunks d"
  shows "overflowed_chunks_counter (chunk_at d' c) = overflowed_chunks_counter (chunk_at d c)"
    and "slots_occupied (chunk_at d' c) = slots_occupied (chunk_at d c)"
    and "is_full (chunk_at d' c) = is_full (chunk_at d c)"
  using same_table_at [OF assms]
  by (simp_all add: overflowed_chunks_counter_def slots_occupied_def is_full_def)

lemma same_table_home: "same_table d d' \<Longrightarrow> home_chunk d' h = home_chunk d h"
  by (simp add: same_table_def home_chunk_def)

lemma same_table_kvs: "same_table d d' \<Longrightarrow> keys_values d' = keys_values d"
  by (simp add: same_table_def)

lemma same_table_map: "same_table d d' \<Longrightarrow> ht_map d' = ht_map d"
  by (simp add: same_table_def ht_map_def)

lemma same_table_shape: "same_table d d' \<Longrightarrow> table_shape d \<Longrightarrow> table_shape d'"
  using same_table_nchunks [of d d'] same_table_at(1) [of d d']
  by (simp add: table_shape_def same_table_def)

section \<open>Tables with the same contents\<close>

text \<open>
  A weaker relation than \<open>same_table\<close>: a chunk without a free slot may have been marked full.
\<close>

definition similar :: "hashtable_data \<Rightarrow> hashtable_data \<Rightarrow> bool" where
  "similar d d' \<longleftrightarrow>
     buckets_count d' = buckets_count d \<and> buckets_count_real d' = buckets_count_real d
     \<and> chunks_count d' = chunks_count d \<and> keys_values d' = keys_values d
     \<and> nchunks d' = nchunks d
     \<and> (\<forall>c<nchunks d.
          half_hashes (chunk_at d' c) = half_hashes (chunk_at d c)
          \<and> overflowed_chunks_counter (chunk_at d' c) = overflowed_chunks_counter (chunk_at d c)
          \<and> slots_occupied (chunk_at d' c) = slots_occupied (chunk_at d c)
          \<and> (is_full (chunk_at d' c) \<longrightarrow>
               is_full (chunk_at d c) \<or> 0 \<notin> set (half_hashes (chunk_at d c))))"

lemma similar_refl [simp]: "similar d d"
  by (simp add: similar_def)

lemma similar_trans [trans]: "similar d e \<Longrightarrow> similar e f \<Longrightarrow> similar d f"
  unfolding similar_def by simp blast

lemma same_table_similar: "same_table d d' \<Longrightarrow> similar d d'"
  using same_table_nchunks [of d d'] same_table_at(1) [of d d'] same_table_meta [of d d']
  by (simp add: similar_def same_table_def)

lemma similar_nchunks: "similar d d' \<Longrightarrow> nchunks d' = nchunks d"
  by (simp add: similar_def)

lemma similar_at:
  assumes "similar d d'" and "c < nchunks d"
  shows "half_hashes (chunk_at d' c) = half_hashes (chunk_at d c)"
    and "overflowed_chunks_counter (chunk_at d' c) = overflowed_chunks_counter (chunk_at d c)"
    and "slots_occupied (chunk_at d' c) = slots_occupied (chunk_at d c)"
    and "is_full (chunk_at d' c) \<Longrightarrow> is_full (chunk_at d c) \<or> 0 \<notin> set (half_hashes (chunk_at d c))"
  using assms by (auto simp: similar_def)

lemma similar_kvs: "similar d d' \<Longrightarrow> keys_values d' = keys_values d"
  by (simp add: similar_def)

lemma similar_map: "similar d d' \<Longrightarrow> ht_map d' = ht_map d"
  by (simp add: similar_def ht_map_def)

lemma similar_home: "similar d d' \<Longrightarrow> home_chunk d' h = home_chunk d h"
  by (simp add: similar_def home_chunk_def)

lemma similar_placed:
  "similar d d' \<Longrightarrow> c < nchunks d \<Longrightarrow> placed d' h c w \<longleftrightarrow> placed d h c w"
  by (auto simp: placed_def Let_def similar_home similar_at(2))

lemma similar_wf:
  assumes sim: "similar d d'" and wf: "ht_wf H pend d"
  shows "ht_wf H pend d'"
proof -
  have n: "nchunks d' = nchunks d" by (rule similar_nchunks [OF sim])
  have shape: "table_shape d'"
    using wf sim by (simp add: ht_wf_def table_shape_def similar_def)
  have ok: "chunk_ok (chunk_at d' c)" if "c < nchunks d" for c
    using wf that similar_at [OF sim that] by (auto simp: ht_wf_def chunk_ok_def)
  have "slot_ok H pend d' c s \<longleftrightarrow> slot_ok H pend d c s" if "c < nchunks d" for c s
    using that
    by (simp add: slot_ok_def kv_at_def similar_at [OF sim] similar_kvs [OF sim]
        similar_placed [OF sim])
  with ok shape wf show ?thesis
    by (simp add: ht_wf_def n similar_kvs [OF sim])
qed

lemma same_table_wf: "same_table d d' \<Longrightarrow> ht_wf H pend d \<Longrightarrow> ht_wf H pend d'"
  using same_table_similar similar_wf by blast

end
