(* ===== verification/Mcmp_Update.thy ===== *)
theory Mcmp_Update
  imports Mcmp_Inv
begin

text \<open>
  The elementary updates of the table: a slot is occupied or vacated, a bucket is filled, emptied
  or given new data. Each one keeps the invariant, with the slot moving into or out of the set of
  pending slots, and does to the map what its name says.
\<close>

section \<open>The updates\<close>

text \<open>The slot is given back: \<open>hashtable_op_delete.c\<close> and \<open>hashtable_op_rmw.c\<close>.\<close>

definition vacate_slot :: "nat \<Rightarrow> hashtable_half_hashes_chunk \<Rightarrow> hashtable_half_hashes_chunk" where
  "vacate_slot slot ch =
     set_slot_id slot 0 (set_is_full False (set_slots_occupied (slots_occupied ch - 1) ch))"

definition kv_set_deleted :: "hashtable_key_value \<Rightarrow> hashtable_key_value" where
  "kv_set_deleted kv =
     kv\<lparr>kv_flags := HASHTABLE_KEY_VALUE_FLAG_DELETED, kv_database_number := 0, kv_key := None,
        kv_key_length := 0\<rparr>"

definition kv_set_new :: "u32 \<Rightarrow> bytes \<Rightarrow> u32 \<Rightarrow> hashtable_key_value \<Rightarrow> hashtable_key_value" where
  "kv_set_new db key len kv =
     kv\<lparr>kv_database_number := db, kv_key := Some key, kv_key_length := len,
        kv_flags := HASHTABLE_KEY_VALUE_SET_FLAG 0 HASHTABLE_KEY_VALUE_FLAG_FILLED\<rparr>"

section \<open>Fields\<close>

lemma flag_facts [simp]:
  "HASHTABLE_KEY_VALUE_IS_EMPTY HASHTABLE_KEY_VALUE_FLAG_FILLED = False"
  "HASHTABLE_KEY_VALUE_HAS_FLAG HASHTABLE_KEY_VALUE_FLAG_FILLED HASHTABLE_KEY_VALUE_FLAG_DELETED = False"
  "HASHTABLE_KEY_VALUE_HAS_FLAG HASHTABLE_KEY_VALUE_FLAG_DELETED HASHTABLE_KEY_VALUE_FLAG_DELETED = True"
  "HASHTABLE_KEY_VALUE_SET_FLAG 0 HASHTABLE_KEY_VALUE_FLAG_FILLED = HASHTABLE_KEY_VALUE_FLAG_FILLED"
  "HASHTABLE_KEY_VALUE_FLAG_FILLED \<noteq> 0"
  "HASHTABLE_KEY_VALUE_FLAG_FILLED \<noteq> HASHTABLE_KEY_VALUE_FLAG_DELETED"
  "HASHTABLE_KEY_VALUE_FLAG_DELETED \<noteq> HASHTABLE_KEY_VALUE_FLAG_FILLED"
  by (simp_all add: HASHTABLE_KEY_VALUE_IS_EMPTY_def HASHTABLE_KEY_VALUE_HAS_FLAG_def
      HASHTABLE_KEY_VALUE_SET_FLAG_def HASHTABLE_KEY_VALUE_FLAG_FILLED_def
      HASHTABLE_KEY_VALUE_FLAG_DELETED_def)

lemma chunk_field_simps [simp]:
  "half_hashes (upd_metadata f ch) = half_hashes ch"
  "transaction_id (chunk_lock (upd_metadata f ch)) = transaction_id (chunk_lock ch)"
  "readers_count (chunk_lock (upd_metadata f ch)) = readers_count (chunk_lock ch)"
  "half_hashes (set_slot_id s w ch) = (half_hashes ch)[s := w]"
  "chunk_lock (set_slot_id s w ch) = chunk_lock ch"
  by (simp_all add: upd_metadata_def set_slot_id_def)

lemmas chunk_set_defs =
  set_overflowed_chunks_counter_def set_slots_occupied_def set_is_full_def

lemma chunk_meta_simps [simp]:
  "overflowed_chunks_counter (set_overflowed_chunks_counter v ch) = v"
  "overflowed_chunks_counter (set_slots_occupied u ch) = overflowed_chunks_counter ch"
  "overflowed_chunks_counter (set_is_full b ch) = overflowed_chunks_counter ch"
  "overflowed_chunks_counter (set_slot_id s w ch) = overflowed_chunks_counter ch"
  "slots_occupied (set_overflowed_chunks_counter v ch) = slots_occupied ch"
  "fits_7_bits u \<Longrightarrow> slots_occupied (set_slots_occupied u ch) = u"
  "slots_occupied (set_is_full b ch) = slots_occupied ch"
  "slots_occupied (set_slot_id s w ch) = slots_occupied ch"
  "is_full (set_overflowed_chunks_counter v ch) = is_full ch"
  "is_full (set_slots_occupied u ch) = is_full ch"
  "is_full (set_is_full b ch) = b"
  "is_full (set_slot_id s w ch) = is_full ch"
  by (simp_all add: chunk_set_defs overflowed_chunks_counter_def slots_occupied_def is_full_def
      upd_metadata_def set_slot_id_def overflowed.get_put occupied.get_put is_full.get_put)

lemma chunk_hashes_simps [simp]:
  "half_hashes (set_overflowed_chunks_counter v ch) = half_hashes ch"
  "half_hashes (set_slots_occupied u ch) = half_hashes ch"
  "half_hashes (set_is_full b ch) = half_hashes ch"
  by (simp_all add: chunk_set_defs)

lemma chunk_lock_simps [simp]:
  "transaction_id (chunk_lock (set_overflowed_chunks_counter v ch)) = transaction_id (chunk_lock ch)"
  "readers_count (chunk_lock (set_overflowed_chunks_counter v ch)) = readers_count (chunk_lock ch)"
  "transaction_id (chunk_lock (set_slots_occupied u ch)) = transaction_id (chunk_lock ch)"
  "readers_count (chunk_lock (set_slots_occupied u ch)) = readers_count (chunk_lock ch)"
  "transaction_id (chunk_lock (set_is_full b ch)) = transaction_id (chunk_lock ch)"
  "readers_count (chunk_lock (set_is_full b ch)) = readers_count (chunk_lock ch)"
  by (simp_all add: chunk_set_defs)

lemma upd_chunk_simps [simp]:
  "keys_values (upd_chunk c f d) = keys_values d"
  "buckets_count (upd_chunk c f d) = buckets_count d"
  "buckets_count_real (upd_chunk c f d) = buckets_count_real d"
  "chunks_count (upd_chunk c f d) = chunks_count d"
  "nchunks (upd_chunk c f d) = nchunks d"
  "home_chunk (upd_chunk c f d) h = home_chunk d h"
  "kv_at (upd_chunk c f d) c' s = kv_at d c' s"
  by (simp_all add: upd_chunk_def home_chunk_def kv_at_def)

lemma chunk_at_upd_chunk:
  "c < nchunks d \<Longrightarrow> chunk_at (upd_chunk c f d) c' = (if c' = c then f (chunk_at d c) else chunk_at d c')"
  by (simp add: upd_chunk_def nth_list_update)

lemma upd_kv_simps [simp]:
  "half_hashes_chunk (upd_kv b f d) = half_hashes_chunk d"
  "buckets_count (upd_kv b f d) = buckets_count d"
  "buckets_count_real (upd_kv b f d) = buckets_count_real d"
  "chunks_count (upd_kv b f d) = chunks_count d"
  "length (keys_values (upd_kv b f d)) = length (keys_values d)"
  "home_chunk (upd_kv b f d) h = home_chunk d h"
  "placed (upd_kv b f d) h c w = placed d h c w"
  by (simp_all add: upd_kv_def home_chunk_def placed_def)

lemma upd_kv_upd_chunk: "upd_kv b g (upd_chunk c f d) = upd_chunk c f (upd_kv b g d)"
  by (simp add: upd_kv_def upd_chunk_def)

lemma fits_7_bits_small: "unat v < 128 \<Longrightarrow> fits_7_bits v"
  unfolding fits_7_bits_def word_unat_eq_iff unsigned_take_bit_eq
  by (simp add: take_bit_nat_eq_self)

section \<open>What the invariant says\<close>

lemma wf_shape [dest]: "ht_wf H pend d \<Longrightarrow> table_shape d"
  by (simp add: ht_wf_def)

lemma wf_slot_ok: "ht_wf H pend d \<Longrightarrow> c < nchunks d \<Longrightarrow> s < 14 \<Longrightarrow> slot_ok H pend d c s"
  by (simp add: ht_wf_def)

lemma wf_chunk_ok: "ht_wf H pend d \<Longrightarrow> c < nchunks d \<Longrightarrow> chunk_ok (chunk_at d c)"
  by (simp add: ht_wf_def)

lemma wf_unique: "ht_wf H pend d \<Longrightarrow> unique_keys (keys_values d)"
  by (simp add: ht_wf_def)

lemma shape_slots: "table_shape d \<Longrightarrow> c < nchunks d \<Longrightarrow> length (half_hashes (chunk_at d c)) = 14"
  by (simp add: table_shape_def)

lemma wf_live:
  "ht_wf H pend d \<Longrightarrow> c < nchunks d \<Longrightarrow> s < 14 \<Longrightarrow> slot_at d c s \<noteq> 0 \<Longrightarrow> (c, s) \<notin> pend
    \<Longrightarrow> kv_live (kv_at d c s)"
  using wf_slot_ok [of H pend d c s] by (simp add: slot_ok_def)

lemma wf_empty_chunk:
  assumes "ht_wf H pend d" and "c < nchunks d" and "slots_occupied (chunk_at d c) = 0" and "s < 14"
  shows "slot_at d c s = 0"
proof -
  have "used_slots (half_hashes (chunk_at d c)) = 0"
    using wf_chunk_ok [OF assms(1,2)] assms(3) by (simp add: chunk_ok_def)
  then have "\<forall>w\<in>set (half_hashes (chunk_at d c)). w = 0"
    by (auto simp: used_slots_def filter_empty_conv)
  moreover have "s < length (half_hashes (chunk_at d c))"
    using assms shape_slots by (metis wf_shape)
  ultimately show ?thesis by simp
qed

section \<open>A chunk changes\<close>

lemma placed_upd_chunk:
  assumes "c < nchunks d" and "c' < nchunks d"
    and "unat (overflowed_chunks_counter (chunk_at d c)) \<le> unat (overflowed_chunks_counter (f (chunk_at d c)))"
    and "placed d h c' w"
  shows "placed (upd_chunk c f d) h c' w"
proof -
  have "home_chunk d h < nchunks d" using assms(2,4) by (auto simp: placed_def Let_def)
  then show ?thesis using assms by (auto simp: placed_def Let_def chunk_at_upd_chunk)
qed

text \<open>
  A chunk may change when it stays well formed, its overflow counter does not shrink, and every slot
  that changes belongs to a free bucket and is pending exactly when it is in use.
\<close>

lemma wf_upd_chunk:
  assumes wf: "ht_wf H pend d" and c: "c < nchunks d"
    and ok: "chunk_ok (f (chunk_at d c))" and len: "length (half_hashes (f (chunk_at d c))) = 14"
    and ov: "unat (overflowed_chunks_counter (chunk_at d c)) \<le> unat (overflowed_chunks_counter (f (chunk_at d c)))"
    and others: "\<And>c' s. c' \<noteq> c \<Longrightarrow> (c', s) \<in> pend' \<longleftrightarrow> (c', s) \<in> pend"
    and slots: "\<And>s. s < 14 \<Longrightarrow>
      half_hashes (f (chunk_at d c)) ! s = slot_at d c s \<and> ((c, s) \<in> pend' \<longleftrightarrow> (c, s) \<in> pend)
      \<or> kv_free (kv_at d c s) \<and> ((c, s) \<in> pend' \<longleftrightarrow> half_hashes (f (chunk_at d c)) ! s \<noteq> 0)"
  shows "ht_wf H pend' (upd_chunk c f d)"
proof -
  let ?d = "upd_chunk c f d"
  have shape: "table_shape ?d"
    using wf len c by (auto simp: ht_wf_def table_shape_def chunk_at_upd_chunk)
  have slot: "slot_ok H pend' ?d c' s" if c': "c' < nchunks d" and s: "s < 14" for c' s
  proof -
    have old: "slot_ok H pend d c' s" by (rule wf_slot_ok [OF wf that])
    have pl: "placed d h c' w \<Longrightarrow> placed ?d h c' w" for h w
      using placed_upd_chunk [where f = f, OF c c' ov] .
    show ?thesis
    proof (cases "c' = c \<and> \<not> (half_hashes (f (chunk_at d c)) ! s = slot_at d c s
        \<and> ((c, s) \<in> pend' \<longleftrightarrow> (c, s) \<in> pend))")
      case True
      then show ?thesis using slots [OF s] c by (auto simp: slot_ok_def chunk_at_upd_chunk)
    next
      case False
      then show ?thesis using old pl c others [of c' s]
        by (auto simp: slot_ok_def chunk_at_upd_chunk split: if_splits)
    qed
  qed
  have "chunk_ok (chunk_at ?d c')" if "c' < nchunks d" for c'
    using wf_chunk_ok [OF wf that] ok c by (simp add: chunk_at_upd_chunk)
  with shape slot wf_unique [OF wf] show ?thesis by (simp add: ht_wf_def)
qed

lemma used_slots_le: "length ws = 14 \<Longrightarrow> used_slots ws \<le> 14"
  by (metis used_slots_def length_filter_le)

lemma occupy_slot_ok:
  assumes "chunk_ok ch" and "length (half_hashes ch) = 14" and "s < 14" and "half_hashes ch ! s = 0"
    and "w \<noteq> 0"
  shows "chunk_ok (occupy_slot s w ch)"
    and "half_hashes (occupy_slot s w ch) = (half_hashes ch)[s := w]"
    and "overflowed_chunks_counter (occupy_slot s w ch) = overflowed_chunks_counter ch"
proof -
  have used: "used_slots ((half_hashes ch)[s := w]) = Suc (used_slots (half_hashes ch))"
    unfolding used_slots_def using assms by (intro count_filter_update_add) auto
  have le: "Suc (unat (slots_occupied ch)) \<le> 14"
    using used used_slots_le [of "(half_hashes ch)[s := w]"] assms(1,2) by (simp add: chunk_ok_def)
  then have occ: "unat (slots_occupied ch + 1) = Suc (unat (slots_occupied ch))"
    by (intro unat_add_one) simp
  with le have fit: "fits_7_bits (slots_occupied ch + 1)" by (intro fits_7_bits_small) simp
  have "0 \<in> set (half_hashes ch)" using assms(2-4) by (metis nth_mem)
  then have "\<not> is_full ch" using assms(1) by (auto simp: chunk_ok_def)
  then show "chunk_ok (occupy_slot s w ch)"
    using assms(1) used occ fit by (simp add: chunk_ok_def occupy_slot_def Let_def)
qed (simp_all add: occupy_slot_def Let_def)

lemma vacate_slot_ok:
  assumes "chunk_ok ch" and "length (half_hashes ch) = 14" and "s < 14" and "half_hashes ch ! s \<noteq> 0"
  shows "chunk_ok (vacate_slot s ch)"
    and "half_hashes (vacate_slot s ch) = (half_hashes ch)[s := 0]"
    and "overflowed_chunks_counter (vacate_slot s ch) = overflowed_chunks_counter ch"
proof -
  have used: "Suc (used_slots ((half_hashes ch)[s := 0])) = used_slots (half_hashes ch)"
    unfolding used_slots_def using assms by (intro count_filter_update_del) auto
  then have pos: "0 < unat (slots_occupied ch)" using assms(1) by (simp add: chunk_ok_def)
  then have occ: "unat (slots_occupied ch - 1) = unat (slots_occupied ch) - 1" by (rule unat_sub_one)
  moreover have "unat (slots_occupied ch) \<le> 14"
    using assms(1,2) used_slots_le by (simp add: chunk_ok_def)
  ultimately have "fits_7_bits (slots_occupied ch - 1)" by (intro fits_7_bits_small) simp
  then show "chunk_ok (vacate_slot s ch)"
    using assms(1) used occ by (simp add: chunk_ok_def vacate_slot_def)
qed (simp_all add: vacate_slot_def)

lemma wf_occupy:
  assumes wf: "ht_wf H pend d" and c: "c < nchunks d" and s: "s < 14"
    and z: "slot_at d c s = 0" and w: "w \<noteq> 0"
  shows "ht_wf H (insert (c, s) pend) (upd_chunk c (occupy_slot s w) d)"
proof (rule wf_upd_chunk [OF wf c])
  note occ = occupy_slot_ok [OF wf_chunk_ok [OF wf c] shape_slots [OF wf_shape [OF wf] c] s z w]
  show "chunk_ok (occupy_slot s w (chunk_at d c))"
    and "length (half_hashes (occupy_slot s w (chunk_at d c))) = 14"
    and "unat (overflowed_chunks_counter (chunk_at d c))
      \<le> unat (overflowed_chunks_counter (occupy_slot s w (chunk_at d c)))"
    using occ shape_slots [OF wf_shape [OF wf] c] by simp_all
  have free: "kv_free (kv_at d c s)"
    using wf_slot_ok [OF wf c s] z by (simp add: slot_ok_def)
  show "half_hashes (occupy_slot s w (chunk_at d c)) ! s' = slot_at d c s'
        \<and> ((c, s') \<in> insert (c, s) pend \<longleftrightarrow> (c, s') \<in> pend)
      \<or> kv_free (kv_at d c s')
        \<and> ((c, s') \<in> insert (c, s) pend \<longleftrightarrow> half_hashes (occupy_slot s w (chunk_at d c)) ! s' \<noteq> 0)"
    if "s' < 14" for s'
    using that free w occ(2) shape_slots [OF wf_shape [OF wf] c] s by (auto simp: nth_list_update)
qed auto

lemma wf_vacate:
  assumes wf: "ht_wf H (insert (c, s) pend) d" and c: "c < nchunks d" and s: "s < 14"
    and fresh: "(c, s) \<notin> pend"
  shows "ht_wf H pend (upd_chunk c (vacate_slot s) d)"
proof (rule wf_upd_chunk [OF wf c])
  have nz: "slot_at d c s \<noteq> 0" and free: "kv_free (kv_at d c s)"
    using wf_slot_ok [OF wf c s] by (auto simp: slot_ok_def split: if_splits)
  note vac = vacate_slot_ok [OF wf_chunk_ok [OF wf c] shape_slots [OF wf_shape [OF wf] c] s nz]
  show "chunk_ok (vacate_slot s (chunk_at d c))"
    and "length (half_hashes (vacate_slot s (chunk_at d c))) = 14"
    and "unat (overflowed_chunks_counter (chunk_at d c))
      \<le> unat (overflowed_chunks_counter (vacate_slot s (chunk_at d c)))"
    using vac shape_slots [OF wf_shape [OF wf] c] by simp_all
  show "half_hashes (vacate_slot s (chunk_at d c)) ! s' = slot_at d c s'
        \<and> ((c, s') \<in> pend \<longleftrightarrow> (c, s') \<in> insert (c, s) pend)
      \<or> kv_free (kv_at d c s')
        \<and> ((c, s') \<in> pend \<longleftrightarrow> half_hashes (vacate_slot s (chunk_at d c)) ! s' \<noteq> 0)"
    if "s' < 14" for s'
    using that free fresh vac(2) shape_slots [OF wf_shape [OF wf] c] s by (auto simp: nth_list_update)
qed auto

lemma wf_set_overflowed:
  assumes wf: "ht_wf H pend d" and c: "c < nchunks d"
    and v: "unat v < 32" "unat (overflowed_chunks_counter (chunk_at d c)) \<le> unat v"
  shows "ht_wf H pend (upd_chunk c (set_overflowed_chunks_counter v) d)"
  using wf_chunk_ok [OF wf c] shape_slots [OF wf_shape [OF wf] c] v
  by (intro wf_upd_chunk [OF wf c]) (simp_all add: chunk_ok_def)

section \<open>A bucket changes\<close>

lemma kv_at_upd_kv:
  assumes "table_shape d" and "c < nchunks d" and "s < 14" and "s' < 14"
  shows "kv_at (upd_kv (HASHTABLE_TO_BUCKET_INDEX c s) f d) c' s'
    = (if c' = c \<and> s' = s then f (kv_at d c s) else kv_at d c' s')"
  using assms bucket_index_less [OF assms(2,3)] bucket_index_inject [OF assms(4,3), of c' c]
  by (auto simp: kv_at_def upd_kv_def table_shape_def nth_list_update)

lemma wf_upd_kv:
  assumes wf: "ht_wf H pend d" and c: "c < nchunks d" and s: "s < 14" and nz: "slot_at d c s \<noteq> 0"
    and others: "\<And>c' s'. (c', s') \<noteq> (c, s) \<Longrightarrow> (c', s') \<in> pend' \<longleftrightarrow> (c', s') \<in> pend"
    and new: "if (c, s) \<in> pend' then kv_free (f (kv_at d c s))
      else kv_live (f (kv_at d c s))
        \<and> placed d (H (kv_database_number (f (kv_at d c s))) (the (kv_key (f (kv_at d c s))))) c (slot_at d c s)"
    and u: "unique_keys (keys_values (upd_kv (HASHTABLE_TO_BUCKET_INDEX c s) f d))"
  shows "ht_wf H pend' (upd_kv (HASHTABLE_TO_BUCKET_INDEX c s) f d)"
proof -
  let ?d = "upd_kv (HASHTABLE_TO_BUCKET_INDEX c s) f d"
  have shape: "table_shape ?d" using wf_shape [OF wf] by (simp add: table_shape_def)
  have "slot_ok H pend' ?d c' s'" if c': "c' < nchunks d" and s': "s' < 14" for c' s'
  proof (cases "c' = c \<and> s' = s")
    case True
    then show ?thesis
      using new nz by (auto simp: slot_ok_def kv_at_upd_kv [OF wf_shape [OF wf] c s s])
  next
    case False
    then show ?thesis
      using wf_slot_ok [OF wf that] others [of c' s']
      by (auto simp: slot_ok_def kv_at_upd_kv [OF wf_shape [OF wf] c s s'] split: if_splits)
  qed
  with shape u wf show ?thesis by (simp add: ht_wf_def)
qed

lemma kv_at_has_ident:
  assumes "table_shape d" and "c < nchunks d" and "s < 14"
  shows "has_ident (keys_values d) (HASHTABLE_TO_BUCKET_INDEX c s) k
    \<longleftrightarrow> kv_filled (kv_at d c s) \<and> kv_ident (kv_at d c s) = k"
  using bucket_index_less [OF assms(2,3)] assms(1) by (auto simp: has_ident_def kv_at_def table_shape_def)

lemma free_not_filled: "kv_free kv \<Longrightarrow> \<not> kv_filled kv"
  by (auto simp: kv_free_def kv_filled_def)

text \<open>The pending slot gets its key: the map gains it.\<close>

lemma wf_fill:
  fixes v :: u64
  assumes wf: "ht_wf H (insert (c, s) pend) d" and c: "c < nchunks d" and s: "s < 14"
    and fresh: "(c, s) \<notin> pend" and key: "good_key key len"
    and pl: "placed d (H db key) c (slot_at d c s)" and none: "ht_map d (db, key) = None"
  defines "d' \<equiv> upd_kv (HASHTABLE_TO_BUCKET_INDEX c s)
      (\<lambda>kv. kv_set_new db key len (kv\<lparr>kv_data := v\<rparr>)) d"
  shows "ht_wf H pend d'" and "ht_map d' = (ht_map d)((db, key) \<mapsto> v)"
proof -
  let ?b = "HASHTABLE_TO_BUCKET_INDEX c s"
  let ?kv = "kv_set_new db key len ((kv_at d c s)\<lparr>kv_data := v\<rparr>)"
  have nz: "slot_at d c s \<noteq> 0" and free: "kv_free (kv_at d c s)"
    using wf_slot_ok [OF wf c s] by (auto simp: slot_ok_def split: if_splits)
  have kvs: "keys_values d' = (keys_values d)[?b := ?kv]"
    by (simp add: d'_def upd_kv_def kv_at_def)
  have b: "?b < length (keys_values d)"
    using bucket_index_less [OF c s] wf_shape [OF wf] by (simp add: table_shape_def)
  have new: "kv_filled ?kv" "kv_ident ?kv = (db, Some key)" "kv_data ?kv = v" "kv_live ?kv"
    using key by (auto simp: kv_set_new_def kv_filled_def kv_ident_def kv_live_def)
  note st = kv_map_store [OF wf_unique [OF wf] b new(1,2)]
  have old: "\<not> kv_filled (keys_values d ! ?b) \<and> kv_map (keys_values d) (db, Some key) = None"
    using free_not_filled [OF free] none by (simp add: kv_at_def ht_map_def)
  show "ht_map d' = (ht_map d)((db, key) \<mapsto> v)"
    using st(2) [OF disjI2 [OF old]] by (intro ht_map_upd) (simp add: kvs new)
  have u: "unique_keys (keys_values d')"
    unfolding kvs by (rule st(1) [OF disjI2 [OF old]])
  show "ht_wf H pend d'"
    unfolding d'_def
    by (rule wf_upd_kv [OF wf c s nz _ _ u [unfolded d'_def]])
      (use fresh pl new in \<open>auto simp: kv_set_new_def\<close>)
qed

text \<open>A live bucket loses its key: the map loses it, the slot is pending until it is vacated.\<close>

lemma wf_unfill:
  assumes wf: "ht_wf H pend d" and c: "c < nchunks d" and s: "s < 14"
    and nz: "slot_at d c s \<noteq> 0" and live: "(c, s) \<notin> pend"
    and id: "kv_ident (kv_at d c s) = (db, Some key)"
  defines "d' \<equiv> upd_kv (HASHTABLE_TO_BUCKET_INDEX c s) kv_set_deleted d"
  shows "ht_wf H (insert (c, s) pend) d'" and "ht_map d' = (ht_map d)((db, key) := None)"
proof -
  let ?b = "HASHTABLE_TO_BUCKET_INDEX c s"
  let ?kv = "kv_set_deleted (kv_at d c s)"
  have kvs: "keys_values d' = (keys_values d)[?b := ?kv]"
    by (simp add: d'_def upd_kv_def kv_at_def)
  have "has_ident (keys_values d) ?b (db, Some key)"
    using wf_live [OF wf c s nz live] id
    by (simp add: kv_at_has_ident [OF wf_shape [OF wf] c s] kv_live_def)
  moreover have new: "kv_free ?kv" by (simp add: kv_set_deleted_def kv_free_def)
  ultimately have rm: "unique_keys (keys_values d')"
      "kv_map (keys_values d') = (kv_map (keys_values d))((db, Some key) := None)"
    unfolding kvs using kv_map_remove [OF wf_unique [OF wf]] free_not_filled by blast+
  show "ht_map d' = (ht_map d)((db, key) := None)" by (rule ht_map_upd) (rule rm(2))
  show "ht_wf H (insert (c, s) pend) d'"
    unfolding d'_def
    by (rule wf_upd_kv [OF wf c s nz _ _ rm(1) [unfolded d'_def]]) (use new in auto)
qed

text \<open>A live bucket gets new data.\<close>

lemma wf_set_data:
  fixes v :: u64
  assumes wf: "ht_wf H pend d" and c: "c < nchunks d" and s: "s < 14"
    and nz: "slot_at d c s \<noteq> 0" and live: "(c, s) \<notin> pend"
    and id: "kv_ident (kv_at d c s) = (db, Some key)"
  defines "d' \<equiv> upd_kv (HASHTABLE_TO_BUCKET_INDEX c s) (\<lambda>kv. kv\<lparr>kv_data := v\<rparr>) d"
  shows "ht_wf H pend d'" and "ht_map d' = (ht_map d)((db, key) \<mapsto> v)"
proof -
  let ?b = "HASHTABLE_TO_BUCKET_INDEX c s"
  let ?kv = "(kv_at d c s)\<lparr>kv_data := v\<rparr>"
  have kvs: "keys_values d' = (keys_values d)[?b := ?kv]"
    by (simp add: d'_def upd_kv_def kv_at_def)
  have lv: "kv_live (kv_at d c s)" by (rule wf_live [OF wf c s nz live])
  then have new: "kv_filled ?kv" "kv_ident ?kv = (db, Some key)" "kv_data ?kv = v" "kv_live ?kv"
    using id by (auto simp: kv_live_def kv_filled_def kv_ident_def)
  have h: "has_ident (keys_values d) ?b (db, Some key)"
    using lv id by (simp add: kv_at_has_ident [OF wf_shape [OF wf] c s] kv_live_def)
  then have b: "?b < length (keys_values d)" by (simp add: has_ident_def)
  note st = kv_map_store [OF wf_unique [OF wf] b new(1,2) disjI1 [OF h]]
  show "ht_map d' = (ht_map d)((db, key) \<mapsto> v)"
    using st(2) by (intro ht_map_upd) (simp add: kvs new)
  have "placed d (H db key) c (slot_at d c s)"
    using wf_slot_ok [OF wf c s] nz live id by (simp add: slot_ok_def kv_ident_def)
  then show "ht_wf H pend d'"
    unfolding d'_def
    by (intro wf_upd_kv [OF wf c s nz])
      (use live new id st(1) in \<open>auto simp: kv_ident_def upd_kv_def kv_at_def\<close>)
qed

end
