(* ===== verification/Mcmp_Find.thy ===== *)
theory Mcmp_Find
  imports Mcmp_Update
begin

text \<open>
  What the two searches of \<open>hashtable_support_op_arch.c\<close> do to a table that satisfies the
  invariant: the search of a key finds its bucket and changes nothing but locks; the search that
  creates finds the bucket, or reserves a slot of the window of 32 chunks, or reports that a lock
  was refused or the window is full.
\<close>

section \<open>Locking a chunk\<close>

definition lock_keeps ::
    "(ht_place transaction \<Rightarrow> ht_place \<Rightarrow> transaction_rwspinlock
        \<Rightarrow> bool \<times> ht_place transaction \<times> transaction_rwspinlock) \<Rightarrow> bool" where
  "lock_keeps f \<longleftrightarrow>
     (\<forall>t a lk. reserved (snd (snd (f t a lk))) = reserved lk \<and> id_of (fst (snd (f t a lk))) = id_of t)"

lemma lock_keeps_all:
  "lock_keeps transaction_lock_for_read"
  "lock_keeps transaction_lock_for_write"
  "lock_keeps transaction_upgrade_lock_for_write"
  by (simp_all add: lock_keeps_def lock_request_defs lock_simps)

lemma upd_chunk_same:
  assumes "c < nchunks d" and "chunk_view (f (chunk_at d c)) = chunk_view (chunk_at d c)"
  shows "same_table d (upd_chunk c f d)"
  using assms
  by (auto simp: same_table_def upd_chunk_def map_update intro!: list_update_same_conv [THEN iffD2])

lemma chunk_lock_with_same:
  assumes "lock_keeps f" and "c < nchunks d" and "chunk_lock_with f tbl c (t, d) = (ok, (t', d'))"
  shows "same_table d d' \<and> id_of t' = id_of t"
proof -
  let ?r = "f t (tbl, c) (chunk_lock (chunk_at d c))"
  have "reserved (snd (snd ?r)) = reserved (chunk_lock (chunk_at d c)) \<and> id_of (fst (snd ?r)) = id_of t"
    using assms(1) by (auto simp: lock_keeps_def)
  then show ?thesis
    using assms(2,3)
    by (auto simp: chunk_lock_with_def Let_def chunk_view_def split: if_splits prod.splits
        intro!: upd_chunk_same)
qed

lemma chunk_read_lock_same:
  "chunk_read_lock tbl c (t, d) = (ok, (t', d')) \<Longrightarrow> c < nchunks d \<Longrightarrow> same_table d d' \<and> id_of t' = id_of t"
  unfolding chunk_read_lock_def using chunk_lock_with_same lock_keeps_all(1) by blast

lemma chunk_write_lock_same:
  "chunk_write_lock tbl c (t, d) = (ok, (t', d')) \<Longrightarrow> c < nchunks d \<Longrightarrow> same_table d d' \<and> id_of t' = id_of t"
  unfolding chunk_write_lock_def using chunk_lock_with_same lock_keeps_all(2) by blast

lemma chunk_upgrade_lock_same:
  "chunk_upgrade_lock tbl c (t, d) = (ok, (t', d')) \<Longrightarrow> c < nchunks d \<Longrightarrow> same_table d d' \<and> id_of t' = id_of t"
  unfolding chunk_upgrade_lock_def using chunk_lock_with_same lock_keeps_all(3) by blast

text \<open>No other transaction is in the way of a reader, or of a writer.\<close>

definition readable :: "u32 \<Rightarrow> hashtable_data \<Rightarrow> bool" where
  "readable tid d \<longleftrightarrow>
     (\<forall>c<nchunks d. transaction_id (chunk_lock (chunk_at d c)) = tid
        \<or> transaction_id (chunk_lock (chunk_at d c)) = 0)"

definition writable :: "u32 \<Rightarrow> hashtable_data \<Rightarrow> bool" where
  "writable tid d \<longleftrightarrow>
     (\<forall>c<nchunks d. transaction_id (chunk_lock (chunk_at d c)) = tid
        \<or> transaction_id (chunk_lock (chunk_at d c)) = 0
          \<and> readers_count (chunk_lock (chunk_at d c)) = 0)"

lemma chunk_read_lock_ok:
  assumes "readable (id_of t) d" and "c < nchunks d" and "chunk_read_lock tbl c (t, d) = (ok, (t', d'))"
  shows "ok \<and> readable (id_of t) d'"
  using assms
  by (auto simp: chunk_read_lock_def chunk_lock_with_def Let_def lock_request_defs readable_def
      upd_chunk_def transaction_rwspinlock_is_owned_by_transaction_def nth_list_update
      split: if_splits)

lemma chunk_write_lock_ok:
  assumes "writable (id_of t) d" and "c < nchunks d" and "chunk_write_lock tbl c (t, d) = (ok, (t', d'))"
  shows "ok \<and> writable (id_of t) d'"
  using assms
  by (auto simp: chunk_write_lock_def chunk_lock_with_def Let_def lock_request_defs writable_def
      upd_chunk_def transaction_rwspinlock_is_owned_by_transaction_def nth_list_update
      split: if_splits)

section \<open>The verdicts\<close>

lemma key_matches_live:
  assumes "kv_live kv" and "good_key key len" and "kv_key_length kv = len"
  shows "key_matches key len kv \<longleftrightarrow> kv_key kv = Some key"
proof -
  obtain k where k: "kv_key kv = Some k" "good_key k len"
    using assms by (auto simp: kv_live_def)
  then show ?thesis
    using assms(2) strncmp_eq_iff [of key k] by (auto simp: key_matches_def good_key_def)
qed

lemma live_length_iff:
  "kv_live kv \<Longrightarrow> good_key key len \<Longrightarrow> kv_key kv = Some key \<Longrightarrow> kv_key_length kv = len"
  by (auto simp: kv_live_def good_key_def word_unat_eq_iff)

lemma search_key_verdict_live:
  assumes "kv_live (kv_at d c s)" and "good_key key len"
  shows "search_key_verdict d db key len c s
    = (if kv_ident (kv_at d c s) = (db, Some key) then Slot_found else Slot_continue)"
  using assms key_matches_live [OF assms] live_length_iff [OF assms]
  by (auto simp: search_key_verdict_def Let_def kv_at_def kv_ident_def kv_live_def kv_filled_def)

lemma soc_verdict_live:
  assumes "kv_live (kv_at d c s)" and "good_key key len"
  shows "soc_verdict d db key len c s
    = (if kv_ident (kv_at d c s) = (db, Some key) then Slot_found else Slot_continue)"
  using assms key_matches_live [OF assms] live_length_iff [OF assms]
  by (auto simp: soc_verdict_def Let_def kv_at_def kv_ident_def kv_live_def kv_filled_def)

lemma soc_verdict_free:
  assumes "kv_free (kv_at d c s)" and "good_key key len"
  shows "soc_verdict d db key len c s = Slot_continue"
proof -
  have "len \<noteq> 0" using assms(2) by (auto simp: good_key_def)
  then show ?thesis using assms(1) by (auto simp: soc_verdict_def Let_def kv_at_def kv_free_def)
qed

section \<open>The search of a key\<close>

lemma open_slots_search:
  assumes "hash_search search" and "length hs = 14"
  shows "open_slots (search w hs) 0 = {s. s < 14 \<and> hs ! s = w}"
  using hash_search.bit_slots_search [OF assms] by (auto simp: open_slots_def)

definition is_key_at :: "hashtable_data \<Rightarrow> u32 \<Rightarrow> bytes \<Rightarrow> nat \<Rightarrow> nat \<Rightarrow> bool" where
  "is_key_at d db key c s \<longleftrightarrow>
     c < nchunks d \<and> s < 14 \<and> slot_at d c s \<noteq> 0 \<and> kv_ident (kv_at d c s) = (db, Some key)"

lemma is_key_at_same: "same_table d d' \<Longrightarrow> is_key_at d' db key c s \<longleftrightarrow> is_key_at d db key c s"
  using same_table_nchunks [of d d'] same_table_at [of d d' c] same_table_kvs [of d d']
  by (auto simp: is_key_at_def kv_at_def)

definition absent_in ::
    "hashtable_data \<Rightarrow> u32 \<Rightarrow> bytes \<Rightarrow> u16 \<Rightarrow> nat \<Rightarrow> nat \<Rightarrow> nat \<Rightarrow> bool" where
  "absent_in d db key q start lo hi \<longleftrightarrow>
     (\<forall>c s. lo \<le> c \<and> c < hi \<and> s < 14 \<and> slot_at d c s = slot_id (of_nat (c - start)) q
        \<longrightarrow> kv_ident (kv_at d c s) \<noteq> (db, Some key))"

lemma absent_in_same:
  assumes "same_table d d'" and "hi \<le> nchunks d"
  shows "absent_in d' db key q start lo hi \<longleftrightarrow> absent_in d db key q start lo hi"
proof -
  have "half_hashes (chunk_at d' c) = half_hashes (chunk_at d c)" if "c < hi" for c
    using same_table_at(1) [OF assms(1), of c] that assms(2) by simp
  then show ?thesis
    by (simp add: absent_in_def kv_at_def same_table_kvs [OF assms(1)] cong: conj_cong)
qed

lemma absent_in_step:
  assumes "absent_in d db key q start (Suc c) hi"
    and "\<And>s. s < 14 \<Longrightarrow> slot_at d c s = slot_id (of_nat (c - start)) q
      \<Longrightarrow> kv_ident (kv_at d c s) \<noteq> (db, Some key)"
  shows "absent_in d db key q start c hi"
  unfolding absent_in_def
proof (intro allI impI)
  fix c' s
  assume *: "c \<le> c' \<and> c' < hi \<and> s < 14 \<and> slot_at d c' s = slot_id (of_nat (c' - start)) q"
  show "kv_ident (kv_at d c' s) \<noteq> (db, Some key)"
  proof (cases "c' = c")
    case True
    then show ?thesis using assms(2) * by blast
  next
    case False
    with * have "Suc c \<le> c'" by simp
    with * assms(1) show ?thesis unfolding absent_in_def by blast
  qed
qed

lemma search_key_scan:
  fixes db :: u32 and dist :: u8 and q :: u16
  assumes hs: "hash_search search" and wf: "ht_wf H {} d" and key: "good_key key len"
    and c: "c < nchunks d"
  defines "r \<equiv> scan_slots (search_key_verdict d db key len c)
      (search (slot_id dist q) (half_hashes (chunk_at d c))) 0"
  shows "r = Some s \<Longrightarrow> is_key_at d db key c s \<and> slot_at d c s = slot_id dist q"
    and "r = None \<Longrightarrow> s < 14 \<Longrightarrow> slot_at d c s = slot_id dist q
      \<Longrightarrow> kv_ident (kv_at d c s) \<noteq> (db, Some key)"
proof -
  let ?open = "open_slots (search (slot_id dist q) (half_hashes (chunk_at d c))) 0"
  have op: "?open = {s. s < 14 \<and> slot_at d c s = slot_id dist q}"
    by (rule open_slots_search [OF hs shape_slots [OF wf_shape [OF wf] c]])
  have v: "search_key_verdict d db key len c s
      = (if kv_ident (kv_at d c s) = (db, Some key) then Slot_found else Slot_continue)"
    if "s \<in> ?open" for s
    using that wf_live [OF wf c, of s] search_key_verdict_live [OF _ key] by (simp add: op)
  show "is_key_at d db key c s \<and> slot_at d c s = slot_id dist q" if "r = Some s"
    using scan_slots_found [OF that [unfolded r_def]] v [of s] c
    by (auto simp: is_key_at_def op split: if_splits)
  show "kv_ident (kv_at d c s) \<noteq> (db, Some key)"
    if "r = None" and "s < 14" and "slot_at d c s = slot_id dist q"
  proof -
    have s: "s \<in> ?open" using that by (simp add: op)
    have "\<forall>i\<in>?open. search_key_verdict d db key len c i \<noteq> Slot_stop" using v by simp
    then have "search_key_verdict d db key len c s = Slot_continue"
      using scan_slots_none [OF that(1) [unfolded r_def]] s by blast
    then show ?thesis using v [OF s] by (simp split: if_splits)
  qed
qed

lemma search_key_chunks_spec:
  assumes "hash_search search" and "good_key key len"
    and "ht_wf H {} d" and "c + n \<le> nchunks d"
    and "search_key_chunks search tbl db key len q start n c (t, d) = (r, (t', d'))"
  shows "same_table d d' \<and> id_of t' = id_of t
    \<and> (\<forall>c' s. r = Some (c', s) \<longrightarrow> is_key_at d db key c' s)
    \<and> (r = None \<and> readable (id_of t) d \<longrightarrow> absent_in d db key q start c (c + n))"
  using assms(3-)
proof (induction n arbitrary: c t d)
  case 0
  then show ?case by (auto simp: absent_in_def)
next
  case (Suc n)
  have c: "c < nchunks d" using Suc.prems by simp
  show ?case
  proof (cases "slots_occupied (chunk_at d c) = 0")
    case True
    then have rest: "search_key_chunks search tbl db key len q start n (Suc c) (t, d) = (r, (t', d'))"
      using Suc.prems(3) by simp
    have "slot_at d c s \<noteq> slot_id dist q" if "s < 14" for s dist
      using wf_empty_chunk [OF Suc.prems(1) c True that] by simp
    then have "absent_in d db key q start c (c + Suc n)"
      if "absent_in d db key q start (Suc c) (c + Suc n)"
      by (intro absent_in_step [OF that]) blast
    then show ?thesis
      using Suc.IH [OF Suc.prems(1) _ rest] Suc.prems(2) by simp
  next
    case False
    obtain ok t1 d1 where lk: "(if c \<noteq> start then chunk_read_lock tbl c (t, d) else (True, (t, d)))
        = (ok, (t1, d1))"
      by (metis prod.exhaust)
    have same: "same_table d d1" and tid: "id_of t1 = id_of t"
      using lk chunk_read_lock_same [OF _ c] by (auto split: if_splits)
    have rd: "ok \<and> readable (id_of t1) d1" if "readable (id_of t) d"
    proof (cases "c = start")
      case True
      then have "ok" and "d1 = d" using lk by auto
      with that tid show ?thesis by simp
    next
      case False
      then have "chunk_read_lock tbl c (t, d) = (ok, (t1, d1))" using lk by simp
      from chunk_read_lock_ok [OF that c this] tid show ?thesis by simp
    qed
    have wf1: "ht_wf H {} d1" and n1: "nchunks d1 = nchunks d"
      using same same_table_wf Suc.prems(1) same_table_nchunks by blast+
    have c1: "c < nchunks d1" using c n1 by simp
    let ?scan = "scan_slots (search_key_verdict d1 db key len c)
        (search (slot_id (of_nat (c - start)) q) (half_hashes (chunk_at d1 c))) 0"
    show ?thesis
    proof (cases "ok \<and> ?scan = None")
      case True
      then have rest: "search_key_chunks search tbl db key len q start n (Suc c) (t1, d1) = (r, (t', d'))"
        using Suc.prems(3) False lk by simp
      have ih: "same_table d1 d' \<and> id_of t' = id_of t1
        \<and> (\<forall>c' s. r = Some (c', s) \<longrightarrow> is_key_at d1 db key c' s)
        \<and> (r = None \<and> readable (id_of t1) d1 \<longrightarrow> absent_in d1 db key q start (Suc c) (Suc c + n))"
        using Suc.IH [OF wf1 _ rest] Suc.prems(2) n1 by simp
      have "absent_in d1 db key q start c (c + Suc n)"
        if "absent_in d1 db key q start (Suc c) (Suc c + n)"
      proof (rule absent_in_step)
        show "absent_in d1 db key q start (Suc c) (c + Suc n)" using that by simp
        show "kv_ident (kv_at d1 c s) \<noteq> (db, Some key)"
          if "s < 14" and "slot_at d1 c s = slot_id (of_nat (c - start)) q" for s
          using search_key_scan(2) [OF assms(1) wf1 assms(2) c1 conjunct2 [OF True] that] .
      qed
      then have "r = None \<and> readable (id_of t) d \<longrightarrow> absent_in d db key q start c (c + Suc n)"
        using ih rd absent_in_same [OF same Suc.prems(2)] by blast
      then show ?thesis
        using ih same_table_trans [OF same] is_key_at_same [OF same] tid by simp
    next
      case fin: False
      then have res: "(t', d') = (t1, d1) \<and> (r = None \<and> \<not> ok \<or> (\<exists>s. r = Some (c, s) \<and> ?scan = Some s))"
        using Suc.prems(3) False lk by (cases ok; cases ?scan) simp_all
      then have "\<forall>c' s. r = Some (c', s) \<longrightarrow> is_key_at d1 db key c' s"
        using search_key_scan(1) [OF assms(1) wf1 assms(2) c1] by auto
      then show ?thesis
        using res same tid rd is_key_at_same [OF same] by auto
    qed
  qed
qed

section \<open>Slots and the map\<close>

lemma is_key_at_live:
  "ht_wf H pend d \<Longrightarrow> is_key_at d db key c s \<Longrightarrow> (c, s) \<notin> pend"
  using wf_slot_ok [of H pend d c s]
  by (auto simp: is_key_at_def slot_ok_def kv_ident_def kv_free_def split: if_splits)

lemma is_key_at_placed:
  assumes "ht_wf H pend d" and "is_key_at d db key c s"
  shows "placed d (H db key) c (slot_at d c s)"
  using wf_slot_ok [OF assms(1), of c s] is_key_at_live [OF assms] assms(2)
  by (auto simp: is_key_at_def slot_ok_def kv_ident_def)

lemma is_key_at_has_ident:
  assumes wf: "ht_wf H pend d" and c: "c < nchunks d" and s: "s < 14"
  shows "has_ident (keys_values d) (HASHTABLE_TO_BUCKET_INDEX c s) (db, Some key)
    \<longleftrightarrow> is_key_at d db key c s"
proof
  assume "has_ident (keys_values d) (HASHTABLE_TO_BUCKET_INDEX c s) (db, Some key)"
  then have "kv_filled (kv_at d c s)" and id: "kv_ident (kv_at d c s) = (db, Some key)"
    by (simp_all add: kv_at_has_ident [OF wf_shape [OF wf] c s])
  then have "slot_at d c s \<noteq> 0"
    using wf_slot_ok [OF wf c s] free_not_filled by (auto simp: slot_ok_def)
  with id c s show "is_key_at d db key c s" by (simp add: is_key_at_def)
next
  assume *: "is_key_at d db key c s"
  then have "kv_live (kv_at d c s)"
    using wf_live [OF wf c s] is_key_at_live [OF wf *] by (simp add: is_key_at_def)
  with * show "has_ident (keys_values d) (HASHTABLE_TO_BUCKET_INDEX c s) (db, Some key)"
    by (simp add: kv_at_has_ident [OF wf_shape [OF wf] c s] is_key_at_def kv_live_def)
qed

lemma ht_map_None_iff:
  assumes wf: "ht_wf H pend d"
  shows "ht_map d (db, key) = None \<longleftrightarrow> (\<forall>c s. \<not> is_key_at d db key c s)"
proof -
  have "(\<exists>b. has_ident (keys_values d) b (db, Some key)) \<longleftrightarrow> (\<exists>c s. is_key_at d db key c s)"
  proof
    assume "\<exists>b. has_ident (keys_values d) b (db, Some key)"
    then obtain b where b: "has_ident (keys_values d) b (db, Some key)" by blast
    then have "b < 14 * nchunks d" using wf_shape [OF wf] by (auto simp: has_ident_def table_shape_def)
    from bucket_index_split [OF this] b show "\<exists>c s. is_key_at d db key c s"
      by (metis is_key_at_has_ident [OF wf])
  next
    assume "\<exists>c s. is_key_at d db key c s"
    then show "\<exists>b. has_ident (keys_values d) b (db, Some key)"
      by (metis is_key_at_has_ident [OF wf] is_key_at_def)
  qed
  then show ?thesis by (simp add: ht_map_def kv_map_None) blast
qed

lemma ht_map_at:
  assumes wf: "ht_wf H pend d" and at: "is_key_at d db key c s"
  shows "ht_map d (db, key) = Some (kv_data (kv_at d c s))"
proof -
  have "has_ident (keys_values d) (HASHTABLE_TO_BUCKET_INDEX c s) (db, Some key)"
    using is_key_at_has_ident [OF wf, of c s] at by (simp add: is_key_at_def)
  then show ?thesis
    unfolding ht_map_def prod.case kv_map_Some [OF wf_unique [OF wf]] kv_at_def by blast
qed

lemma absent_in_None:
  assumes wf: "ht_wf H pend d"
    and abs: "absent_in d db key (quarter_of (H db key)) (home_chunk d (H db key)) (home_chunk d (H db key))
      (Suc (home_chunk d (H db key)
        + unat (overflowed_chunks_counter (chunk_at d (home_chunk d (H db key))))))"
  shows "ht_map d (db, key) = None"
  unfolding ht_map_None_iff [OF wf]
proof (intro allI notI)
  fix c s
  assume at: "is_key_at d db key c s"
  from is_key_at_placed [OF wf at] abs at show False
    by (auto simp: placed_def Let_def absent_in_def is_key_at_def)
qed

lemma search_key_spec:
  assumes hs: "hash_search search" and key: "good_key key len" and wf: "ht_wf H {} d"
    and run: "hashtable_mcmp_support_op_search_key search tbl db key len (H db key) (t, d) = (r, (t', d'))"
  shows "same_table d d' \<and> id_of t' = id_of t
    \<and> (\<forall>c s. r = Some (c, s) \<longrightarrow> is_key_at d db key c s)
    \<and> (r = None \<and> readable (id_of t) d \<longrightarrow> ht_map d (db, key) = None)"
proof -
  let ?start = "home_chunk d (H db key)"
  let ?ov = "unat (overflowed_chunks_counter (chunk_at d ?start))"
  have start: "?start < nchunks d" using home_chunk_less [OF wf_shape [OF wf], of "H db key"] by simp
  have ov: "?start + Suc ?ov \<le> nchunks d"
    using home_chunk_less [OF wf_shape [OF wf], of "H db key"] wf_chunk_ok [OF wf start]
    by (simp add: chunk_ok_def)
  obtain ok t1 d1 where lk: "chunk_read_lock tbl ?start (t, d) = (ok, (t1, d1))" by (metis prod.exhaust)
  have same: "same_table d d1" and tid: "id_of t1 = id_of t"
    using chunk_read_lock_same [OF lk start] by auto
  have wf1: "ht_wf H {} d1" and n1: "nchunks d1 = nchunks d"
    using same_table_wf [OF same wf] same_table_nchunks [OF same] by auto
  have rd: "readable (id_of t) d \<Longrightarrow> ok \<and> readable (id_of t1) d1"
    using chunk_read_lock_ok [OF _ start lk] tid by simp
  show ?thesis
  proof (cases ok)
    case False
    then show ?thesis
      using run lk same tid rd by (auto simp: hashtable_mcmp_support_op_search_key_def Let_def)
  next
    case True
    then have loop: "search_key_chunks search tbl db key len (quarter_of (H db key)) ?start (Suc ?ov)
        ?start (t1, d1) = (r, (t', d'))"
      using run lk same_table_meta(1) [OF same start]
      by (simp add: hashtable_mcmp_support_op_search_key_def Let_def del: search_key_chunks.simps)
    have "?start + Suc ?ov \<le> nchunks d1" using ov n1 by simp
    note res = search_key_chunks_spec [OF hs key wf1 this loop]
    have "absent_in d1 db key (quarter_of (H db key)) ?start ?start (?start + Suc ?ov)
        \<Longrightarrow> ht_map d (db, key) = None"
      using absent_in_same [OF same ov] absent_in_None [OF wf] by simp
    then show ?thesis
      using res rd tid same_table_trans [OF same] is_key_at_same [OF same] by auto
  qed
qed

end
