(* ===== verification/Mcmp_Create.thy ===== *)
theory Mcmp_Create
  imports Mcmp_Find
begin

text \<open>
  What \<open>hashtable_mcmp_support_op_search_key_or_create_new\<close> does to a table that satisfies the
  invariant: it finds the bucket of the key, or it reserves a free slot in the 32 chunks that
  follow the home of the hash, or it fails because a lock was refused or those chunks are full.
\<close>

section \<open>Locking\<close>

lemma soc_lock_spec:
  assumes "soc_lock tbl c s = (ok, s1)" and "soc_st s = (t, d)" and "c < nchunks d"
  shows "\<exists>t1 d1. soc_st s1 = (t1, d1) \<and> same_table d d1 \<and> id_of t1 = id_of t
    \<and> found_chunk_with_freespace s1 = found_chunk_with_freespace s
    \<and> chunk_first_with_freespace s1 = chunk_first_with_freespace s
    \<and> (writable (id_of t) d \<longrightarrow> ok \<and> writable (id_of t1) d1)"
proof (cases "c > locked_up_to_chunk_index s")
  case True
  obtain ok' t1 d1 where lk: "chunk_write_lock tbl c (t, d) = (ok', (t1, d1))" by (metis prod.exhaust)
  with True assms have "ok = ok'" "s1 = s\<lparr>soc_st := (t1, d1), locked_up_to_chunk_index := c\<rparr>"
    by (simp_all add: soc_lock_def)
  then show ?thesis
    using chunk_write_lock_same [OF lk assms(3)] chunk_write_lock_ok [OF _ assms(3) lk] by auto
next
  case False
  with assms show ?thesis by (auto simp: soc_lock_def)
qed

section \<open>The search pass\<close>

lemma soc_scan:
  fixes db :: u32 and dist :: u8 and q :: u16
  assumes hs: "hash_search search" and wf: "ht_wf H pend d" and key: "good_key key len"
    and c: "c < nchunks d"
  defines "r \<equiv> scan_slots (soc_verdict d db key len c)
      (search (slot_id dist q) (half_hashes (chunk_at d c))) 0"
  shows "r = Some s \<Longrightarrow> is_key_at d db key c s \<and> slot_at d c s = slot_id dist q"
    and "r = None \<Longrightarrow> s < 14 \<Longrightarrow> slot_at d c s = slot_id dist q
      \<Longrightarrow> kv_ident (kv_at d c s) \<noteq> (db, Some key)"
proof -
  let ?open = "open_slots (search (slot_id dist q) (half_hashes (chunk_at d c))) 0"
  have op: "?open = {s. s < 14 \<and> slot_at d c s = slot_id dist q}"
    by (rule open_slots_search [OF hs shape_slots [OF wf_shape [OF wf] c]])
  have v: "soc_verdict d db key len c s
      = (if kv_ident (kv_at d c s) = (db, Some key) then Slot_found else Slot_continue)"
    if s: "s \<in> ?open" for s
  proof (cases "(c, s) \<in> pend")
    case True
    then have "kv_free (kv_at d c s)"
      using wf_slot_ok [OF wf c, of s] s by (simp add: op slot_ok_def)
    then show ?thesis
      using soc_verdict_free [OF _ key] by (simp add: kv_ident_def kv_free_def)
  next
    case False
    then show ?thesis
      using s wf_live [OF wf c, of s] soc_verdict_live [OF _ key] by (simp add: op)
  qed
  show "is_key_at d db key c s \<and> slot_at d c s = slot_id dist q" if "r = Some s"
    using scan_slots_found [OF that [unfolded r_def]] v [of s] c
    by (auto simp: is_key_at_def op split: if_splits)
  show "kv_ident (kv_at d c s) \<noteq> (db, Some key)"
    if "r = None" and "s < 14" and "slot_at d c s = slot_id dist q"
  proof -
    have s: "s \<in> ?open" using that by (simp add: op)
    have "\<forall>i\<in>?open. soc_verdict d db key len c i \<noteq> Slot_stop" using v by simp
    then have "soc_verdict d db key len c s = Slot_continue"
      using scan_slots_none [OF that(1) [unfolded r_def]] s by blast
    then show ?thesis using v [OF s] by (simp split: if_splits)
  qed
qed

text \<open>What the pass knows of the free space in the chunks from \<open>start\<close> up to \<open>c\<close>.\<close>

definition free_seen :: "nat \<Rightarrow> nat \<Rightarrow> soc_state \<Rightarrow> hashtable_data \<Rightarrow> bool" where
  "free_seen start c s d \<longleftrightarrow>
     (if found_chunk_with_freespace s
      then start \<le> chunk_first_with_freespace s \<and> chunk_first_with_freespace s < c
      else c = start \<or> start \<le> chunk_first_with_freespace s \<and> Suc (chunk_first_with_freespace s) = c)
     \<and> (\<forall>x. start \<le> x
          \<and> x < (if found_chunk_with_freespace s then chunk_first_with_freespace s else c)
          \<longrightarrow> is_full (chunk_at d x))"

lemma soc_freespace_st [simp]: "soc_st (soc_freespace c s) = soc_st s"
  by (simp add: soc_freespace_def)

lemma free_seen_step:
  assumes "free_seen start c s d" and "start \<le> c" and "snd (soc_st s) = d"
  shows "free_seen start (Suc c) (soc_freespace c s) d"
  using assms by (auto simp: free_seen_def soc_freespace_def less_Suc_eq)

lemma free_seen_same:
  assumes "free_seen start c s d" and same: "same_table d d1" and "c \<le> nchunks d"
    and "found_chunk_with_freespace s1 = found_chunk_with_freespace s"
    and "chunk_first_with_freespace s1 = chunk_first_with_freespace s"
  shows "free_seen start c s1 d1"
proof -
  have "is_full (chunk_at d1 x) \<longleftrightarrow> is_full (chunk_at d x)" if "x < c" for x
    using same_table_meta(3) [OF same, of x] that assms(3) by simp
  then show ?thesis using assms(1,4,5) by (auto simp: free_seen_def split: if_splits)
qed

definition soc_search_post ::
    "u32 \<Rightarrow> bytes \<Rightarrow> u16 \<Rightarrow> nat \<Rightarrow> nat \<Rightarrow> nat \<Rightarrow> ht_state \<Rightarrow> soc_result \<Rightarrow> soc_state \<Rightarrow> bool" where
  "soc_search_post db key q start lo hi st r s' \<longleftrightarrow>
     (let (t, d) = st in \<exists>t' d' d1. soc_st s' = (t', d') \<and> id_of t' = id_of t \<and> same_table d d1
        \<and> (writable (id_of t) d \<longrightarrow> writable (id_of t') d1)
        \<and> (case r of
             Soc_lock_failed \<Rightarrow> d' = d1 \<and> \<not> writable (id_of t) d
           | Soc_not_found \<Rightarrow> d' = d1 \<and> absent_in d db key q start lo hi \<and> free_seen start hi s' d
           | Soc_found c s \<Rightarrow>
               is_key_at d db key c s \<and> slot_at d c s = slot_id (of_nat (c - start)) q
               \<and> d' = soc_update_overflowed start c d1))"

text \<open>The pass after one more chunk, from the pass over the rest of the chunks.\<close>

lemma soc_search_post_back:
  assumes post: "soc_search_post db key q start (Suc c) hi (t1, d1) r s'"
    and same: "same_table d d1" and tid: "id_of t1 = id_of t"
    and wr: "writable (id_of t) d \<Longrightarrow> writable (id_of t1) d1"
    and hi: "hi \<le> nchunks d"
    and here: "\<And>s. s < 14 \<Longrightarrow> slot_at d1 c s = slot_id (of_nat (c - start)) q
      \<Longrightarrow> kv_ident (kv_at d1 c s) \<noteq> (db, Some key)"
  shows "soc_search_post db key q start c hi (t, d) r s'"
proof -
  obtain t' d' e where st': "soc_st s' = (t', d')" "id_of t' = id_of t1" and e: "same_table d1 e"
    and w: "writable (id_of t1) d1 \<longrightarrow> writable (id_of t') e"
    and res: "case r of
        Soc_lock_failed \<Rightarrow> d' = e \<and> \<not> writable (id_of t1) d1
      | Soc_not_found \<Rightarrow> d' = e \<and> absent_in d1 db key q start (Suc c) hi \<and> free_seen start hi s' d1
      | Soc_found c s \<Rightarrow> is_key_at d1 db key c s \<and> slot_at d1 c s = slot_id (of_nat (c - start)) q
          \<and> d' = soc_update_overflowed start c e"
    using post by (auto simp: soc_search_post_def)
  have abs: "absent_in d db key q start c hi" if "absent_in d1 db key q start (Suc c) hi"
    using absent_in_step [OF that here] absent_in_same [OF same hi] by simp
  have rev: "same_table d1 d" using same by (simp add: same_table_def)
  have fr: "free_seen start hi s' d" if "free_seen start hi s' d1"
    by (rule free_seen_same [OF that rev]) (use hi same_table_nchunks [OF same] in auto)
  have slot: "slot_at d1 c' s = slot_at d c' s" if "is_key_at d1 db key c' s" for c' s
    using that same_table_at(1) [OF same, of c'] is_key_at_same [OF same] by (simp add: is_key_at_def)
  show ?thesis
    unfolding soc_search_post_def prod.case Let_def
  proof (intro exI conjI)
    show "soc_st s' = (t', d')" "id_of t' = id_of t" "same_table d e"
      "writable (id_of t) d \<longrightarrow> writable (id_of t') e"
      using st' tid same_table_trans [OF same e] w wr by auto
    show "case r of
        Soc_lock_failed \<Rightarrow> d' = e \<and> \<not> writable (id_of t) d
      | Soc_not_found \<Rightarrow> d' = e \<and> absent_in d db key q start c hi \<and> free_seen start hi s' d
      | Soc_found c s \<Rightarrow> is_key_at d db key c s \<and> slot_at d c s = slot_id (of_nat (c - start)) q
          \<and> d' = soc_update_overflowed start c e"
      using res abs fr slot wr is_key_at_same [OF same] by (cases r) auto
  qed
qed

lemma soc_search_spec:
  assumes hs: "hash_search search" and key: "good_key key len"
  shows "ht_wf H pend d \<Longrightarrow> soc_st s = (t, d) \<Longrightarrow> start \<le> c \<Longrightarrow> c + n \<le> nchunks d
    \<Longrightarrow> free_seen start c s d
    \<Longrightarrow> soc_search search tbl db key len q start n c s = (r, s')
    \<Longrightarrow> soc_search_post db key q start c (c + n) (t, d) r s'"
proof (induction n arbitrary: c s t d)
  case 0
  then show ?case by (auto simp: soc_search_post_def absent_in_def)
next
  case (Suc n)
  have c: "c < nchunks d" using Suc.prems by simp
  obtain ok s1 where lk: "soc_lock tbl c s = (ok, s1)" by (metis prod.exhaust)
  then obtain t1 d1 where s1: "soc_st s1 = (t1, d1)" and same: "same_table d d1"
    and tid: "id_of t1 = id_of t" and fs: "found_chunk_with_freespace s1 = found_chunk_with_freespace s"
      "chunk_first_with_freespace s1 = chunk_first_with_freespace s"
    and wr: "writable (id_of t) d \<longrightarrow> ok \<and> writable (id_of t1) d1"
    using soc_lock_spec [OF lk Suc.prems(2) c] by blast
  let ?s2 = "soc_freespace c s1"
  have wf1: "ht_wf H pend d1" and c1: "c < nchunks d1" and n1: "c + Suc n \<le> nchunks d1"
    using same_table_wf [OF same Suc.prems(1)] same_table_nchunks [OF same] c Suc.prems(4) by auto
  have fs2: "free_seen start (Suc c) ?s2 d1"
    using free_seen_step [OF free_seen_same [OF Suc.prems(5) same _ fs] Suc.prems(3)] s1 c by simp
  let ?scan = "scan_slots (soc_verdict d1 db key len c)
      (search (slot_id (of_nat (c - start)) q) (half_hashes (chunk_at d1 c))) 0"
  note run = Suc.prems(6)
  consider (failed) "\<not> ok" | (skip) "ok" "slots_occupied (chunk_at d1 c) = 0 \<or> ?scan = None"
    | (found) sl where "ok" "slots_occupied (chunk_at d1 c) \<noteq> 0" "?scan = Some sl"
    by fastforce
  then show ?case
  proof cases
    case failed
    then have "r = Soc_lock_failed" "s' = s1" using run lk by auto
    then show ?thesis using failed wr s1 same tid by (auto simp: soc_search_post_def)
  next
    case skip
    then have rest: "soc_search search tbl db key len q start n (Suc c) ?s2 = (r, s')"
      using run lk s1 by (auto simp: Let_def split: if_splits)
    have "kv_ident (kv_at d1 c s) \<noteq> (db, Some key)"
      if "s < 14" and "slot_at d1 c s = slot_id (of_nat (c - start)) q" for s
      using skip(2) wf_empty_chunk [OF wf1 c1 _ that(1)] that soc_scan(2) [OF hs wf1 key c1 _ that] by auto
    moreover have "soc_search_post db key q start (Suc c) (c + Suc n) (t1, d1) r s'"
      using Suc.IH [OF wf1 _ _ _ fs2 rest, of t1] s1 Suc.prems(3) n1 by simp
    ultimately show ?thesis
      using soc_search_post_back [OF _ same tid _ Suc.prems(4)] wr by blast
  next
    case found
    then have res: "r = Soc_found c sl"
      "s' = ?s2\<lparr>soc_st := (t1, soc_update_overflowed start c d1)\<rparr>"
      using run lk s1 by (auto simp: Let_def)
    have "is_key_at d1 db key c sl \<and> slot_at d1 c sl = slot_id (of_nat (c - start)) q"
      by (rule soc_scan(1) [OF hs wf1 key c1 found(3)])
    then have "is_key_at d db key c sl" "slot_at d c sl = slot_id (of_nat (c - start)) q"
      using is_key_at_same [OF same] same_table_at(1) [OF same c] by auto
    then show ?thesis using res same tid wr by (auto simp: soc_search_post_def)
  qed
qed

section \<open>The creation pass\<close>

lemma upd_chunk_full_similar:
  assumes "c < nchunks d" and "0 \<notin> set (half_hashes (chunk_at d c))"
  shows "similar d (upd_chunk c (set_is_full True) d)"
  using assms by (auto simp: similar_def chunk_at_upd_chunk)

lemma upd_chunk_writable:
  assumes "writable tid d" and "c < nchunks d"
    and "transaction_id (chunk_lock (f (chunk_at d c))) = transaction_id (chunk_lock (chunk_at d c))"
    and "readers_count (chunk_lock (f (chunk_at d c))) = readers_count (chunk_lock (chunk_at d c))"
  shows "writable tid (upd_chunk c f d)"
  using assms by (auto simp: writable_def chunk_at_upd_chunk)

lemma soc_create_scan:
  assumes hs: "hash_search search" and len: "length ws = 14"
  shows "scan_slots (\<lambda>_. Slot_found) (search 0 ws) 0 = Some s \<Longrightarrow> s < 14 \<and> ws ! s = 0"
    and "scan_slots (\<lambda>_. Slot_found) (search 0 ws) 0 = None \<Longrightarrow> 0 \<notin> set ws"
proof -
  note op = open_slots_search [OF assms, of 0]
  show "s < 14 \<and> ws ! s = 0" if "scan_slots (\<lambda>_. Slot_found) (search 0 ws) 0 = Some s"
    using scan_slots_found [OF that] by (simp add: op)
  show "0 \<notin> set ws" if none: "scan_slots (\<lambda>_. Slot_found) (search 0 ws) 0 = None"
  proof
    assume "0 \<in> set ws"
    then obtain s where "s < 14" "ws ! s = 0" using len by (auto simp: in_set_conv_nth)
    then show False using scan_slots_none [OF none] by (auto simp: op)
  qed
qed

definition soc_create_post ::
    "u16 \<Rightarrow> nat \<Rightarrow> nat \<Rightarrow> nat \<Rightarrow> ht_state \<Rightarrow> soc_result \<Rightarrow> soc_state \<Rightarrow> bool" where
  "soc_create_post q start lo hi st r s' \<longleftrightarrow>
     (let (t, d) = st in \<exists>t' d' d1. soc_st s' = (t', d') \<and> id_of t' = id_of t \<and> similar d d1
        \<and> (case r of
             Soc_lock_failed \<Rightarrow> d' = d1 \<and> \<not> writable (id_of t) d
           | Soc_not_found \<Rightarrow> d' = d1 \<and> (\<forall>x. lo \<le> x \<and> x < hi \<longrightarrow> 0 \<notin> set (half_hashes (chunk_at d x)))
           | Soc_found c s \<Rightarrow>
               lo \<le> c \<and> c < hi \<and> s < 14 \<and> slot_at d c s = 0
               \<and> d' = soc_update_overflowed start c
                        (upd_chunk c (occupy_slot s (slot_id (of_nat (c - start)) q)) d1)))"

lemma soc_create_post_back:
  assumes post: "soc_create_post q start (Suc c) hi (t1, d1) r s'" and sim: "similar d d1"
    and tid: "id_of t1 = id_of t" and wr: "writable (id_of t) d \<Longrightarrow> writable (id_of t1) d1"
    and hi: "c < hi" "hi \<le> nchunks d" and here: "0 \<notin> set (half_hashes (chunk_at d c))"
  shows "soc_create_post q start c hi (t, d) r s'"
proof -
  obtain t' d' e where st': "soc_st s' = (t', d')" "id_of t' = id_of t1" and e: "similar d1 e"
    and res: "case r of
             Soc_lock_failed \<Rightarrow> d' = e \<and> \<not> writable (id_of t1) d1
           | Soc_not_found \<Rightarrow> d' = e \<and> (\<forall>x. Suc c \<le> x \<and> x < hi \<longrightarrow> 0 \<notin> set (half_hashes (chunk_at d1 x)))
           | Soc_found c' s \<Rightarrow>
               Suc c \<le> c' \<and> c' < hi \<and> s < 14 \<and> slot_at d1 c' s = 0
               \<and> d' = soc_update_overflowed start c'
                        (upd_chunk c' (occupy_slot s (slot_id (of_nat (c' - start)) q)) e)"
    using post by (auto simp: soc_create_post_def)
  have hh: "half_hashes (chunk_at d1 x) = half_hashes (chunk_at d x)" if "x < hi" for x
    using similar_at(1) [OF sim, of x] that hi by simp
  have "\<forall>x. c \<le> x \<and> x < hi \<longrightarrow> 0 \<notin> set (half_hashes (chunk_at d x))" if "r = Soc_not_found"
  proof (intro allI impI)
    fix x
    assume x: "c \<le> x \<and> x < hi"
    then have "x = c \<or> Suc c \<le> x" by auto
    with x show "0 \<notin> set (half_hashes (chunk_at d x))"
      using res that here hh [of x] by auto
  qed
  then have "case r of
             Soc_lock_failed \<Rightarrow> d' = e \<and> \<not> writable (id_of t) d
           | Soc_not_found \<Rightarrow> d' = e \<and> (\<forall>x. c \<le> x \<and> x < hi \<longrightarrow> 0 \<notin> set (half_hashes (chunk_at d x)))
           | Soc_found c' s \<Rightarrow>
               c \<le> c' \<and> c' < hi \<and> s < 14 \<and> slot_at d c' s = 0
               \<and> d' = soc_update_overflowed start c'
                        (upd_chunk c' (occupy_slot s (slot_id (of_nat (c' - start)) q)) e)"
    using res wr hh by (cases r) auto
  moreover have "similar d e" by (rule similar_trans [OF sim e])
  ultimately show ?thesis
    using st' tid by (auto simp: soc_create_post_def)
qed

lemma soc_create_spec:
  assumes hs: "hash_search search"
  shows "table_shape d \<Longrightarrow> soc_st s = (t, d) \<Longrightarrow> c + n \<le> nchunks d
    \<Longrightarrow> soc_create search tbl q start n c s = (r, s')
    \<Longrightarrow> soc_create_post q start c (c + n) (t, d) r s'"
proof (induction n arbitrary: c s t d)
  case 0
  then show ?case by (auto simp: soc_create_post_def)
next
  case (Suc n)
  have c: "c < nchunks d" using Suc.prems by simp
  obtain ok s1 where lk: "soc_lock tbl c s = (ok, s1)" by (metis prod.exhaust)
  then obtain t1 d1 where s1: "soc_st s1 = (t1, d1)" and same: "same_table d d1"
    and tid: "id_of t1 = id_of t" and wr: "writable (id_of t) d \<longrightarrow> ok \<and> writable (id_of t1) d1"
    using soc_lock_spec [OF lk Suc.prems(2) c] by blast
  have sh1: "table_shape d1" and n1: "nchunks d1 = nchunks d" and c1: "c < nchunks d1"
    using same_table_shape [OF same Suc.prems(1)] same_table_nchunks [OF same] c by auto
  have hh: "half_hashes (chunk_at d1 c) = half_hashes (chunk_at d c)" by (rule same_table_at(1) [OF same c])
  let ?scan = "scan_slots (\<lambda>_. Slot_found) (search 0 (half_hashes (chunk_at d1 c))) 0"
  note scan = soc_create_scan [OF hs shape_slots [OF sh1 c1]]
  note run = Suc.prems(4)
  consider (failed) "\<not> ok" | (full) "ok" "?scan = None" | (found) sl where "ok" "?scan = Some sl"
    by fastforce
  then show ?case
  proof cases
    case failed
    then have "r = Soc_lock_failed" "s' = s1" using run lk by auto
    then show ?thesis
      using failed wr s1 same_table_similar [OF same] tid by (auto simp: soc_create_post_def)
  next
    case full
    let ?d2 = "upd_chunk c (set_is_full True) d1"
    have rest: "soc_create search tbl q start n (Suc c) (s1\<lparr>soc_st := (t1, ?d2)\<rparr>) = (r, s')"
      using run lk s1 full by (auto simp: Let_def)
    have nz: "0 \<notin> set (half_hashes (chunk_at d1 c))" by (rule scan(2) [OF full(2)])
    have "similar d1 ?d2" by (rule upd_chunk_full_similar [OF c1 nz])
    then have sim: "similar d ?d2" by (rule similar_trans [OF same_table_similar [OF same]])
    have "table_shape ?d2"
      using sh1 c1 by (auto simp: table_shape_def chunk_at_upd_chunk)
    then have "soc_create_post q start (Suc c) (c + Suc n) (t1, ?d2) r s'"
      using Suc.IH [OF _ _ _ rest, of ?d2 t1] Suc.prems(3) n1 by simp
    moreover have "writable (id_of t) d \<Longrightarrow> writable (id_of t1) ?d2"
      using wr upd_chunk_writable [OF _ c1, of "id_of t1" "set_is_full True"] by simp
    ultimately show ?thesis
      using soc_create_post_back [OF _ sim tid _ _ Suc.prems(3)] nz hh by simp
  next
    case found
    then have res: "r = Soc_found c sl"
      "s' = s1\<lparr>soc_st := (t1, soc_update_overflowed start c
         (upd_chunk c (occupy_slot sl (slot_id (of_nat (c - start)) q)) d1))\<rparr>"
      using run lk s1 by (auto simp: Let_def)
    then show ?thesis
      using scan(1) [OF found(2)] hh same_table_similar [OF same] tid by (auto simp: soc_create_post_def)
  qed
qed

section \<open>Both passes\<close>

text \<open>The overflow counter of the home already covers the chunk of a key it holds.\<close>

lemma update_overflowed_noop:
  assumes "start < nchunks d" and "c - start \<le> unat (overflowed_chunks_counter (chunk_at d start))"
  shows "similar d (soc_update_overflowed start c d)"
proof -
  let ?cur = "overflowed_chunks_counter (chunk_at d start)"
  have "c - start < 256" using assms(2) unsigned_less [of ?cur, where 'a = nat] by simp
  then have "unat (of_nat (c - start) :: u8) = c - start"
    by (intro unat_of_nat_small) simp
  then have "max (of_nat (c - start)) ?cur = ?cur"
    using assms(2) by (simp add: max_absorb2 word_le_nat_alt)
  then show ?thesis
    using assms(1)
    by (auto simp: soc_update_overflowed_def Let_def similar_def chunk_at_upd_chunk)
qed

lemma occupied_slot_wf:
  assumes wf: "ht_wf H pend d" and start: "start = home_chunk d hash"
    and c: "start \<le> c" "c < start + 32" and s: "s < 14" "slot_at d c s = 0"
  defines "w \<equiv> slot_id (of_nat (c - start)) (quarter_of hash)"
  defines "d' \<equiv> soc_update_overflowed start c (upd_chunk c (occupy_slot s w) d)"
  shows "ht_wf H (insert (c, s) pend) d'" and "(c, s) \<notin> pend" and "c < nchunks d'"
    and "keys_values d' = keys_values d" and "placed d' hash c (slot_at d' c s)"
proof -
  let ?d = "upd_chunk c (occupy_slot s w) d"
  let ?cur = "overflowed_chunks_counter (chunk_at ?d start)"
  let ?v = "max (of_nat (c - start)) ?cur"
  have n: "start + 32 < nchunks d" using home_chunk_less [OF wf_shape [OF wf], of hash] start by simp
  then have cn: "c < nchunks d" "start < nchunks ?d" using c by auto
  note occ = occupy_slot_ok [OF wf_chunk_ok [OF wf cn(1)] shape_slots [OF wf_shape [OF wf] cn(1)] s]
  have wf1: "ht_wf H (insert (c, s) pend) ?d"
    using wf_occupy [OF wf cn(1) s, of w] by (simp add: w_def)
  show "(c, s) \<notin> pend" using wf_slot_ok [OF wf cn(1) s(1)] s(2) by (simp add: slot_ok_def)
  have new: "unat (of_nat (c - start) :: u8) = c - start"
    using c by (intro unat_of_nat_small) simp
  then have v: "unat ?v = max (c - start) (unat ?cur)"
    by (simp add: max_def word_le_nat_alt del: of_nat_diff)
  have "unat ?cur < 32" using wf_chunk_ok [OF wf1 cn(2)] by (simp add: chunk_ok_def)
  then have "ht_wf H (insert (c, s) pend) (upd_chunk start (set_overflowed_chunks_counter ?v) ?d)"
    using v c by (intro wf_set_overflowed [OF wf1 cn(2)]) auto
  moreover have d': "d' = upd_chunk start (set_overflowed_chunks_counter ?v) ?d"
    by (simp add: d'_def soc_update_overflowed_def Let_def)
  ultimately show "ht_wf H (insert (c, s) pend) d'" by simp
  show "c < nchunks d'" "keys_values d' = keys_values d" using cn by (simp_all add: d')
  have "half_hashes (chunk_at d' c) = half_hashes (chunk_at ?d c)"
    using cn by (simp add: d' chunk_at_upd_chunk)
  then have "slot_at d' c s = w"
    using cn occ(2) [of w] shape_slots [OF wf_shape [OF wf] cn(1)] s(1)
    by (simp add: chunk_at_upd_chunk w_def)
  moreover have "home_chunk d' hash = start" by (simp add: d' start)
  moreover have "overflowed_chunks_counter (chunk_at d' start) = ?v"
    using cn by (simp add: d' chunk_at_upd_chunk)
  ultimately show "placed d' hash c (slot_at d' c s)"
    using c v by (simp add: placed_def w_def)
qed

definition soc_post ::
    "(u32 \<Rightarrow> bytes \<Rightarrow> u64) \<Rightarrow> (nat \<times> nat) set \<Rightarrow> u32 \<Rightarrow> bytes \<Rightarrow> ht_state
      \<Rightarrow> (nat \<times> nat \<times> bool) option \<Rightarrow> ht_state \<Rightarrow> bool" where
  "soc_post H pend db key st r st' \<longleftrightarrow>
     (let (t, d) = st; (t', d') = st' in id_of t' = id_of t
        \<and> (case r of
             None \<Rightarrow>
               similar d d'
               \<and> (writable (id_of t) d \<longrightarrow> ht_map d (db, key) = None
                    \<and> (\<forall>x. home_chunk d (H db key) \<le> x \<and> x < home_chunk d (H db key) + 32
                         \<longrightarrow> 0 \<notin> set (half_hashes (chunk_at d x))))
           | Some (c, s, created_new) \<Rightarrow>
               if created_new
               then ht_map d (db, key) = None \<and> ht_wf H (insert (c, s) pend) d' \<and> (c, s) \<notin> pend
                 \<and> c < nchunks d' \<and> s < 14 \<and> keys_values d' = keys_values d
                 \<and> placed d' (H db key) c (slot_at d' c s)
               else similar d d' \<and> is_key_at d db key c s))"

lemma soc_post_search:
  assumes wf: "ht_wf H pend d"
    and post: "soc_search_post db key (quarter_of (H db key)) (home_chunk d (H db key)) (home_chunk d (H db key)) hi
      (t, d) r s'"
    and r: "r \<noteq> Soc_not_found"
  shows "soc_post H pend db key (t, d)
    (case r of Soc_found c s \<Rightarrow> Some (c, s, False) | _ \<Rightarrow> None) (soc_st s')"
proof -
  let ?start = "home_chunk d (H db key)"
  obtain t' d' d1 where st': "soc_st s' = (t', d')" "id_of t' = id_of t" and same: "same_table d d1"
    and res: "case r of
        Soc_lock_failed \<Rightarrow> d' = d1 \<and> \<not> writable (id_of t) d
      | Soc_not_found \<Rightarrow> True
      | Soc_found c s \<Rightarrow> is_key_at d db key c s \<and> d' = soc_update_overflowed ?start c d1"
    using post r by (cases r) (auto simp: soc_search_post_def)
  have start: "?start < nchunks d" using home_chunk_less [OF wf_shape [OF wf], of "H db key"] by simp
  have "similar d d'" if f: "r = Soc_found c s" for c s
  proof -
    have "c - ?start \<le> unat (overflowed_chunks_counter (chunk_at d ?start))"
      using is_key_at_placed [OF wf] res f by (auto simp: placed_def Let_def)
    then have "similar d1 (soc_update_overflowed ?start c d1)"
      using update_overflowed_noop [of ?start d1 c] same_table_meta(1) [OF same start]
        same_table_nchunks [OF same] start by simp
    then show ?thesis using similar_trans [OF same_table_similar [OF same]] res f by simp
  qed
  then show ?thesis
    using st' res r same_table_similar [OF same] by (cases r) (auto simp: soc_post_def)
qed

lemma soc_post_same:
  assumes "soc_post H pend db key (t1, d1) r st'" and same: "same_table d d1" and "id_of t1 = id_of t"
    and "writable (id_of t) d \<Longrightarrow> writable (id_of t1) d1" and shape: "table_shape d"
  shows "soc_post H pend db key (t, d) r st'"
proof -
  have hh: "half_hashes (chunk_at d1 x) = half_hashes (chunk_at d x)"
    if "x < home_chunk d (H db key) + 32" for x
    using same_table_at(1) [OF same, of x] that home_chunk_less [OF shape, of "H db key"] by simp
  have "similar d d'" if "similar d1 d'" for d'
    using similar_trans [OF same_table_similar [OF same] that] .
  then show ?thesis
    using assms hh is_key_at_same [OF same] same_table_home [OF same] same_table_map [OF same]
      same_table_kvs [OF same]
    by (cases st') (auto simp: soc_post_def split: option.splits if_splits)
qed

lemma soc_post_create:
  assumes hs: "hash_search search" and wf: "ht_wf H pend d"
    and post1: "soc_search_post db key (quarter_of (H db key)) (home_chunk d (H db key)) (home_chunk d (H db key))
      (Suc (home_chunk d (H db key)
        + unat (overflowed_chunks_counter (chunk_at d (home_chunk d (H db key))))))
      (t, d) Soc_not_found s1"
    and pass2: "soc_create search tbl (quarter_of (H db key)) (home_chunk d (H db key))
      (home_chunk d (H db key) + 32 - chunk_first_with_freespace s1) (chunk_first_with_freespace s1) s1 = (r, s2)"
  shows "soc_post H pend db key (t, d)
    (case r of Soc_found c s \<Rightarrow> Some (c, s, True) | _ \<Rightarrow> None) (soc_st s2)"
proof -
  let ?start = "home_chunk d (H db key)" and ?first = "chunk_first_with_freespace s1"
  have start: "?start + 32 < nchunks d" by (rule home_chunk_less [OF wf_shape [OF wf]])
  have ov: "unat (overflowed_chunks_counter (chunk_at d ?start)) < 32"
    using wf_chunk_ok [OF wf, of ?start] start by (simp add: chunk_ok_def)
  obtain t1 d1 where s1: "soc_st s1 = (t1, d1)" "id_of t1 = id_of t" and same: "same_table d d1"
    and wr: "writable (id_of t) d \<longrightarrow> writable (id_of t1) d1"
    and abs: "ht_map d (db, key) = None"
    and seen: "free_seen ?start (Suc (?start + unat (overflowed_chunks_counter (chunk_at d ?start)))) s1 d"
    using post1 absent_in_None [OF wf] by (auto simp: soc_search_post_def)
  have first: "?start \<le> ?first" "?first < ?start + 32"
    and full: "\<And>x. ?start \<le> x \<Longrightarrow> x < ?first \<Longrightarrow> is_full (chunk_at d x)"
    using seen ov by (auto simp: free_seen_def split: if_splits)
  have n1: "nchunks d1 = nchunks d" by (rule same_table_nchunks [OF same])
  have "soc_create_post (quarter_of (H db key)) ?start ?first (?start + 32) (t1, d1) r s2"
    using soc_create_spec [OF hs same_table_shape [OF same wf_shape [OF wf]] s1(1) _ pass2]
      first start n1 by simp
  then obtain t' d' d2 where st': "soc_st s2 = (t', d')" "id_of t' = id_of t1" and sim1: "similar d1 d2"
    and res: "case r of
             Soc_lock_failed \<Rightarrow> d' = d2 \<and> \<not> writable (id_of t1) d1
           | Soc_not_found \<Rightarrow> d' = d2
               \<and> (\<forall>x. ?first \<le> x \<and> x < ?start + 32 \<longrightarrow> 0 \<notin> set (half_hashes (chunk_at d1 x)))
           | Soc_found c s \<Rightarrow>
               ?first \<le> c \<and> c < ?start + 32 \<and> s < 14 \<and> slot_at d1 c s = 0
               \<and> d' = soc_update_overflowed ?start c
                        (upd_chunk c (occupy_slot s (slot_id (of_nat (c - ?start)) (quarter_of (H db key)))) d2)"
    by (auto simp: soc_create_post_def)
  have sim: "similar d d2" using similar_trans [OF same_table_similar [OF same] sim1] .
  have hh: "half_hashes (chunk_at d1 x) = half_hashes (chunk_at d x)" if "x < ?start + 32" for x
    using same_table_at(1) [OF same, of x] that start by simp
  show ?thesis
  proof (cases r)
    case Soc_lock_failed
    then show ?thesis using res st' s1 wr sim abs by (auto simp: soc_post_def)
  next
    case Soc_not_found
    have "0 \<notin> set (half_hashes (chunk_at d x))" if x: "?start \<le> x" "x < ?start + 32" for x
    proof (cases "x < ?first")
      case True
      then show ?thesis using full [OF x(1)] wf_chunk_ok [OF wf, of x] x start by (simp add: chunk_ok_def)
    next
      case False
      then have "?first \<le> x \<and> x < ?start + 32" using x by simp
      moreover have "\<forall>x. ?first \<le> x \<and> x < ?start + 32 \<longrightarrow> 0 \<notin> set (half_hashes (chunk_at d1 x))"
        using res Soc_not_found by simp
      ultimately show ?thesis using hh [OF x(2)] by metis
    qed
    then show ?thesis using Soc_not_found res st' s1 sim abs by (simp add: soc_post_def)
  next
    case (Soc_found c s)
    have "slot_at d2 c s = 0"
      using res Soc_found similar_at(1) [OF sim1, of c] n1 start by simp
    then show ?thesis
      using occupied_slot_wf [OF similar_wf [OF sim wf], of ?start "H db key" c s] res Soc_found st' s1
        first similar_home [OF sim] similar_kvs [OF sim] abs
      by (simp add: soc_post_def)
  qed
qed

lemma search_key_or_create_spec:
  assumes hs: "hash_search search" and key: "good_key key len" and wf: "ht_wf H pend d"
    and run: "hashtable_mcmp_support_op_search_key_or_create_new search tbl db key len (H db key) True
      (t, d) = (r, st')"
  shows "soc_post H pend db key (t, d) r st'"
proof -
  let ?start = "home_chunk d (H db key)" and ?q = "quarter_of (H db key)"
  let ?ov = "unat (overflowed_chunks_counter (chunk_at d ?start))"
  have start: "?start + 32 < nchunks d" by (rule home_chunk_less [OF wf_shape [OF wf]])
  then have sn: "?start < nchunks d" by simp
  have ov: "?ov < 32" using wf_chunk_ok [OF wf sn] by (simp add: chunk_ok_def)
  obtain ok t1 d1 where lk: "chunk_write_lock tbl ?start (t, d) = (ok, (t1, d1))" by (metis prod.exhaust)
  note same = chunk_write_lock_same [OF lk sn, THEN conjunct1]
    and tid = chunk_write_lock_same [OF lk sn, THEN conjunct2]
  have wr: "writable (id_of t) d \<Longrightarrow> ok \<and> writable (id_of t1) d1"
    using chunk_write_lock_ok [OF _ sn lk] tid by simp
  show ?thesis
  proof (cases ok)
    case False
    then show ?thesis
      using run lk wr same_table_similar [OF same] tid
      by (auto simp: hashtable_mcmp_support_op_search_key_or_create_new_def Let_def soc_post_def)
  next
    case True
    have wf1: "ht_wf H pend d1" and n1: "nchunks d1 = nchunks d" and home: "home_chunk d1 (H db key) = ?start"
      using same_table_wf [OF same wf] same_table_nchunks [OF same] same_table_home [OF same] by auto
    let ?s0 = "\<lparr>soc_st = (t1, d1), locked_up_to_chunk_index = ?start,
        found_chunk_with_freespace = False, chunk_first_with_freespace = 0\<rparr>"
    obtain r1 s1 where pass1: "soc_search search tbl db key len ?q ?start (Suc ?ov) ?start ?s0 = (r1, s1)"
      by (metis prod.exhaust)
    have post1: "soc_search_post db key ?q ?start ?start (?start + Suc ?ov) (t1, d1) r1 s1"
      by (rule soc_search_spec [OF hs key wf1 _ _ _ _ pass1])
        (use n1 start ov in \<open>auto simp: free_seen_def\<close>)
    have run': "(r, st') = (case r1 of
          Soc_lock_failed \<Rightarrow> (None, soc_st s1)
        | Soc_found c s \<Rightarrow> (Some (c, s, False), soc_st s1)
        | Soc_not_found \<Rightarrow>
            (let (r', s') = soc_create search tbl ?q ?start
                 (?start + 32 - chunk_first_with_freespace s1) (chunk_first_with_freespace s1) s1
             in case r' of Soc_found c s \<Rightarrow> (Some (c, s, True), soc_st s') | _ \<Rightarrow> (None, soc_st s')))"
      using run lk True pass1 same_table_meta(1) [OF same sn]
      by (cases r1)
        (simp_all add: hashtable_mcmp_support_op_search_key_or_create_new_def Let_def table_constants
          del: soc_search.simps soc_create.simps)
    have "soc_post H pend db key (t1, d1) r st'"
    proof (cases "r1 = Soc_not_found")
      case False
      then show ?thesis
        using soc_post_search [OF wf1 post1 [folded home] False] run' home by (cases r1) auto
    next
      case nf: True
      obtain r2 s2 where pass2: "soc_create search tbl ?q ?start
          (?start + 32 - chunk_first_with_freespace s1) (chunk_first_with_freespace s1) s1 = (r2, s2)"
        by (metis prod.exhaust)
      have "soc_post H pend db key (t1, d1)
          (case r2 of Soc_found c s \<Rightarrow> Some (c, s, True) | _ \<Rightarrow> None) (soc_st s2)"
        using soc_post_create [OF hs wf1, of db key t1 s1 tbl r2 s2] post1 pass2 home nf
          same_table_meta(1) [OF same sn] by simp
      then show ?thesis using run' nf pass2 by (cases r2) auto
    qed
    then show ?thesis
      using soc_post_same [OF _ same tid] wr wf_shape [OF wf] by blast
  qed
qed

end
