(* ===== verification/Mcmp_Ops.thy ===== *)
theory Mcmp_Ops
  imports Mcmp_Create
begin

text \<open>
  The operations of the hash table, \<open>hashtable_op_set.c\<close>, \<open>hashtable_op_get.c\<close>,
  \<open>hashtable_op_delete.c\<close>, \<open>hashtable_op_rmw.c\<close>, \<open>hashtable_op_iter.c\<close>,
  \<open>hashtable_op_get_key.c\<close> and \<open>hashtable_op_get_random_key.c\<close> of
  \<open>src/src/data_structures/hashtable/mcmp/\<close>.

  The state is the transaction and the table. \<open>search\<close> is the slot search of the instruction
  set, \<open>hash_calculate\<close> the hash function of the build. An operation that returns false
  returns None; the pointers through which results leave are assumed not to be NULL.
\<close>

type_synonym ht_env = "ht_place transaction \<times> hashtable"

section \<open>The loop over the current and the old table\<close>

text \<open>
  The body returns None for \<open>continue\<close> and Some for a \<open>return\<close> or \<open>break\<close>. The old
  table is visited only while the hash table is being resized.
\<close>

definition over_tables ::
    "(nat \<Rightarrow> ht_state \<Rightarrow> 'r option \<times> ht_state) \<Rightarrow> ht_env \<Rightarrow> 'r option \<times> ht_env" where
  "over_tables body env =
     (let (t, ht) = env; (r, t1, d1) = body 0 (t, ht_current ht); ht1 = ht\<lparr>ht_current := d1\<rparr>
      in case r of
           Some x \<Rightarrow> (Some x, t1, ht1)
         | None \<Rightarrow>
             (case ht_old ht of
                None \<Rightarrow> (None, t1, ht1)
              | Some d \<Rightarrow>
                  if \<not> is_resizing ht then (None, t1, ht1)
                  else let (r2, t2, d2) = body 1 (t1, d) in (r2, t2, ht1\<lparr>ht_old := Some d2\<rparr>)))"

definition hash_of :: "(u32 \<Rightarrow> bytes \<Rightarrow> u64) \<Rightarrow> u32 \<Rightarrow> bytes \<Rightarrow> u32 \<Rightarrow> u64" where
  "hash_of hash_calculate db key len = hash_calculate db (take (unat len) key)"

section \<open>Set\<close>

record op_set_result =
  previous_value :: "u64 option"
  out_bucket_index :: nat
  out_should_free_key :: bool

definition hashtable_mcmp_op_set ::
    "(u32 \<Rightarrow> u32 list \<Rightarrow> u32) \<Rightarrow> (u32 \<Rightarrow> bytes \<Rightarrow> u64) \<Rightarrow> u32 \<Rightarrow> bytes \<Rightarrow> u32 \<Rightarrow> u64
      \<Rightarrow> ht_env \<Rightarrow> op_set_result option \<times> ht_env" where
  "hashtable_mcmp_op_set search hash_calculate db key len new_value env =
     (let (t, ht) = env; hash = hash_of hash_calculate db key len;
          (r, t1, d1) = hashtable_mcmp_support_op_search_key_or_create_new
                          search 0 db key len hash True (t, ht_current ht)
      in case r of
           None \<Rightarrow> (None, t1, ht\<lparr>ht_current := d1\<rparr>)
         | Some (chunk_index, chunk_slot_index, created_new) \<Rightarrow>
             let b = HASHTABLE_TO_BUCKET_INDEX chunk_index chunk_slot_index;
                 prev = (if created_new then None else Some (kv_data (keys_values d1 ! b)));
                 d2 = upd_kv b (\<lambda>kv. kv\<lparr>kv_data := new_value\<rparr>) d1;
                 d3 = (if created_new then upd_kv b (kv_set_new db key len) d2 else d2)
             in (Some \<lparr>previous_value = prev, out_bucket_index = b,
                       out_should_free_key = \<not> created_new\<rparr>,
                 t1, ht\<lparr>ht_current := d3\<rparr>))"

section \<open>Get\<close>

definition op_get_body ::
    "(u32 \<Rightarrow> u32 list \<Rightarrow> u32) \<Rightarrow> u32 \<Rightarrow> bytes \<Rightarrow> u32 \<Rightarrow> u64 \<Rightarrow> nat \<Rightarrow> ht_state
      \<Rightarrow> u64 option \<times> ht_state" where
  "op_get_body search db key len hash tbl st =
     (let (r, t, d) = hashtable_mcmp_support_op_search_key search tbl db key len hash st
      in (map_option (\<lambda>(c, s). kv_data (keys_values d ! HASHTABLE_TO_BUCKET_INDEX c s)) r, t, d))"

definition hashtable_mcmp_op_get ::
    "(u32 \<Rightarrow> u32 list \<Rightarrow> u32) \<Rightarrow> (u32 \<Rightarrow> bytes \<Rightarrow> u64) \<Rightarrow> u32 \<Rightarrow> bytes \<Rightarrow> u32
      \<Rightarrow> ht_env \<Rightarrow> u64 option \<times> ht_env" where
  "hashtable_mcmp_op_get search hash_calculate db key len =
     over_tables (op_get_body search db key len (hash_of hash_calculate db key len))"

definition op_get_by_index_body ::
    "nat \<Rightarrow> nat \<Rightarrow> ht_state \<Rightarrow> (u32 \<times> u64) option option \<times> ht_state" where
  "op_get_by_index_body bucket_index tbl st =
     (let c = HASHTABLE_TO_CHUNK_INDEX bucket_index; s = HASHTABLE_TO_CHUNK_SLOT_INDEX bucket_index
      in if \<not> slot_filled (half_hashes (half_hashes_chunk (snd st) ! c) ! s) then (Some None, st)
         else let (ok, st1) = chunk_read_lock tbl c st
              in if \<not> ok then (Some None, st1)
                 else let kv = keys_values (snd st1) ! bucket_index
                      in (Some (Some (kv_database_number kv, kv_data kv)), st1))"

definition hashtable_mcmp_op_get_by_index ::
    "nat \<Rightarrow> ht_env \<Rightarrow> (u32 \<times> u64) option \<times> ht_env" where
  "hashtable_mcmp_op_get_by_index bucket_index env =
     (let (r, env') = over_tables (op_get_by_index_body bucket_index) env
      in (Option.bind r id, env'))"

definition hashtable_mcmp_op_get_by_index_all_databases ::
    "nat \<Rightarrow> ht_env \<Rightarrow> u64 option \<times> ht_env" where
  "hashtable_mcmp_op_get_by_index_all_databases bucket_index env =
     (let (r, env') = over_tables (op_get_by_index_body bucket_index) env
      in (map_option snd (Option.bind r id), env'))"

section \<open>Delete\<close>

definition delete_bucket :: "nat \<Rightarrow> nat \<Rightarrow> hashtable_data \<Rightarrow> hashtable_data" where
  "delete_bucket c s d =
     upd_kv (HASHTABLE_TO_BUCKET_INDEX c s) kv_set_deleted (upd_chunk c (vacate_slot s) d)"

definition op_delete_body ::
    "(u32 \<Rightarrow> u32 list \<Rightarrow> u32) \<Rightarrow> u32 \<Rightarrow> bytes \<Rightarrow> u32 \<Rightarrow> u64 \<Rightarrow> nat \<Rightarrow> ht_state
      \<Rightarrow> u64 option option \<times> ht_state" where
  "op_delete_body search db key len hash tbl st =
     (let (r, st1) = hashtable_mcmp_support_op_search_key search tbl db key len hash st
      in case r of
           None \<Rightarrow> (None, st1)
         | Some (c, s) \<Rightarrow>
             if \<not> slot_filled (half_hashes (half_hashes_chunk (snd st1) ! c) ! s) then (Some None, st1)
             else
               let (ok, t2, d2) = chunk_upgrade_lock tbl c st1
               in if \<not> ok then (Some None, t2, d2)
                  else if slot_quarter_hash (half_hashes (half_hashes_chunk d2 ! c) ! s) = quarter_of hash
                  then (Some (Some (kv_data (keys_values d2 ! HASHTABLE_TO_BUCKET_INDEX c s))),
                        t2, delete_bucket c s d2)
                  else (None, t2, d2))"

definition hashtable_mcmp_op_delete ::
    "(u32 \<Rightarrow> u32 list \<Rightarrow> u32) \<Rightarrow> (u32 \<Rightarrow> bytes \<Rightarrow> u64) \<Rightarrow> u32 \<Rightarrow> bytes \<Rightarrow> u32
      \<Rightarrow> ht_env \<Rightarrow> u64 option \<times> ht_env" where
  "hashtable_mcmp_op_delete search hash_calculate db key len env =
     (let (r, env') = over_tables (op_delete_body search db key len (hash_of hash_calculate db key len)) env
      in (Option.bind r id, env'))"

text \<open>The lock is requested without the test whether the transaction owns it.\<close>

definition chunk_lock_direct ::
    "(ht_place transaction \<Rightarrow> ht_place \<Rightarrow> transaction_rwspinlock
        \<Rightarrow> bool \<times> ht_place transaction \<times> transaction_rwspinlock)
      \<Rightarrow> nat \<Rightarrow> nat \<Rightarrow> ht_state \<Rightarrow> bool \<times> ht_state" where
  "chunk_lock_direct take_lock tbl c st =
     (let (t, d) = st; (res, t', lk') = take_lock t (tbl, c) (chunk_lock (half_hashes_chunk d ! c))
      in (res, t', upd_chunk c (\<lambda>ch. ch\<lparr>chunk_lock := lk'\<rparr>) d))"

definition op_delete_by_index_body ::
    "u32 option \<Rightarrow> (nat \<Rightarrow> nat \<Rightarrow> ht_state \<Rightarrow> bool \<times> ht_state) \<Rightarrow> nat \<Rightarrow> nat \<Rightarrow> ht_state
      \<Rightarrow> u64 option option \<times> ht_state" where
  "op_delete_by_index_body database lock_it bucket_index tbl st =
     (let c = HASHTABLE_TO_CHUNK_INDEX bucket_index; s = HASHTABLE_TO_CHUNK_SLOT_INDEX bucket_index
      in if \<not> slot_filled (half_hashes (half_hashes_chunk (snd st) ! c) ! s) then (Some None, st)
         else
           let (ok, t1, d1) = lock_it tbl c st
           in if \<not> ok then (Some None, t1, d1)
              else
                let kv = keys_values d1 ! bucket_index
                in if (case database of None \<Rightarrow> False | Some db \<Rightarrow> kv_database_number kv \<noteq> db)
                   then (Some None, t1, d1)
                   else (Some (Some (kv_data kv)), t1, delete_bucket c s d1))"

definition hashtable_mcmp_op_delete_by_index ::
    "u32 \<Rightarrow> bool \<Rightarrow> nat \<Rightarrow> ht_env \<Rightarrow> u64 option \<times> ht_env" where
  "hashtable_mcmp_op_delete_by_index db already_locked_for_read bucket_index env =
     (let lock_it = (if already_locked_for_read
                     then chunk_lock_direct transaction_upgrade_lock_for_write else chunk_write_lock);
          (r, env') = over_tables (op_delete_by_index_body (Some db) lock_it bucket_index) env
      in (Option.bind r id, env'))"

definition hashtable_mcmp_op_delete_by_index_all_databases ::
    "bool \<Rightarrow> nat \<Rightarrow> ht_env \<Rightarrow> u64 option \<times> ht_env" where
  "hashtable_mcmp_op_delete_by_index_all_databases already_locked_for_read bucket_index env =
     (let lock_it = chunk_lock_direct (if already_locked_for_read
                     then transaction_upgrade_lock_for_write else transaction_lock_for_write);
          (r, env') = over_tables (op_delete_by_index_body None lock_it bucket_index) env
      in (Option.bind r id, env'))"

section \<open>Read-modify-write\<close>

text \<open>
  The status keeps the indexes of the chunk, the slot and the bucket where the C struct keeps
  pointers into the current table.
\<close>

record hashtable_mcmp_op_rmw_status =
  rmw_hash :: u64
  rmw_database_number :: u32
  rmw_key :: bytes
  rmw_key_length :: u32
  rmw_chunk_index :: nat
  rmw_chunk_slot_index :: nat
  rmw_created_new :: bool
  rmw_current_value :: u64

definition rmw_bucket :: "hashtable_mcmp_op_rmw_status \<Rightarrow> nat" where
  "rmw_bucket st = HASHTABLE_TO_BUCKET_INDEX (rmw_chunk_index st) (rmw_chunk_slot_index st)"

definition hashtable_mcmp_op_rmw_begin ::
    "(u32 \<Rightarrow> u32 list \<Rightarrow> u32) \<Rightarrow> (u32 \<Rightarrow> bytes \<Rightarrow> u64) \<Rightarrow> u32 \<Rightarrow> bytes \<Rightarrow> u32
      \<Rightarrow> ht_env \<Rightarrow> hashtable_mcmp_op_rmw_status option \<times> ht_env" where
  "hashtable_mcmp_op_rmw_begin search hash_calculate db key len env =
     (let (t, ht) = env; hash = hash_of hash_calculate db key len;
          (r, t1, d1) = hashtable_mcmp_support_op_search_key_or_create_new
                          search 0 db key len hash True (t, ht_current ht)
      in (case r of
            None \<Rightarrow> None
          | Some (c, s, created_new) \<Rightarrow>
              Some \<lparr>rmw_hash = hash, rmw_database_number = db, rmw_key = key, rmw_key_length = len,
                    rmw_chunk_index = c, rmw_chunk_slot_index = s, rmw_created_new = created_new,
                    rmw_current_value =
                      (if created_new then 0
                       else kv_data (keys_values d1 ! HASHTABLE_TO_BUCKET_INDEX c s))\<rparr>,
          t1, ht\<lparr>ht_current := d1\<rparr>))"

definition hashtable_mcmp_op_rmw_commit_update ::
    "hashtable_mcmp_op_rmw_status \<Rightarrow> u64 \<Rightarrow> hashtable \<Rightarrow> hashtable" where
  "hashtable_mcmp_op_rmw_commit_update st new_value ht =
     (let b = rmw_bucket st; d1 = upd_kv b (\<lambda>kv. kv\<lparr>kv_data := new_value\<rparr>) (ht_current ht)
      in ht\<lparr>ht_current :=
              (if rmw_created_new st
               then upd_kv b (kv_set_new (rmw_database_number st) (rmw_key st) (rmw_key_length st)) d1
               else d1)\<rparr>)"

definition hashtable_mcmp_op_rmw_commit_delete ::
    "hashtable_mcmp_op_rmw_status \<Rightarrow> hashtable \<Rightarrow> hashtable" where
  "hashtable_mcmp_op_rmw_commit_delete st ht =
     (let d1 = upd_chunk (rmw_chunk_index st) (vacate_slot (rmw_chunk_slot_index st)) (ht_current ht)
      in ht\<lparr>ht_current :=
              (if \<not> rmw_created_new st then upd_kv (rmw_bucket st) kv_set_deleted d1 else d1)\<rparr>)"

definition hashtable_mcmp_op_rmw_abort ::
    "hashtable_mcmp_op_rmw_status \<Rightarrow> hashtable \<Rightarrow> hashtable" where
  "hashtable_mcmp_op_rmw_abort st ht =
     (if rmw_created_new st
      then ht\<lparr>ht_current :=
                upd_chunk (rmw_chunk_index st) (vacate_slot (rmw_chunk_slot_index st)) (ht_current ht)\<rparr>
      else ht)"

section \<open>Iteration\<close>

text \<open>None is \<open>HASHTABLE_OP_ITER_END\<close>. The slots that the inner loop does not skip:\<close>

definition iter_match :: "hashtable_data \<Rightarrow> bool \<Rightarrow> u32 \<Rightarrow> nat \<Rightarrow> nat \<Rightarrow> bool" where
  "iter_match d all_databases db c s \<longleftrightarrow>
     (let kv = keys_values d ! HASHTABLE_TO_BUCKET_INDEX c s
      in half_hashes (half_hashes_chunk d ! c) ! s \<noteq> 0
         \<and> \<not> (HASHTABLE_KEY_VALUE_IS_EMPTY (kv_flags kv)
               \<or> HASHTABLE_KEY_VALUE_HAS_FLAG (kv_flags kv) HASHTABLE_KEY_VALUE_FLAG_DELETED)
         \<and> (all_databases \<or> kv_database_number kv = db))"

fun iter_slots :: "hashtable_data \<Rightarrow> bool \<Rightarrow> u32 \<Rightarrow> nat \<Rightarrow> nat \<Rightarrow> nat \<Rightarrow> nat option" where
  "iter_slots d all_databases db c 0 s = None"
| "iter_slots d all_databases db c (Suc n) s =
     (if iter_match d all_databases db c s then Some (HASHTABLE_TO_BUCKET_INDEX c s)
      else iter_slots d all_databases db c n (Suc s))"

text \<open>
  After the inner loop the slot index is 14, so the distance of a chunk with used slots does not
  grow; only the chunks without any count.
\<close>

fun iter_chunks ::
    "hashtable_data \<Rightarrow> bool \<Rightarrow> u32 \<Rightarrow> u64 \<Rightarrow> nat \<Rightarrow> nat \<Rightarrow> nat \<Rightarrow> u64 \<Rightarrow> nat option" where
  "iter_chunks d all_databases db max_distance 0 c s distance = None"
| "iter_chunks d all_databases db max_distance (Suc n) c s distance =
     (if distance \<ge> max_distance then None
      else if slots_occupied (half_hashes_chunk d ! c) = 0
      then iter_chunks d all_databases db max_distance n (Suc c) 0
             (distance + of_nat (HASHTABLE_MCMP_HALF_HASHES_CHUNK_SLOTS_COUNT - s))
      else
        case iter_slots d all_databases db c (HASHTABLE_MCMP_HALF_HASHES_CHUNK_SLOTS_COUNT - s) s of
          Some b \<Rightarrow> Some b
        | None \<Rightarrow>
            iter_chunks d all_databases db max_distance n (Suc c) 0
              (distance + of_nat (HASHTABLE_MCMP_HALF_HASHES_CHUNK_SLOTS_COUNT
                                    - max s HASHTABLE_MCMP_HALF_HASHES_CHUNK_SLOTS_COUNT)))"

definition hashtable_mcmp_op_iter_internal ::
    "hashtable_data \<Rightarrow> bool \<Rightarrow> u32 \<Rightarrow> nat \<Rightarrow> u64 \<Rightarrow> nat option" where
  "hashtable_mcmp_op_iter_internal d all_databases db bucket_index max_distance =
     (let start = HASHTABLE_TO_CHUNK_INDEX bucket_index
      in iter_chunks d all_databases db max_distance (unat (chunks_count d) - start) start
           (HASHTABLE_TO_CHUNK_SLOT_INDEX bucket_index) 0)"

definition hashtable_mcmp_op_iter :: "u32 \<Rightarrow> nat \<Rightarrow> hashtable \<Rightarrow> nat option" where
  "hashtable_mcmp_op_iter db bucket_index ht =
     hashtable_mcmp_op_iter_internal (ht_current ht) False db bucket_index (- 1)"

definition hashtable_mcmp_op_iter_max_distance :: "u32 \<Rightarrow> nat \<Rightarrow> u64 \<Rightarrow> hashtable \<Rightarrow> nat option" where
  "hashtable_mcmp_op_iter_max_distance db bucket_index max_distance ht =
     hashtable_mcmp_op_iter_internal (ht_current ht) False db bucket_index max_distance"

definition hashtable_mcmp_op_iter_all_databases :: "nat \<Rightarrow> hashtable \<Rightarrow> nat option" where
  "hashtable_mcmp_op_iter_all_databases bucket_index ht =
     hashtable_mcmp_op_iter_internal (ht_current ht) True 0 bucket_index (- 1)"

definition hashtable_mcmp_op_iter_max_distance_all_databases :: "nat \<Rightarrow> u64 \<Rightarrow> hashtable \<Rightarrow> nat option"
  where
  "hashtable_mcmp_op_iter_max_distance_all_databases bucket_index max_distance ht =
     hashtable_mcmp_op_iter_internal (ht_current ht) True 0 bucket_index max_distance"

section \<open>Reading a key by its bucket\<close>

text \<open>
  The slot id, the flags and the key length are compared again after the copy. The read lock is
  held, so the second reading is the first one.
\<close>

definition op_get_key_at :: "u32 option \<Rightarrow> nat \<Rightarrow> ht_env \<Rightarrow> (u32 \<times> bytes \<times> u32) option \<times> ht_env" where
  "op_get_key_at database bucket_index env =
     (let (t, ht) = env; c = HASHTABLE_TO_CHUNK_INDEX bucket_index;
          (ok, t1, d1) = chunk_read_lock 0 c (t, ht_current ht); env1 = (t1, ht\<lparr>ht_current := d1\<rparr>)
      in if \<not> ok then (None, env1)
         else
           let kv = keys_values d1 ! bucket_index
           in if HASHTABLE_KEY_VALUE_IS_EMPTY (kv_flags kv)
                 \<or> HASHTABLE_KEY_VALUE_HAS_FLAG (kv_flags kv) HASHTABLE_KEY_VALUE_FLAG_DELETED
                 \<or> (case database of None \<Rightarrow> False | Some db \<Rightarrow> kv_database_number kv \<noteq> db)
              then (None, env1)
              else (map_option (\<lambda>source_key. (kv_database_number kv,
                      take (unat (kv_key_length kv)) source_key, kv_key_length kv)) (kv_key kv), env1))"

definition hashtable_mcmp_op_get_key ::
    "u32 \<Rightarrow> nat \<Rightarrow> ht_env \<Rightarrow> (bytes \<times> u32) option \<times> ht_env" where
  "hashtable_mcmp_op_get_key db bucket_index env =
     (let (r, env') = op_get_key_at (Some db) bucket_index env in (map_option snd r, env'))"

definition hashtable_mcmp_op_get_key_all_databases ::
    "nat \<Rightarrow> ht_env \<Rightarrow> (u32 \<times> bytes \<times> u32) option \<times> ht_env" where
  "hashtable_mcmp_op_get_key_all_databases = op_get_key_at None"

definition hashtable_mcmp_op_get_random_key_try ::
    "u64 \<Rightarrow> u32 \<Rightarrow> ht_env \<Rightarrow> (bytes \<times> u32) option \<times> ht_env" where
  "hashtable_mcmp_op_get_random_key_try random_value db env =
     hashtable_mcmp_op_get_key db (unat (random_value mod buckets_count_real (ht_current (snd env)))) env"

end
