(* ===== verification/Mcmp_Correct.thy ===== *)
theory Mcmp_Correct
  imports Mcmp_Ops
begin

text \<open>
  The operations of the hash table keep its invariant and do to the map of the table what a map
  does on insertion, lookup, removal and iteration, on every branch: also when a lock is refused
  or no slot is free.
\<close>

section \<open>Tables in use\<close>

text \<open>There is no resizing: \<open>hashtable_mcmp_init\<close> leaves \<open>ht_old\<close> empty and nothing sets it.\<close>

definition table_ok :: "(u32 \<Rightarrow> bytes \<Rightarrow> u64) \<Rightarrow> (nat \<times> nat) set \<Rightarrow> hashtable \<Rightarrow> bool" where
  "table_ok H pend ht \<longleftrightarrow> ht_wf H pend (ht_current ht) \<and> ht_old ht = None"

definition contents :: "hashtable \<Rightarrow> u32 \<times> bytes \<Rightarrow> u64 option" where
  "contents ht = ht_map (ht_current ht)"

lemma over_tables_current:
  assumes "ht_old ht = None"
  shows "over_tables body (t, ht)
    = (let (r, t1, d1) = body 0 (t, ht_current ht) in (r, t1, ht\<lparr>ht_current := d1\<rparr>))"
  using assms by (auto simp: over_tables_def Let_def split: prod.splits option.splits)

lemma hash_of_good: "good_key key len \<Longrightarrow> hash_of H db key len = H db key"
  by (simp add: hash_of_def good_key_def)

lemma upd_kv_twice:
  "b < length (keys_values d) \<Longrightarrow> upd_kv b g (upd_kv b f d) = upd_kv b (\<lambda>kv. g (f kv)) d"
  by (simp add: upd_kv_def)

lemma slot_id_views [simp]:
  "slot_filled (slot_id dist q)"
  "slot_quarter_hash (slot_id dist q) = q"
proof -
  have "bit (ucast (slot_id dist q) :: u8) 0" by (simp add: bit_simps bit_slot_id)
  then show "slot_filled (slot_id dist q)" by (auto simp: slot_filled_def)
  show "slot_quarter_hash (slot_id dist q) = q"
    unfolding slot_quarter_hash_def
    by (rule bit_word_eqI) (auto simp: bit_simps bit_slot_id dest: bit_imp_le_length)
qed

lemma bucket_in_range:
  "ht_wf H pend d \<Longrightarrow> c < nchunks d \<Longrightarrow> s < 14 \<Longrightarrow> HASHTABLE_TO_BUCKET_INDEX c s < length (keys_values d)"
  using bucket_index_less [of c "nchunks d" s] wf_shape [of H pend d] by (simp add: table_shape_def)

section \<open>Set\<close>

text \<open>What a slot that the search found or created turns into when it is written.\<close>

lemma store_found:
  fixes v :: u64
  assumes wf: "ht_wf H pend d" and at: "is_key_at d db key c s"
  defines "d' \<equiv> upd_kv (HASHTABLE_TO_BUCKET_INDEX c s) (\<lambda>kv. kv\<lparr>kv_data := v\<rparr>) d"
  shows "ht_wf H pend d'" and "ht_map d' = (ht_map d)((db, key) \<mapsto> v)"
    and "ht_map d (db, key) = Some (kv_data (keys_values d ! HASHTABLE_TO_BUCKET_INDEX c s))"
proof -
  have in_range: "c < nchunks d" "s < 14" "slot_at d c s \<noteq> 0" "kv_ident (kv_at d c s) = (db, Some key)"
    using at by (simp_all add: is_key_at_def)
  note set = wf_set_data [OF wf in_range(1-3) is_key_at_live [OF wf at] in_range(4)]
  show "ht_wf H pend d'" "ht_map d' = (ht_map d)((db, key) \<mapsto> v)"
    unfolding d'_def by (rule set)+
  show "ht_map d (db, key) = Some (kv_data (keys_values d ! HASHTABLE_TO_BUCKET_INDEX c s))"
    using ht_map_at [OF wf at] by (simp add: kv_at_def)
qed

lemma store_created:
  fixes v :: u64
  assumes wf: "ht_wf H (insert (c, s) pend) d" and "(c, s) \<notin> pend" and c: "c < nchunks d" and s: "s < 14"
    and "good_key key len" and "placed d (H db key) c (slot_at d c s)" and "ht_map d (db, key) = None"
  defines "d' \<equiv> upd_kv (HASHTABLE_TO_BUCKET_INDEX c s) (kv_set_new db key len)
      (upd_kv (HASHTABLE_TO_BUCKET_INDEX c s) (\<lambda>kv. kv\<lparr>kv_data := v\<rparr>) d)"
  shows "ht_wf H pend d'" and "ht_map d' = (ht_map d)((db, key) \<mapsto> v)"
  unfolding d'_def upd_kv_twice [OF bucket_in_range [OF wf c s]]
  using wf_fill [OF wf c s assms(2,5,6,7), of v] by simp_all

lemma op_set_spec:
  assumes hs: "hash_search search" and key: "good_key key len" and ok: "table_ok H pend ht"
    and run: "hashtable_mcmp_op_set search H db key len v (t, ht) = (r, t', ht')"
  shows "table_ok H pend ht'
    \<and> (case r of
         None \<Rightarrow> contents ht' = contents ht
       | Some res \<Rightarrow>
           contents ht' = (contents ht)((db, key) \<mapsto> v)
           \<and> previous_value res = contents ht (db, key)
           \<and> out_should_free_key res = (contents ht (db, key) \<noteq> None))"
proof -
  let ?d = "ht_current ht"
  have wf: "ht_wf H pend ?d" and old: "ht_old ht = None" using ok by (simp_all add: table_ok_def)
  obtain r1 t1 d1 where soc: "hashtable_mcmp_support_op_search_key_or_create_new search 0 db key len
      (H db key) True (t, ?d) = (r1, (t1, d1))" by (metis prod.exhaust)
  have post: "soc_post H pend db key (t, ?d) r1 (t1, d1)"
    by (rule search_key_or_create_spec [OF hs key wf soc])
  note run' = run [unfolded hashtable_mcmp_op_set_def prod.case Let_def hash_of_good [OF key] soc]
  consider (none) "r1 = None" | (found) c s where "r1 = Some (c, s, False)"
    | (created) c s where "r1 = Some (c, s, True)"
    by (metis option.exhaust prod.exhaust)
  then show ?thesis
  proof cases
    case none
    then show ?thesis
      using run' post similar_wf [OF _ wf] similar_map old
      by (auto simp: soc_post_def table_ok_def contents_def)
  next
    case (found c s)
    then have sim: "similar ?d d1" and "is_key_at ?d db key c s"
      using post by (auto simp: soc_post_def)
    then have at: "is_key_at d1 db key c s" and m: "ht_map d1 = ht_map ?d"
      using similar_at(1) [OF sim, of c] similar_nchunks [OF sim] similar_kvs [OF sim] similar_map [OF sim]
      by (auto simp: is_key_at_def kv_at_def)
    show ?thesis
      using run' found store_found [OF similar_wf [OF sim wf] at] m old
      by (auto simp: table_ok_def contents_def)
  next
    case (created c s)
    then have "ht_map d1 (db, key) = None" "ht_map d1 = ht_map ?d"
      and post': "ht_wf H (insert (c, s) pend) d1" "(c, s) \<notin> pend" "c < nchunks d1" "s < 14"
        "placed d1 (H db key) c (slot_at d1 c s)"
      using post by (auto simp: soc_post_def ht_map_def)
    then show ?thesis
      using run' created store_created [OF post'(1-4) key post'(5), of v] old
      by (auto simp: table_ok_def contents_def)
  qed
qed

text \<open>Set fails only when a lock is refused or the window of the key is full.\<close>

lemma op_set_progress:
  assumes hs: "hash_search search" and key: "good_key key len" and ok: "table_ok H pend ht"
    and run: "hashtable_mcmp_op_set search H db key len v (t, ht) = (None, t', ht')"
    and locks: "writable (id_of t) (ht_current ht)"
  shows "contents ht (db, key) = None
    \<and> (\<forall>x. home_chunk (ht_current ht) (H db key) \<le> x \<and> x < home_chunk (ht_current ht) (H db key) + 32
         \<longrightarrow> 0 \<notin> set (half_hashes (chunk_at (ht_current ht) x)))"
proof -
  let ?d = "ht_current ht"
  have wf: "ht_wf H pend ?d" using ok by (simp add: table_ok_def)
  obtain r1 t1 d1 where soc: "hashtable_mcmp_support_op_search_key_or_create_new search 0 db key len
      (H db key) True (t, ?d) = (r1, (t1, d1))" by (metis prod.exhaust)
  have "r1 = None"
    using run [unfolded hashtable_mcmp_op_set_def prod.case Let_def hash_of_good [OF key] soc]
    by (auto split: option.splits)
  then show ?thesis
    using search_key_or_create_spec [OF hs key wf soc] locks by (simp add: soc_post_def contents_def)
qed

section \<open>Get\<close>

lemma op_get_spec:
  assumes hs: "hash_search search" and key: "good_key key len" and ok: "table_ok H {} ht"
    and run: "hashtable_mcmp_op_get search H db key len (t, ht) = (r, t', ht')"
  shows "table_ok H {} ht' \<and> contents ht' = contents ht
    \<and> (r \<noteq> None \<or> readable (id_of t) (ht_current ht) \<longrightarrow> r = contents ht (db, key))"
proof -
  let ?d = "ht_current ht"
  have wf: "ht_wf H {} ?d" and old: "ht_old ht = None" using ok by (simp_all add: table_ok_def)
  obtain r1 t1 d1 where sk: "hashtable_mcmp_support_op_search_key search 0 db key len
      (H db key) (t, ?d) = (r1, (t1, d1))" by (metis prod.exhaust)
  note post = search_key_spec [OF hs key wf sk]
  have same: "same_table ?d d1" using post by blast
  have "r = map_option (\<lambda>(c, s). kv_data (kv_at ?d c s)) r1" "ht' = ht\<lparr>ht_current := d1\<rparr>"
    using run sk same_table_kvs [OF same]
    by (auto simp: hashtable_mcmp_op_get_def over_tables_current [OF old] op_get_body_def Let_def
        hash_of_good [OF key] kv_at_def)
  then show ?thesis
    using post same_table_wf [OF same wf] same_table_map [OF same] old ht_map_at [OF wf]
    by (cases r1) (auto simp: table_ok_def contents_def)
qed

section \<open>Delete\<close>

lemma delete_bucket_spec:
  assumes wf: "ht_wf H pend d" and at: "is_key_at d db key c s"
  shows "ht_wf H pend (delete_bucket c s d)"
    and "ht_map (delete_bucket c s d) = (ht_map d)((db, key) := None)"
proof -
  have at': "c < nchunks d" "s < 14" "slot_at d c s \<noteq> 0" "(c, s) \<notin> pend" "kv_ident (kv_at d c s) = (db, Some key)"
    using at is_key_at_live [OF wf at] by (simp_all add: is_key_at_def)
  note un = wf_unfill [OF wf at']
  have eq: "delete_bucket c s d
      = upd_chunk c (vacate_slot s) (upd_kv (HASHTABLE_TO_BUCKET_INDEX c s) kv_set_deleted d)"
    by (simp add: delete_bucket_def upd_kv_upd_chunk)
  show "ht_wf H pend (delete_bucket c s d)"
    unfolding eq using wf_vacate [OF un(1) _ at'(2,4)] at'(1) by simp
  show "ht_map (delete_bucket c s d) = (ht_map d)((db, key) := None)"
    unfolding eq using un(2) by (simp add: ht_map_def)
qed

lemma is_key_at_slot:
  assumes "ht_wf H pend d" and "is_key_at d db key c s"
  shows "slot_filled (slot_at d c s)" and "slot_quarter_hash (slot_at d c s) = quarter_of (H db key)"
  using is_key_at_placed [OF assms] by (auto simp: placed_def Let_def)

text \<open>The body of the loop, once the key has been found.\<close>

lemma op_delete_body_found:
  assumes wf: "ht_wf H {} d" and at: "is_key_at d db key c s"
    and sk: "hashtable_mcmp_support_op_search_key search tbl db key len (H db key) st = (Some (c, s), (t, d))"
    and lk: "chunk_upgrade_lock tbl c (t, d) = (ok, (t1, d1))"
  shows "op_delete_body search db key len (H db key) tbl st
    = (if ok then (Some (Some (kv_data (kv_at d c s))), t1, delete_bucket c s d1) else (Some None, t1, d1))"
proof -
  have c: "c < nchunks d" using at by (simp add: is_key_at_def)
  have same: "same_table d d1" using chunk_upgrade_lock_same [OF lk c] by simp
  note slot = is_key_at_slot [OF wf at]
  show ?thesis
    using sk lk slot same_table_at(1) [OF same c] same_table_kvs [OF same]
    by (simp add: op_delete_body_def Let_def kv_at_def)
qed

lemma op_delete_spec:
  assumes hs: "hash_search search" and key: "good_key key len" and ok: "table_ok H {} ht"
    and run: "hashtable_mcmp_op_delete search H db key len (t, ht) = (r, t', ht')"
  shows "table_ok H {} ht'
    \<and> (case r of
         None \<Rightarrow> contents ht' = contents ht
       | Some v \<Rightarrow> contents ht (db, key) = Some v \<and> contents ht' = (contents ht)((db, key) := None))"
proof -
  let ?d = "ht_current ht"
  have wf: "ht_wf H {} ?d" and old: "ht_old ht = None" using ok by (simp_all add: table_ok_def)
  obtain r1 t1 d1 where sk: "hashtable_mcmp_support_op_search_key search 0 db key len
      (H db key) (t, ?d) = (r1, (t1, d1))" by (metis prod.exhaust)
  note post = search_key_spec [OF hs key wf sk]
  have same: "same_table ?d d1" using post by blast
  have wf1: "ht_wf H {} d1" and m1: "ht_map d1 = ht_map ?d"
    using same_table_wf [OF same wf] same_table_map [OF same] by auto
  note run' = run [unfolded hashtable_mcmp_op_delete_def over_tables_current [OF old] Let_def hash_of_good [OF key]]
  show ?thesis
  proof (cases r1)
    case None
    then show ?thesis
      using run' sk wf1 m1 old by (auto simp: op_delete_body_def table_ok_def contents_def)
  next
    case (Some cs)
    obtain c s where cs: "cs = (c, s)" by force
    have at: "is_key_at d1 db key c s" using post Some cs is_key_at_same [OF same] by simp
    have c: "c < nchunks d1" using at by (simp add: is_key_at_def)
    obtain lok t2 d2 where lk: "chunk_upgrade_lock 0 c (t1, d1) = (lok, (t2, d2))" by (metis prod.exhaust)
    have same2: "same_table d1 d2" using chunk_upgrade_lock_same [OF lk c] by simp
    have wf2: "ht_wf H {} d2" and m2: "ht_map d2 = ht_map ?d" and at2: "is_key_at d2 db key c s"
      using same_table_wf [OF same2 wf1] same_table_map [OF same2] m1 is_key_at_same [OF same2] at by auto
    have data: "ht_map ?d (db, key) = Some (kv_data (kv_at d1 c s))" using ht_map_at [OF wf1 at] m1 by simp
    show ?thesis
      using run' op_delete_body_found [OF wf1 at sk [unfolded Some cs] lk] wf2 m2 old
        delete_bucket_spec [OF wf2 at2]
      by (cases lok) (auto simp: table_ok_def contents_def data)
  qed
qed

section \<open>Read-modify-write\<close>

definition rmw_ok ::
    "(u32 \<Rightarrow> bytes \<Rightarrow> u64) \<Rightarrow> (nat \<times> nat) set \<Rightarrow> hashtable_mcmp_op_rmw_status \<Rightarrow> hashtable \<Rightarrow> bool" where
  "rmw_ok H pend st ht \<longleftrightarrow>
     (let d = ht_current ht; c = rmw_chunk_index st; s = rmw_chunk_slot_index st;
          db = rmw_database_number st; key = rmw_key st
      in ht_old ht = None \<and> good_key key (rmw_key_length st)
         \<and> (if rmw_created_new st
            then ht_wf H (insert (c, s) pend) d \<and> (c, s) \<notin> pend \<and> c < nchunks d \<and> s < 14
              \<and> placed d (H db key) c (slot_at d c s) \<and> ht_map d (db, key) = None
            else ht_wf H pend d \<and> is_key_at d db key c s))"

lemma rmw_begin_spec:
  assumes hs: "hash_search search" and key: "good_key key len" and ok: "table_ok H pend ht"
    and run: "hashtable_mcmp_op_rmw_begin search H db key len (t, ht) = (r, t', ht')"
  shows "contents ht' = contents ht
    \<and> (case r of
         None \<Rightarrow> table_ok H pend ht'
       | Some st \<Rightarrow>
           rmw_ok H pend st ht' \<and> rmw_database_number st = db \<and> rmw_key st = key
           \<and> contents ht (db, key) = (if rmw_created_new st then None else Some (rmw_current_value st)))"
proof -
  let ?d = "ht_current ht"
  have wf: "ht_wf H pend ?d" and old: "ht_old ht = None" using ok by (simp_all add: table_ok_def)
  obtain r1 t1 d1 where soc: "hashtable_mcmp_support_op_search_key_or_create_new search 0 db key len
      (H db key) True (t, ?d) = (r1, (t1, d1))" by (metis prod.exhaust)
  have post: "soc_post H pend db key (t, ?d) r1 (t1, d1)"
    by (rule search_key_or_create_spec [OF hs key wf soc])
  note run' = run [unfolded hashtable_mcmp_op_rmw_begin_def prod.case Let_def hash_of_good [OF key] soc]
  consider (none) "r1 = None" | (found) c s where "r1 = Some (c, s, False)"
    | (created) c s where "r1 = Some (c, s, True)"
    by (metis option.exhaust prod.exhaust)
  then show ?thesis
  proof cases
    case none
    then show ?thesis
      using run' post similar_wf [OF _ wf] similar_map old
      by (auto simp: soc_post_def table_ok_def contents_def)
  next
    case (found c s)
    then have sim: "similar ?d d1" and "is_key_at ?d db key c s"
      using post by (auto simp: soc_post_def)
    then have at: "is_key_at d1 db key c s" and m: "ht_map d1 = ht_map ?d"
      using similar_at(1) [OF sim, of c] similar_nchunks [OF sim] similar_kvs [OF sim] similar_map [OF sim]
      by (auto simp: is_key_at_def kv_at_def)
    have wf1: "ht_wf H pend d1" by (rule similar_wf [OF sim wf])
    show ?thesis
      using run' found wf1 at m old key ht_map_at [OF wf1 at]
      by (auto simp: contents_def rmw_ok_def kv_at_def)
  next
    case (created c s)
    then have "ht_map d1 = ht_map ?d" using post by (auto simp: soc_post_def ht_map_def)
    then show ?thesis
      using run' created post key old by (auto simp: soc_post_def contents_def rmw_ok_def)
  qed
qed

lemma rmw_begin_progress:
  assumes hs: "hash_search search" and key: "good_key key len" and ok: "table_ok H pend ht"
    and run: "hashtable_mcmp_op_rmw_begin search H db key len (t, ht) = (None, t', ht')"
    and locks: "writable (id_of t) (ht_current ht)"
  shows "contents ht (db, key) = None
    \<and> (\<forall>x. home_chunk (ht_current ht) (H db key) \<le> x \<and> x < home_chunk (ht_current ht) (H db key) + 32
         \<longrightarrow> 0 \<notin> set (half_hashes (chunk_at (ht_current ht) x)))"
proof -
  let ?d = "ht_current ht"
  have wf: "ht_wf H pend ?d" using ok by (simp add: table_ok_def)
  obtain r1 t1 d1 where soc: "hashtable_mcmp_support_op_search_key_or_create_new search 0 db key len
      (H db key) True (t, ?d) = (r1, (t1, d1))" by (metis prod.exhaust)
  have "r1 = None"
    using run [unfolded hashtable_mcmp_op_rmw_begin_def prod.case Let_def hash_of_good [OF key] soc]
    by (auto split: option.splits)
  then show ?thesis
    using search_key_or_create_spec [OF hs key wf soc] locks by (simp add: soc_post_def contents_def)
qed

lemma rmw_commit_update_spec:
  fixes v :: u64
  assumes "rmw_ok H pend st ht"
  defines "ht' \<equiv> hashtable_mcmp_op_rmw_commit_update st v ht"
  shows "table_ok H pend ht'
    \<and> contents ht' = (contents ht)((rmw_database_number st, rmw_key st) \<mapsto> v)"
proof (cases "rmw_created_new st")
  case True
  then have "ht_old ht = None" and "ht_wf H (insert (rmw_chunk_index st, rmw_chunk_slot_index st) pend) (ht_current ht)"
    "(rmw_chunk_index st, rmw_chunk_slot_index st) \<notin> pend" "rmw_chunk_index st < nchunks (ht_current ht)"
    "rmw_chunk_slot_index st < 14" "good_key (rmw_key st) (rmw_key_length st)"
    "placed (ht_current ht) (H (rmw_database_number st) (rmw_key st)) (rmw_chunk_index st)
       (slot_at (ht_current ht) (rmw_chunk_index st) (rmw_chunk_slot_index st))"
    "ht_map (ht_current ht) (rmw_database_number st, rmw_key st) = None"
    using assms(1) by (simp_all add: rmw_ok_def Let_def)
  from this(1) store_created [OF this(2-8), of v] True show ?thesis
    by (simp add: ht'_def hashtable_mcmp_op_rmw_commit_update_def rmw_bucket_def Let_def table_ok_def
        contents_def)
next
  case False
  then have "ht_old ht = None" and "ht_wf H pend (ht_current ht)"
    "is_key_at (ht_current ht) (rmw_database_number st) (rmw_key st) (rmw_chunk_index st) (rmw_chunk_slot_index st)"
    using assms(1) by (simp_all add: rmw_ok_def Let_def)
  from this(1) store_found [OF this(2,3)] False show ?thesis
    by (simp add: ht'_def hashtable_mcmp_op_rmw_commit_update_def rmw_bucket_def Let_def table_ok_def
        contents_def)
qed

lemma rmw_vacate_spec:
  assumes "rmw_ok H pend st ht" and "rmw_created_new st"
  defines "d' \<equiv> upd_chunk (rmw_chunk_index st) (vacate_slot (rmw_chunk_slot_index st)) (ht_current ht)"
  shows "ht_wf H pend d'" and "ht_map d' = ht_map (ht_current ht)"
    and "contents ht (rmw_database_number st, rmw_key st) = None" and "ht_old ht = None"
  using assms wf_vacate [of H "rmw_chunk_index st" "rmw_chunk_slot_index st" pend "ht_current ht"]
  by (simp_all add: rmw_ok_def Let_def ht_map_def contents_def)

lemma rmw_commit_delete_spec:
  assumes ok: "rmw_ok H pend st ht"
  defines "ht' \<equiv> hashtable_mcmp_op_rmw_commit_delete st ht"
  shows "table_ok H pend ht'
    \<and> contents ht' = (contents ht)((rmw_database_number st, rmw_key st) := None)"
proof (cases "rmw_created_new st")
  case True
  then show ?thesis
    using rmw_vacate_spec [OF ok True]
    by (auto simp: ht'_def hashtable_mcmp_op_rmw_commit_delete_def Let_def table_ok_def contents_def fun_upd_idem)
next
  case False
  then have "ht_old ht = None" and "ht_wf H pend (ht_current ht)"
    "is_key_at (ht_current ht) (rmw_database_number st) (rmw_key st) (rmw_chunk_index st) (rmw_chunk_slot_index st)"
    using ok by (simp_all add: rmw_ok_def Let_def)
  from this(1) delete_bucket_spec [OF this(2,3)] False show ?thesis
    by (simp add: ht'_def hashtable_mcmp_op_rmw_commit_delete_def rmw_bucket_def Let_def table_ok_def
        contents_def delete_bucket_def)
qed

lemma rmw_abort_spec:
  assumes ok: "rmw_ok H pend st ht"
  defines "ht' \<equiv> hashtable_mcmp_op_rmw_abort st ht"
  shows "table_ok H pend ht' \<and> contents ht' = contents ht"
proof (cases "rmw_created_new st")
  case True
  then show ?thesis
    using rmw_vacate_spec [OF ok True]
    by (simp add: ht'_def hashtable_mcmp_op_rmw_abort_def table_ok_def contents_def)
next
  case False
  with ok show ?thesis by (simp add: ht'_def hashtable_mcmp_op_rmw_abort_def rmw_ok_def Let_def table_ok_def)
qed

section \<open>Iteration\<close>

definition bucket_of_db :: "hashtable_data \<Rightarrow> bool \<Rightarrow> u32 \<Rightarrow> nat \<Rightarrow> bool" where
  "bucket_of_db d all_databases db b \<longleftrightarrow>
     kv_filled (keys_values d ! b) \<and> (all_databases \<or> kv_database_number (keys_values d ! b) = db)"

lemma iter_match_iff:
  assumes wf: "ht_wf H {} d" and c: "c < nchunks d" and s: "s < 14"
  shows "iter_match d all_databases db c s \<longleftrightarrow> bucket_of_db d all_databases db (14 * c + s)"
proof -
  have b: "HASHTABLE_TO_BUCKET_INDEX c s = 14 * c + s"
    by (simp add: HASHTABLE_TO_BUCKET_INDEX_def table_constants)
  show ?thesis
  proof (cases "slot_at d c s = 0")
    case True
    then have "kv_free (kv_at d c s)" using wf_slot_ok [OF wf c s] by (simp add: slot_ok_def)
    then show ?thesis
      using True free_not_filled by (auto simp: iter_match_def Let_def bucket_of_db_def kv_at_def b)
  next
    case False
    then have "kv_live (kv_at d c s)" using wf_live [OF wf c s] by simp
    then show ?thesis
      using False by (auto simp: iter_match_def Let_def bucket_of_db_def kv_at_def b kv_live_def kv_filled_def)
  qed
qed

lemma iter_slots_first:
  assumes wf: "ht_wf H {} d" and c: "c < nchunks d"
  shows "s + n = 14 \<Longrightarrow> first_in (bucket_of_db d all_databases db) (14 * c + s) (14 * c + 14)
    (iter_slots d all_databases db c n s)"
proof (induction n arbitrary: s)
  case 0
  then show ?case by simp
next
  case (Suc n)
  have s: "s < 14" using Suc.prems by simp
  note m = iter_match_iff [OF wf c s, of all_databases db]
  show ?case
  proof (cases "iter_match d all_databases db c s")
    case True
    then show ?thesis using m s
      by (auto simp: first_in_def HASHTABLE_TO_BUCKET_INDEX_def table_constants mult.commute)
  next
    case False
    have "first_in (bucket_of_db d all_databases db) (14 * c + s) (14 * c + Suc s) None"
      using False m by (auto simp: first_in_def less_Suc_eq)
    then show ?thesis
      using first_in_skip [OF _ Suc.IH [of "Suc s"]] Suc.prems False by simp
  qed
qed

lemma iter_chunks_first:
  assumes wf: "ht_wf H {} d"
  shows "c + n = nchunks d \<Longrightarrow> s < 14 \<Longrightarrow> unat distance + 14 * n < unat max_distance
    \<Longrightarrow> first_in (bucket_of_db d all_databases db) (14 * c + s) (14 * nchunks d)
          (iter_chunks d all_databases db max_distance n c s distance)
      \<or> n = 0"
proof (induction n arbitrary: c s distance)
  case 0
  then show ?case by simp
next
  case (Suc n)
  have c: "c < nchunks d" using Suc.prems by simp
  let ?P = "bucket_of_db d all_databases db"
  have go: "\<not> max_distance \<le> distance" using Suc.prems(3) by (simp add: word_le_nat_alt)
  have dist: "unat (distance + of_nat (14 - s)) \<le> unat distance + 14"
  proof -
    have "unat (of_nat (14 - s) :: u64) = 14 - s" by (rule unat_of_nat_small) simp
    then show ?thesis using unat_plus_if' [of distance "of_nat (14 - s)"] by (simp split: if_splits)
  qed
  have next_chunk: "first_in ?P (14 * Suc c) (14 * nchunks d)
      (iter_chunks d all_databases db max_distance n (Suc c) 0 distance')"
    if "unat distance' \<le> unat distance + 14" for distance'
  proof (cases n)
    case 0
    then show ?thesis using Suc.prems(1) by simp
  next
    case (Suc k)
    then show ?thesis using Suc.IH [of "Suc c" 0 distance'] Suc.prems(1,3) that by simp
  qed
  show ?case
  proof (cases "slots_occupied (chunk_at d c) = 0")
    case True
    have none: "\<not> ?P (14 * c + s')" if "s' < 14" for s'
      using iter_match_iff [OF wf c that, of all_databases db] wf_empty_chunk [OF wf c True that]
      by (simp add: iter_match_def)
    have "\<not> ?P b" if "14 * c + s \<le> b" and "b < 14 * Suc c" for b
    proof -
      have "b - 14 * c < 14" and "14 * c + (b - 14 * c) = b" using that by auto
      with none show ?thesis by metis
    qed
    then have "first_in ?P (14 * c + s) (14 * Suc c) None" by (simp add: first_in_def)
    then show ?thesis
      using first_in_skip [OF _ next_chunk [OF dist]] True go Suc.prems(2) by (simp add: table_constants)
  next
    case False
    note first = iter_slots_first [OF wf c, of s "14 - s" all_databases db]
    show ?thesis
    proof (cases "iter_slots d all_databases db c (14 - s) s")
      case None
      then have "first_in ?P (14 * c + s) (14 * Suc c) None"
        using first Suc.prems(2) by (simp add: add.commute)
      then show ?thesis
        using first_in_skip [OF _ next_chunk [of distance]] None False go Suc.prems(2)
        by (simp add: table_constants max_def)
    next
      case (Some b)
      then show ?thesis
        using first_in_weaken [of ?P "14 * c + s" "14 * c + 14" b "14 * nchunks d"] first False go Suc.prems(2) c
        by (simp add: table_constants)
    qed
  qed
qed

lemma shape_small: "table_shape d \<Longrightarrow> 14 * nchunks d < 2 ^ 64 - 1"
proof -
  assume sh: "table_shape d"
  then obtain m where m: "m \<le> 63" "buckets_count d = 2 ^ m" by (auto simp: table_shape_def)
  have "(2 :: nat) ^ m \<le> 2 ^ 63" using m by (intro power_increasing) auto
  moreover have "nchunks d = 2 ^ m div 14 + 33"
    using sh m by (simp add: table_shape_def unat_power2)
  ultimately show ?thesis by simp
qed

lemma iter_internal_first:
  assumes wf: "ht_wf H {} d" and b: "bucket_index < 14 * nchunks d"
  shows "first_in (bucket_of_db d all_databases db) bucket_index (14 * nchunks d)
    (hashtable_mcmp_op_iter_internal d all_databases db bucket_index (- 1))"
proof -
  let ?c = "bucket_index div 14" and ?s = "bucket_index mod 14"
  have cn: "?c < nchunks d" using b by simp
  have "unat (- 1 :: u64) = 2 ^ 64 - 1" 
    by (simp add: unsigned_minus_1_eq_mask mask_eq_exp_minus_1)
  then have "unat (0 :: u64) + 14 * (nchunks d - ?c) < unat (- 1 :: u64)"
    using shape_small [OF wf_shape [OF wf]] by simp
  moreover have "?c + (nchunks d - ?c) = nchunks d" "?s < 14" "nchunks d - ?c \<noteq> 0" using cn by auto
  ultimately have "first_in (bucket_of_db d all_databases db) (14 * ?c + ?s) (14 * nchunks d)
      (iter_chunks d all_databases db (- 1) (nchunks d - ?c) ?c ?s 0)"
    using iter_chunks_first [OF wf, of ?c "nchunks d - ?c" ?s 0 "- 1" all_databases db] by simp
  moreover have "14 * ?c + ?s = bucket_index" by simp
  moreover have "unat (chunks_count d) = nchunks d" using wf_shape [OF wf] by (simp add: table_shape_def)
  ultimately show ?thesis
    by (simp add: hashtable_mcmp_op_iter_internal_def HASHTABLE_TO_CHUNK_INDEX_def
        HASHTABLE_TO_CHUNK_SLOT_INDEX_def table_constants Let_def)
qed

section \<open>Creation\<close>

lemma data_init_shape:
  assumes "hashtable_mcmp_data_init bc = Some d"
  shows "table_shape d"
    and "half_hashes_chunk d = replicate (nchunks d) empty_chunk"
    and "keys_values d = replicate (length (keys_values d)) empty_key_value"
proof -
  have p: "pow2_is bc" using assms by (simp add: hashtable_mcmp_data_init_def split: if_splits)
  then obtain m where "m < 64" and m2: "bc = 2 ^ m" unfolding pow2_is_iff by blast
  then have m: "m \<le> 63" "bc = 2 ^ m" by auto
  have bc: "unat bc = 2 ^ m" using m by (simp add: unat_power2)
  have le: "(2 :: nat) ^ m \<le> 2 ^ 63" using m by (intro power_increasing) auto
  let ?real = "bc - bc mod 14 + 14 + 32 * 14"
  have "bc mod 14 \<le> bc" by (simp add: word_le_nat_alt unat_mod)
  then have "unat (bc - bc mod 14) = unat bc - unat (bc mod 14)" by (rule unat_sub)
  also have "\<dots> = 2 ^ m - 2 ^ m mod 14" by (simp add: unat_mod bc)
  finally have "unat (bc - bc mod 14) = 14 * (2 ^ m div 14)"
    by (simp only: minus_mod_eq_mult_div)
  moreover have "?real = (bc - bc mod 14) + 462" by simp
  ultimately have real: "unat ?real = 14 * (2 ^ m div 14 + 33)"
    using le by (simp add: unat_word_ariths)
  then have "unat (?real div 14) = 2 ^ m div 14 + 33" by (simp add: unat_div)
  then show "table_shape d"
    and "half_hashes_chunk d = replicate (nchunks d) empty_chunk"
    and "keys_values d = replicate (length (keys_values d)) empty_key_value"
    using assms p real m bc
    by (auto simp: hashtable_mcmp_data_init_def Let_def table_constants table_shape_def empty_chunk_def)
qed

definition idle :: "hashtable_data \<Rightarrow> bool" where
  "idle d \<longleftrightarrow>
     (\<forall>c<nchunks d. transaction_id (chunk_lock (chunk_at d c)) = 0
        \<and> readers_count (chunk_lock (chunk_at d c)) = 0)"

lemma data_init_spec:
  assumes init: "hashtable_mcmp_data_init bc = Some d"
  shows "ht_wf H {} d" and "ht_map d = Map.empty" and "idle d"
proof -
  note sh = data_init_shape [OF init]
  have kv: "keys_values d ! b = empty_key_value" if "b < length (keys_values d)" for b
    using sh(3) that by (metis nth_replicate)
  have ch: "chunk_at d c = empty_chunk" if "c < nchunks d" for c
    using sh(2) that by (metis nth_replicate)
  have none: "\<not> has_ident (keys_values d) i k" for i k
    using kv [of i] by (auto simp: has_ident_def empty_key_value_def kv_filled_def)
  have "chunk_ok empty_chunk"
    by (simp add: chunk_ok_def empty_chunk_def slots_occupied_def is_full_def overflowed_chunks_counter_def
        md_defs used_slots_def)
  moreover have "slot_ok H {} d c s" if "c < nchunks d" "s < 14" for c s
    using that ch [of c] kv [of "HASHTABLE_TO_BUCKET_INDEX c s"] bucket_index_less [OF that] sh(1)
    by (simp add: slot_ok_def kv_at_def empty_chunk_def empty_key_value_def kv_free_def table_constants
        table_shape_def)
  ultimately show "ht_wf H {} d"
    using sh(1) ch none by (simp add: ht_wf_def unique_keys_def)
  show "ht_map d = Map.empty" using none by (auto simp: ht_map_def fun_eq_iff kv_map_None)
  show "idle d" using ch by (simp add: idle_def empty_chunk_def)
qed

lemma init_spec:
  assumes "hashtable_mcmp_init initial_size numa_aware numa = Some ht"
  shows "table_ok H {} ht" and "contents ht = Map.empty" and "idle (ht_current ht)"
  using assms data_init_spec
  by (auto simp: hashtable_mcmp_init_def table_ok_def contents_def split: option.splits if_splits)

end
