(* ===== verification/Kv_Store.thy ===== *)
theory Kv_Store
  imports Prelude
begin

text \<open>
  What a client may rely on of a key-value store whose insertions can fail: a map of its contents
  that lookups read, successful insertions and removals update, and nothing else changes. The
  tables of the development are interpretations; the client lemma is that every history of
  commands on a store is a history of a map.
\<close>

datatype ('k, 'v) kv_cmd = Cmd_get 'k | Cmd_put 'k 'v | Cmd_del 'k

datatype 'v kv_reply = Reply_value "'v option" | Reply_done bool

fun cmd_key :: "('k, 'v) kv_cmd \<Rightarrow> 'k" where
  "cmd_key (Cmd_get k) = k"
| "cmd_key (Cmd_put k v) = k"
| "cmd_key (Cmd_del k) = k"

text \<open>The replies a map may give: an insertion may fail, a removal succeeds on a present key.\<close>

inductive map_history :: "('k \<Rightarrow> 'v option) \<Rightarrow> (('k, 'v) kv_cmd \<times> 'v kv_reply) list
    \<Rightarrow> ('k \<Rightarrow> 'v option) \<Rightarrow> bool" where
  history_nil: "map_history m [] m"
| history_get: "map_history m h m' \<Longrightarrow> map_history m ((Cmd_get k, Reply_value (m k)) # h) m'"
| history_put: "map_history (m(k \<mapsto> v)) h m' \<Longrightarrow> map_history m ((Cmd_put k v, Reply_done True) # h) m'"
| history_full: "map_history m h m' \<Longrightarrow> map_history m ((Cmd_put k v, Reply_done False) # h) m'"
| history_del: "map_history (m(k := None)) h m'
    \<Longrightarrow> map_history m ((Cmd_del k, Reply_done (m k \<noteq> None)) # h) m'"

inductive_cases map_history_cons: "map_history m (x # h) m'"

text \<open>Running commands on a store that is given by its three operations.\<close>

fun exec_cmd :: "('k \<Rightarrow> 's \<Rightarrow> 'v option \<times> 's) \<Rightarrow> ('k \<Rightarrow> 'v \<Rightarrow> 's \<Rightarrow> bool \<times> 's)
    \<Rightarrow> ('k \<Rightarrow> 's \<Rightarrow> bool \<times> 's) \<Rightarrow> ('k, 'v) kv_cmd \<Rightarrow> 's \<Rightarrow> 'v kv_reply \<times> 's" where
  "exec_cmd get put del (Cmd_get k) s = (let (r, s') = get k s in (Reply_value r, s'))"
| "exec_cmd get put del (Cmd_put k v) s = (let (ok, s') = put k v s in (Reply_done ok, s'))"
| "exec_cmd get put del (Cmd_del k) s = (let (ok, s') = del k s in (Reply_done ok, s'))"

fun exec_cmds :: "('k \<Rightarrow> 's \<Rightarrow> 'v option \<times> 's) \<Rightarrow> ('k \<Rightarrow> 'v \<Rightarrow> 's \<Rightarrow> bool \<times> 's)
    \<Rightarrow> ('k \<Rightarrow> 's \<Rightarrow> bool \<times> 's) \<Rightarrow> ('k, 'v) kv_cmd list \<Rightarrow> 's
    \<Rightarrow> (('k, 'v) kv_cmd \<times> 'v kv_reply) list \<times> 's" where
  "exec_cmds get put del [] s = ([], s)"
| "exec_cmds get put del (c # cs) s =
     (let (r, s1) = exec_cmd get put del c s; (h, s2) = exec_cmds get put del cs s1
      in ((c, r) # h, s2))"

locale kv_store =
  fixes inv :: "'s \<Rightarrow> bool"
    and view :: "'s \<Rightarrow> 'k \<Rightarrow> 'v option"
    and valid :: "'k \<Rightarrow> bool"
    and get :: "'k \<Rightarrow> 's \<Rightarrow> 'v option \<times> 's"
    and put :: "'k \<Rightarrow> 'v \<Rightarrow> 's \<Rightarrow> bool \<times> 's"
    and del :: "'k \<Rightarrow> 's \<Rightarrow> bool \<times> 's"
  assumes get_law: "inv s \<Longrightarrow> valid k \<Longrightarrow> get k s = (r, s') \<Longrightarrow> inv s' \<and> view s' = view s \<and> r = view s k"
    and put_law: "inv s \<Longrightarrow> valid k \<Longrightarrow> put k v s = (ok, s')
      \<Longrightarrow> inv s' \<and> view s' = (if ok then (view s)(k \<mapsto> v) else view s)"
    and del_law: "inv s \<Longrightarrow> valid k \<Longrightarrow> del k s = (ok, s')
      \<Longrightarrow> inv s' \<and> ok = (view s k \<noteq> None) \<and> view s' = (view s)(k := None)"
begin

lemma exec_history:
  assumes "inv s" and "valid (cmd_key c)" and "exec_cmd get put del c s = (r, s')"
  shows "inv s' \<and> (\<forall>h m. map_history (view s') h m \<longrightarrow> map_history (view s) ((c, r) # h) m)"
proof (cases c)
  case (Cmd_get k)
  obtain v s1 where p: "get k s = (v, s1)" by (metis prod.exhaust)
  with Cmd_get assms have "r = Reply_value v" "s' = s1" by auto
  with get_law [OF assms(1) _ p] Cmd_get assms(2) show ?thesis
    using history_get [of "view s"] by auto
next
  case (Cmd_put k v)
  obtain ok s1 where p: "put k v s = (ok, s1)" by (metis prod.exhaust)
  with Cmd_put assms have "r = Reply_done ok" "s' = s1" by auto
  with put_law [OF assms(1) _ p] Cmd_put assms(2) show ?thesis
    by (cases ok) (auto intro: history_put history_full)
next
  case (Cmd_del k)
  obtain ok s1 where p: "del k s = (ok, s1)" by (metis prod.exhaust)
  with Cmd_del assms have "r = Reply_done ok" "s' = s1" by auto
  with del_law [OF assms(1) _ p] Cmd_del assms(2) show ?thesis
    using history_del [of "view s" k] by (auto simp del: not_None_eq)
qed

lemma exec_all_history:
  "inv s \<Longrightarrow> \<forall>c\<in>set cs. valid (cmd_key c) \<Longrightarrow> exec_cmds get put del cs s = (h, s')
    \<Longrightarrow> inv s' \<and> map fst h = cs \<and> map_history (view s) h (view s')"
proof (induction cs arbitrary: s h s')
  case Nil
  then show ?case by (auto intro: history_nil)
next
  case (Cons c cs)
  obtain r s1 where c: "exec_cmd get put del c s = (r, s1)" by (metis prod.exhaust)
  obtain h2 s2 where cs: "exec_cmds get put del cs s1 = (h2, s2)" by (metis prod.exhaust)
  have 1: "inv s1 \<and> (\<forall>h m. map_history (view s1) h m \<longrightarrow> map_history (view s) ((c, r) # h) m)"
    using exec_history [OF _ _ c] Cons.prems by simp
  have "inv s2 \<and> map fst h2 = cs \<and> map_history (view s1) h2 (view s2)"
    using Cons.IH [OF _ _ cs] 1 Cons.prems(2) by simp
  with 1 show ?case using Cons.prems(3) c cs by auto
qed

end

end
