(* ===== verification/Mcmp_Run.thy ===== *)
theory Mcmp_Run
  imports Mcmp_Correct Kv_Store
begin

text \<open>
  One command on the hash table, the way the callers run it: acquire a transaction, do the
  operation, release the transaction. The locks that the operation takes are those its
  transaction lists, so the release leaves every chunk unlocked, and a table that only such
  commands touch is a key-value store.
\<close>

section \<open>The locks of a transaction\<close>

definition lock_held :: "ht_place transaction \<Rightarrow> nat \<Rightarrow> transaction_rwspinlock \<Rightarrow> bool" where
  "lock_held t c lk \<longleftrightarrow>
     readers_count lk = of_nat (reads_of (0, c) (locks_list t))
     \<and> transaction_id lk = (if writes_of (0, c) (locks_list t) then id_of t else 0)"

definition locks_held :: "ht_state \<Rightarrow> bool" where
  "locks_held st \<longleftrightarrow> (\<forall>c<nchunks (snd st). lock_held (fst st) c (chunk_lock (chunk_at (snd st) c)))"

lemma lock_held_request:
  assumes "f \<in> {transaction_lock_for_read, transaction_lock_for_write, transaction_upgrade_lock_for_write}"
    and "f t (0, c) lk = (ok, t', lk')"
  shows "lock_held t c lk \<Longrightarrow> lock_held t' c lk'"
    and "x \<noteq> c \<Longrightarrow> lock_held t x l \<Longrightarrow> lock_held t' x l"
  using assms by (auto simp: lock_held_def lock_request_defs lock_simps split: if_splits)

lemma chunk_at_upd_chunk_any:
  "x < nchunks d \<Longrightarrow> chunk_at (upd_chunk c f d) x = (if x = c then f (chunk_at d c) else chunk_at d x)"
  by (simp add: upd_chunk_def nth_list_update)

lemma locks_held_lock:
  assumes f: "f \<in> {transaction_lock_for_read, transaction_lock_for_write, transaction_upgrade_lock_for_write}"
    and held: "locks_held (t, d)" and run: "chunk_lock_with f 0 c (t, d) = (ok, st')"
  shows "locks_held st'"
proof (cases "transaction_rwspinlock_is_owned_by_transaction (chunk_lock (chunk_at d c)) t")
  case True
  then show ?thesis using held run by (simp add: chunk_lock_with_def)
next
  case False
  obtain ok' t' lk' where req: "f t (0, c) (chunk_lock (chunk_at d c)) = (ok', t', lk')" by (metis prod.exhaust)
  with False run have "st' = (t', upd_chunk c (\<lambda>ch. ch\<lparr>chunk_lock := lk'\<rparr>) d)"
    by (simp add: chunk_lock_with_def)
  then show ?thesis
    using held lock_held_request [OF f req] by (auto simp: locks_held_def chunk_at_upd_chunk_any)
qed

lemma locks_held_chunk:
  assumes "locks_held (t, d)"
    and "\<And>ch. transaction_id (chunk_lock (f ch)) = transaction_id (chunk_lock ch)"
    and "\<And>ch. readers_count (chunk_lock (f ch)) = readers_count (chunk_lock ch)"
  shows "locks_held (t, upd_chunk c f d)"
  using assms by (auto simp: locks_held_def lock_held_def chunk_at_upd_chunk_any)

lemma locks_held_kv [simp]: "locks_held (t, upd_kv b f d) \<longleftrightarrow> locks_held (t, d)"
  by (simp add: locks_held_def)

lemma chunk_locks_held:
  "locks_held st \<Longrightarrow> chunk_read_lock 0 c st = (ok, st') \<Longrightarrow> locks_held st'"
  "locks_held st \<Longrightarrow> chunk_write_lock 0 c st = (ok, st') \<Longrightarrow> locks_held st'"
  "locks_held st \<Longrightarrow> chunk_upgrade_lock 0 c st = (ok, st') \<Longrightarrow> locks_held st'"
  using locks_held_lock [of _ "fst st" "snd st" c ok st']
  by (auto simp: chunk_read_lock_def chunk_write_lock_def chunk_upgrade_lock_def)

lemma chunk_op_locks [simp]:
  "transaction_id (chunk_lock (occupy_slot s w ch)) = transaction_id (chunk_lock ch)"
  "readers_count (chunk_lock (occupy_slot s w ch)) = readers_count (chunk_lock ch)"
  "transaction_id (chunk_lock (vacate_slot s ch)) = transaction_id (chunk_lock ch)"
  "readers_count (chunk_lock (vacate_slot s ch)) = readers_count (chunk_lock ch)"
  by (simp_all add: occupy_slot_def vacate_slot_def Let_def)

lemma search_key_chunks_held:
  "locks_held st \<Longrightarrow> search_key_chunks search 0 db key len q start n c st = (r, st') \<Longrightarrow> locks_held st'"
proof (induction n arbitrary: c st)
  case (Suc n)
  obtain ok st1 where lk: "(if c \<noteq> start then chunk_read_lock 0 c st else (True, st)) = (ok, st1)"
    by (metis prod.exhaust)
  have "locks_held st1"
    using lk chunk_locks_held(1) [OF Suc.prems(1)] Suc.prems(1) by (auto split: if_splits)
  then show ?case
    using Suc.prems lk Suc.IH [of st1] Suc.IH [of st]
    by (auto simp: Let_def split: if_splits option.splits)
qed simp

lemma search_key_held:
  assumes "locks_held st" and "hashtable_mcmp_support_op_search_key search 0 db key len hash st = (r, st')"
  shows "locks_held st'"
proof -
  obtain ok st1 where lk: "chunk_read_lock 0 (home_chunk (snd st) hash) st = (ok, st1)" by (metis prod.exhaust)
  show ?thesis
    using assms(2) lk chunk_locks_held(1) [OF assms(1) lk] search_key_chunks_held
    by (auto simp: hashtable_mcmp_support_op_search_key_def Let_def split: if_splits
        simp del: search_key_chunks.simps)
qed

lemma soc_lock_held: "locks_held (soc_st s) \<Longrightarrow> soc_lock 0 c s = (ok, s') \<Longrightarrow> locks_held (soc_st s')"
  using chunk_locks_held(2) [of "soc_st s" c]
  by (auto simp: soc_lock_def Let_def split: if_splits prod.splits)

lemma soc_update_overflowed_held:
  "locks_held (t, d) \<Longrightarrow> locks_held (t, soc_update_overflowed start c d)"
  unfolding soc_update_overflowed_def Let_def by (rule locks_held_chunk) simp_all

lemma soc_search_held:
  "locks_held (soc_st s) \<Longrightarrow> soc_search search 0 db key len q start n c s = (r, s') \<Longrightarrow> locks_held (soc_st s')"
proof (induction n arbitrary: c s)
  case (Suc n)
  obtain ok s1 where lk: "soc_lock 0 c s = (ok, s1)" by (metis prod.exhaust)
  have "locks_held (soc_st s1)" by (rule soc_lock_held [OF Suc.prems(1) lk])
  then show ?case
    using Suc.prems(2) lk Suc.IH [of "soc_freespace c s1"]
      soc_update_overflowed_held [of "fst (soc_st s1)" "snd (soc_st s1)"]
    by (auto simp: Let_def split: if_splits option.splits)
qed simp

lemma soc_create_held:
  "locks_held (soc_st s) \<Longrightarrow> soc_create search 0 q start n c s = (r, s') \<Longrightarrow> locks_held (soc_st s')"
proof (induction n arbitrary: c s)
  case (Suc n)
  obtain ok s1 where lk: "soc_lock 0 c s = (ok, s1)" by (metis prod.exhaust)
  have h: "locks_held (fst (soc_st s1), snd (soc_st s1))" using soc_lock_held [OF Suc.prems(1) lk] by simp
  let ?full = "s1\<lparr>soc_st := (fst (soc_st s1), upd_chunk c (set_is_full True) (snd (soc_st s1)))\<rparr>"
  have "locks_held (soc_st ?full)"
    using locks_held_chunk [OF h, of "set_is_full True" c] by simp
  moreover have "locks_held (fst (soc_st s1), soc_update_overflowed start c (upd_chunk c (occupy_slot sl w) (snd (soc_st s1))))"
    for sl w
    by (intro soc_update_overflowed_held locks_held_chunk [OF h]) simp_all
  ultimately show ?case
    using Suc.prems(2) lk h Suc.IH [of ?full]
    by (auto simp: Let_def split: if_splits option.splits)
qed simp

lemma soc_held:
  assumes "locks_held st"
    and "hashtable_mcmp_support_op_search_key_or_create_new search 0 db key len hash True st = (r, st')"
  shows "locks_held st'"
proof -
  let ?start = "home_chunk (snd st) hash"
  obtain ok st1 where lk: "chunk_write_lock 0 ?start st = (ok, st1)" by (metis prod.exhaust)
  have h1: "locks_held st1" by (rule chunk_locks_held(2) [OF assms(1) lk])
  let ?s0 = "\<lparr>soc_st = st1, locked_up_to_chunk_index = ?start,
        found_chunk_with_freespace = False, chunk_first_with_freespace = 0\<rparr>"
  obtain r1 s1 where p1: "soc_search search 0 db key len (quarter_of hash) ?start
      (Suc (unat (overflowed_chunks_counter (chunk_at (snd st1) ?start)))) ?start ?s0 = (r1, s1)"
    by (metis prod.exhaust)
  have h2: "locks_held (soc_st s1)" using soc_search_held [OF _ p1] h1 by simp
  obtain r2 s2 where p2: "soc_create search 0 (quarter_of hash) ?start
      (?start + HASHTABLE_HALF_HASHES_CHUNK_SEARCH_MAX - chunk_first_with_freespace s1)
      (chunk_first_with_freespace s1) s1 = (r2, s2)" by (metis prod.exhaust)
  have "locks_held (soc_st s2)" by (rule soc_create_held [OF h2 p2])
  with h1 h2 assms(2) lk p1 p2 show ?thesis
    by (auto simp: hashtable_mcmp_support_op_search_key_or_create_new_def Let_def
        simp del: soc_search.simps soc_create.simps split: if_splits soc_result.splits)
qed

lemma op_set_held:
  assumes "locks_held (t, ht_current ht)"
    and "hashtable_mcmp_op_set search H db key len v (t, ht) = (r, t', ht')"
  shows "locks_held (t', ht_current ht')"
proof -
  obtain r1 t1 d1 where soc: "hashtable_mcmp_support_op_search_key_or_create_new search 0 db key len
      (hash_of H db key len) True (t, ht_current ht) = (r1, (t1, d1))" by (metis prod.exhaust)
  have "locks_held (t1, d1)" by (rule soc_held [OF assms(1) soc])
  then show ?thesis
    using assms(2) soc
    by (auto simp: hashtable_mcmp_op_set_def Let_def split: option.splits)
qed

lemma op_get_held:
  assumes "locks_held (t, ht_current ht)" and "ht_old ht = None"
    and "hashtable_mcmp_op_get search H db key len (t, ht) = (r, t', ht')"
  shows "locks_held (t', ht_current ht')"
proof -
  obtain r1 t1 d1 where sk: "hashtable_mcmp_support_op_search_key search 0 db key len
      (hash_of H db key len) (t, ht_current ht) = (r1, (t1, d1))" by (metis prod.exhaust)
  show ?thesis
    using search_key_held [OF assms(1) sk] assms(3) sk
    by (auto simp: hashtable_mcmp_op_get_def over_tables_current [OF assms(2)] op_get_body_def Let_def)
qed

lemma op_delete_held:
  assumes "locks_held (t, ht_current ht)" and "ht_old ht = None"
    and "hashtable_mcmp_op_delete search H db key len (t, ht) = (r, t', ht')"
  shows "locks_held (t', ht_current ht')"
proof -
  obtain r1 t1 d1 where sk: "hashtable_mcmp_support_op_search_key search 0 db key len
      (hash_of H db key len) (t, ht_current ht) = (r1, (t1, d1))" by (metis prod.exhaust)
  have h1: "locks_held (t1, d1)" by (rule search_key_held [OF assms(1) sk])
  note run = assms(3) [unfolded hashtable_mcmp_op_delete_def over_tables_current [OF assms(2)]]
  show ?thesis
  proof (cases r1)
    case None
    then show ?thesis using run sk h1 by (auto simp: op_delete_body_def)
  next
    case (Some cs)
    obtain c s where cs: "cs = (c, s)" by force
    obtain ok t2 d2 where lk: "chunk_upgrade_lock 0 c (t1, d1) = (ok, (t2, d2))" by (metis prod.exhaust)
    have h2: "locks_held (t2, d2)" by (rule chunk_locks_held(3) [OF h1 lk])
    then have "locks_held (t2, delete_bucket c s d2)"
      unfolding delete_bucket_def locks_held_kv by (rule locks_held_chunk) simp_all
    with h1 h2 show ?thesis
      using run sk Some cs lk by (auto simp: op_delete_body_def Let_def split: if_splits)
  qed
qed

section \<open>The upgrade of the lock in a deletion\<close>

definition takeable :: "u32 \<Rightarrow> transaction_rwspinlock \<Rightarrow> bool" where
  "takeable tid lk \<longleftrightarrow> transaction_id lk = tid \<or> transaction_id lk = 0 \<and> readers_count lk = 0"

definition upgradable :: "u32 \<Rightarrow> transaction_rwspinlock \<Rightarrow> bool" where
  "upgradable tid lk \<longleftrightarrow> transaction_id lk = tid \<or> transaction_id lk = 0 \<and> readers_count lk = 1"

lemma chunk_read_lock_upgradable:
  assumes "takeable (id_of t) (chunk_lock (chunk_at d c))" and "c < nchunks d"
    and "chunk_read_lock tbl c (t, d) = (ok, t', d')"
  shows "upgradable (id_of t) (chunk_lock (chunk_at d' c))"
    and "x \<noteq> c \<Longrightarrow> chunk_at d' x = chunk_at d x"
  using assms
  by (auto simp: takeable_def upgradable_def chunk_read_lock_def chunk_lock_with_def Let_def lock_request_defs
      upd_chunk_def transaction_rwspinlock_is_owned_by_transaction_def split: if_splits)

lemma chunk_upgrade_lock_ok:
  "upgradable (id_of t) (chunk_lock (chunk_at d c)) \<Longrightarrow> chunk_upgrade_lock tbl c (t, d) = (ok, st') \<Longrightarrow> ok"
  by (auto simp: upgradable_def chunk_upgrade_lock_def chunk_lock_with_def Let_def lock_request_defs
      transaction_rwspinlock_is_owned_by_transaction_def split: if_splits)

lemma search_key_chunks_upgradable:
  "search_key_chunks search tbl db key len q start n c (t, d) = (Some (c', s), (t', d'))
    \<Longrightarrow> c + n \<le> nchunks d
    \<Longrightarrow> (\<forall>x. c \<le> x \<and> x < nchunks d \<and> x \<noteq> start \<longrightarrow> takeable (id_of t) (chunk_lock (chunk_at d x)))
    \<Longrightarrow> upgradable (id_of t) (chunk_lock (chunk_at d start))
    \<Longrightarrow> upgradable (id_of t') (chunk_lock (chunk_at d' c'))"
proof (induction n arbitrary: c t d)
  case (Suc n)
  have c: "c < nchunks d" using Suc.prems by simp
  obtain ok t1 d1 where lk: "(if c \<noteq> start then chunk_read_lock tbl c (t, d) else (True, (t, d))) = (ok, (t1, d1))"
    by (metis prod.exhaust)
  have tid: "id_of t1 = id_of t" and n1: "nchunks d1 = nchunks d"
    using lk chunk_read_lock_same [OF _ c] same_table_nchunks by (auto split: if_splits)
  have at: "upgradable (id_of t) (chunk_lock (chunk_at d1 c))"
    using lk chunk_read_lock_upgradable(1) [OF _ c] Suc.prems(3,4) c by (auto split: if_splits)
  have others: "chunk_at d1 x = chunk_at d x" if "x \<noteq> c" for x
    using lk chunk_read_lock_upgradable(2) [OF _ c _ that] Suc.prems(3) c by (auto split: if_splits)
  have start1: "upgradable (id_of t1) (chunk_lock (chunk_at d1 start))"
    using at others [of start] Suc.prems(4) tid by (cases "c = start") simp_all
  have rest: "\<forall>x. Suc c \<le> x \<and> x < nchunks d1 \<and> x \<noteq> start \<longrightarrow> takeable (id_of t1) (chunk_lock (chunk_at d1 x))"
    using Suc.prems(3) others n1 tid by simp
  show ?case
  proof (cases "slots_occupied (chunk_at d c) = 0")
    case True
    then show ?thesis
      using Suc.prems Suc.IH [of "Suc c" t d] by simp
  next
    case False
    note run = Suc.prems(1) [simplified search_key_chunks.simps snd_conv False if_False lk Let_def prod.case]
    show ?thesis
      using run Suc.IH [of "Suc c" t1 d1, OF _ _ rest start1] at tid n1 Suc.prems(2)
      by (auto split: if_splits option.splits)
  qed
qed simp

lemma search_key_upgradable:
  assumes wf: "ht_wf H {} d" and idle: "idle d"
    and run: "hashtable_mcmp_support_op_search_key search tbl db key len hash (t, d) = (Some (c', s), (t', d'))"
  shows "upgradable (id_of t') (chunk_lock (chunk_at d' c'))"
proof -
  let ?start = "home_chunk d hash"
  have start: "?start + 32 < nchunks d" by (rule home_chunk_less [OF wf_shape [OF wf]])
  then have sn: "?start < nchunks d" by simp
  obtain ok t1 d1 where lk: "chunk_read_lock tbl ?start (t, d) = (ok, (t1, d1))" by (metis prod.exhaust)
  have same: "same_table d d1" and tid: "id_of t1 = id_of t" using chunk_read_lock_same [OF lk sn] by auto
  have free: "takeable (id_of t) (chunk_lock (chunk_at d x))" if "x < nchunks d" for x
    using idle that by (simp add: idle_def takeable_def)
  note up = chunk_read_lock_upgradable [OF free [OF sn] sn lk]
  have ov: "unat (overflowed_chunks_counter (chunk_at d1 ?start)) < 32"
    using wf_chunk_ok [OF wf sn] same_table_meta(1) [OF same sn] by (simp add: chunk_ok_def)
  have loop: "search_key_chunks search tbl db key len (quarter_of hash) ?start
      (Suc (unat (overflowed_chunks_counter (chunk_at d1 ?start)))) ?start (t1, d1) = (Some (c', s), (t', d'))"
    using run lk
    by (simp add: hashtable_mcmp_support_op_search_key_def Let_def del: search_key_chunks.simps split: if_splits)
  show ?thesis
    by (rule search_key_chunks_upgradable [OF loop])
      (use same_table_nchunks [OF same] ov start up free tid in auto)
qed

lemma op_delete_progress:
  assumes hs: "hash_search search" and key: "good_key key len" and ok: "table_ok H {} ht"
    and idle: "idle (ht_current ht)"
    and run: "hashtable_mcmp_op_delete search H db key len (t, ht) = (r, t', ht')"
  shows "r = contents ht (db, key)"
proof -
  let ?d = "ht_current ht"
  have wf: "ht_wf H {} ?d" and old: "ht_old ht = None" using ok by (simp_all add: table_ok_def)
  obtain r1 t1 d1 where sk: "hashtable_mcmp_support_op_search_key search 0 db key len
      (H db key) (t, ?d) = (r1, (t1, d1))" by (metis prod.exhaust)
  note post = search_key_spec [OF hs key wf sk]
  have same: "same_table ?d d1" using post by blast
  have "readable (id_of t) ?d" using idle by (simp add: idle_def readable_def)
  note run' = run [unfolded hashtable_mcmp_op_delete_def over_tables_current [OF old] Let_def hash_of_good [OF key]]
  show ?thesis
  proof (cases r1)
    case None
    then show ?thesis
      using run' sk post \<open>readable (id_of t) ?d\<close> by (auto simp: op_delete_body_def contents_def)
  next
    case (Some cs)
    obtain c s where cs: "cs = (c, s)" by force
    have wf1: "ht_wf H {} d1" by (rule same_table_wf [OF same wf])
    have at: "is_key_at d1 db key c s" using post Some cs is_key_at_same [OF same] by simp
    obtain lok t2 d2 where lk: "chunk_upgrade_lock 0 c (t1, d1) = (lok, (t2, d2))" by (metis prod.exhaust)
    have "lok" using chunk_upgrade_lock_ok [OF search_key_upgradable [OF wf idle sk [unfolded Some cs]] lk] .
    then show ?thesis
      using run' op_delete_body_found [OF wf1 at sk [unfolded Some cs] lk] ht_map_at [OF wf1 at]
        same_table_map [OF same]
      by (simp add: contents_def)
  qed
qed

section \<open>Acquire, operate, release\<close>

text \<open>\<open>transaction_release\<close> with the locks of the chunks of the current table as its store.\<close>

definition release_locks :: "ht_env \<Rightarrow> ht_env" where
  "release_locks env =
     (let (t, ht) = env; d = ht_current ht;
          (t', L) = transaction_release t (\<lambda>(tbl, c). chunk_lock (half_hashes_chunk d ! c))
      in (t', ht\<lparr>ht_current := d\<lparr>half_hashes_chunk :=
                map (\<lambda>c. (half_hashes_chunk d ! c)\<lparr>chunk_lock := L (0, c)\<rparr>)
                  [0..<length (half_hashes_chunk d)]\<rparr>\<rparr>))"

type_synonym ht_store = "transaction_manager \<times> hashtable"

definition run_command :: "u32 \<Rightarrow> (ht_env \<Rightarrow> 'r \<times> ht_env) \<Rightarrow> ht_store \<Rightarrow> 'r \<times> ht_store" where
  "run_command worker oper store =
     (let (m, ht) = store; (t, m') = transaction_acquire worker m; (r, env) = oper (t, ht)
      in (r, m', snd (release_locks env)))"

definition store_inv :: "(u32 \<Rightarrow> bytes \<Rightarrow> u64) \<Rightarrow> ht_store \<Rightarrow> bool" where
  "store_inv H store \<longleftrightarrow> table_ok H {} (snd store) \<and> idle (ht_current (snd store))"

lemma release_locks_spec:
  assumes "locks_held (t, ht_current ht)" and "release_locks (t, ht) = (t', ht')"
  shows "same_table (ht_current ht) (ht_current ht')" and "idle (ht_current ht')" and "ht_old ht' = ht_old ht"
proof -
  let ?d = "ht_current ht"
  let ?L = "fold transaction_release_entry (locks_list t) (\<lambda>(tbl, c). chunk_lock (half_hashes_chunk ?d ! c))"
  have ht': "ht' = ht\<lparr>ht_current := ?d\<lparr>half_hashes_chunk :=
      map (\<lambda>c. (chunk_at ?d c)\<lparr>chunk_lock := ?L (0, c)\<rparr>) [0..<nchunks ?d]\<rparr>\<rparr>"
    using assms(2) by (auto simp: release_locks_def transaction_release_def Let_def)
  have "map chunk_view (map (\<lambda>c. (chunk_at ?d c)\<lparr>chunk_lock := ?L (0, c)\<rparr>) [0..<nchunks ?d])
      = map chunk_view (half_hashes_chunk ?d)"
    by (rule nth_equalityI) (simp_all add: chunk_view_def fold_release_entry)
  then show "same_table ?d (ht_current ht')" by (simp add: ht' same_table_def)
  show "idle (ht_current ht')"
    using assms(1) by (auto simp: ht' idle_def locks_held_def lock_held_def fold_release_entry)
  show "ht_old ht' = ht_old ht" by (simp add: ht')
qed

lemma fresh_locks_held:
  assumes "transaction_acquire worker m = (t, m')" and "idle d"
  shows "locks_held (t, d)"
proof -
  have "locks_list t = []" using assms(1) by (metis acquire_fresh fst_conv)
  then show ?thesis using assms(2) by (simp add: locks_held_def lock_held_def idle_def)
qed

text \<open>A command keeps the store, when its operation keeps the table and lists its locks.\<close>

lemma run_command_spec:
  assumes inv: "store_inv H (m, ht)" and run: "run_command worker oper (m, ht) = (r, m', ht')"
    and oper: "\<And>t t1 ht1. locks_held (t, ht_current ht) \<Longrightarrow> oper (t, ht) = (r, t1, ht1)
      \<Longrightarrow> table_ok H {} ht1 \<and> locks_held (t1, ht_current ht1) \<and> P r (contents ht1)"
  shows "store_inv H (m', ht') \<and> P r (contents ht')"
proof -
  have ok: "table_ok H {} ht" and idle: "idle (ht_current ht)" using inv by (simp_all add: store_inv_def)
  obtain t :: "ht_place transaction" and m1 where acq: "transaction_acquire worker m = (t, m1)"
    by (metis prod.exhaust)
  obtain r1 t1 ht1 where op: "oper (t, ht) = (r1, t1, ht1)" by (metis prod.exhaust)
  obtain t2 ht2 where rel: "release_locks (t1, ht1) = (t2, ht2)" by (metis prod.exhaust)
  have res: "r = r1" "ht' = ht2" using run acq op rel by (auto simp: run_command_def)
  have 1: "table_ok H {} ht1 \<and> locks_held (t1, ht_current ht1) \<and> P r (contents ht1)"
    using oper [OF fresh_locks_held [OF acq idle]] op res by simp
  note r = release_locks_spec [OF conjunct1 [OF conjunct2 [OF 1]] rel]
  have "contents ht2 = contents ht1" using same_table_map [OF r(1)] by (simp add: contents_def)
  moreover have "table_ok H {} ht2"
    using same_table_wf [OF r(1)] r(3) 1 by (simp add: table_ok_def)
  ultimately show ?thesis using r(2) 1 res by (simp add: store_inv_def)
qed

definition mcmp_get ::
    "(u32 \<Rightarrow> u32 list \<Rightarrow> u32) \<Rightarrow> (u32 \<Rightarrow> bytes \<Rightarrow> u64) \<Rightarrow> u32 \<Rightarrow> u32 \<times> bytes \<Rightarrow> ht_store
      \<Rightarrow> u64 option \<times> ht_store" where
  "mcmp_get search H worker k =
     run_command worker (hashtable_mcmp_op_get search H (fst k) (snd k) (of_nat (length (snd k))))"

definition mcmp_put ::
    "(u32 \<Rightarrow> u32 list \<Rightarrow> u32) \<Rightarrow> (u32 \<Rightarrow> bytes \<Rightarrow> u64) \<Rightarrow> u32 \<Rightarrow> u32 \<times> bytes \<Rightarrow> u64 \<Rightarrow> ht_store
      \<Rightarrow> bool \<times> ht_store" where
  "mcmp_put search H worker k v store =
     (let (r, store') = run_command worker
            (hashtable_mcmp_op_set search H (fst k) (snd k) (of_nat (length (snd k))) v) store
      in (r \<noteq> None, store'))"

definition mcmp_del ::
    "(u32 \<Rightarrow> u32 list \<Rightarrow> u32) \<Rightarrow> (u32 \<Rightarrow> bytes \<Rightarrow> u64) \<Rightarrow> u32 \<Rightarrow> u32 \<times> bytes \<Rightarrow> ht_store
      \<Rightarrow> bool \<times> ht_store" where
  "mcmp_del search H worker k store =
     (let (r, store') = run_command worker
            (hashtable_mcmp_op_delete search H (fst k) (snd k) (of_nat (length (snd k)))) store
      in (r \<noteq> None, store'))"

definition valid_key :: "u32 \<times> bytes \<Rightarrow> bool" where
  "valid_key k \<longleftrightarrow> snd k \<noteq> [] \<and> 0 \<notin> set (snd k) \<and> length (snd k) < 2 ^ 32"

lemma valid_key_good: "valid_key k \<Longrightarrow> good_key (snd k) (of_nat (length (snd k)))"
  using unat_of_nat_small [where 'a = 32, of "length (snd k)"] by (simp add: valid_key_def good_key_def)

lemma mcmp_get_law:
  assumes "hash_search search" and inv: "store_inv H (m, ht)" and k: "valid_key k"
    and run: "mcmp_get search H worker k (m, ht) = (r, m', ht')"
  shows "store_inv H (m', ht') \<and> contents ht' = contents ht \<and> r = contents ht k"
  using run unfolding mcmp_get_def
proof (rule run_command_spec [OF inv, where P = "\<lambda>r c. c = contents ht \<and> r = contents ht k"])
  fix t t1 ht1
  assume held: "locks_held (t, ht_current ht)"
    and op: "hashtable_mcmp_op_get search H (fst k) (snd k) (of_nat (length (snd k))) (t, ht) = (r, t1, ht1)"
  have ok: "table_ok H {} ht" and "readable (id_of t) (ht_current ht)"
    using inv by (simp_all add: store_inv_def idle_def readable_def)
  then show "table_ok H {} ht1 \<and> locks_held (t1, ht_current ht1) \<and> contents ht1 = contents ht \<and> r = contents ht k"
    using op_get_spec [OF assms(1) valid_key_good [OF k] ok op] op_get_held [OF held _ op]
    by (simp add: table_ok_def)
qed

lemma mcmp_put_law:
  assumes "hash_search search" and inv: "store_inv H (m, ht)" and k: "valid_key k"
    and run: "mcmp_put search H worker k v (m, ht) = (done, m', ht')"
  shows "store_inv H (m', ht') \<and> contents ht' = (if done then (contents ht)(k \<mapsto> v) else contents ht)"
proof -
  let ?op = "hashtable_mcmp_op_set search H (fst k) (snd k) (of_nat (length (snd k))) v"
  obtain r where r: "run_command worker ?op (m, ht) = (r, m', ht')" "done = (r \<noteq> None)"
    using run by (auto simp: mcmp_put_def split: prod.splits)
  have ok: "table_ok H {} ht" using inv by (simp add: store_inv_def)
  show ?thesis
    using r(1)
  proof (rule run_command_spec [OF inv])
    fix t t1 ht1
    assume held: "locks_held (t, ht_current ht)" and op: "?op (t, ht) = (r, t1, ht1)"
    then show "table_ok H {} ht1 \<and> locks_held (t1, ht_current ht1)
        \<and> contents ht1 = (if done then (contents ht)(k \<mapsto> v) else contents ht)"
      using op_set_spec [OF assms(1) valid_key_good [OF k] ok op] op_set_held [OF held op] r(2)
      by (auto split: option.splits)
  qed
qed

lemma mcmp_del_law:
  assumes "hash_search search" and inv: "store_inv H (m, ht)" and k: "valid_key k"
    and run: "mcmp_del search H worker k (m, ht) = (done, m', ht')"
  shows "store_inv H (m', ht') \<and> done = (contents ht k \<noteq> None) \<and> contents ht' = (contents ht)(k := None)"
proof -
  let ?op = "hashtable_mcmp_op_delete search H (fst k) (snd k) (of_nat (length (snd k)))"
  obtain r where r: "run_command worker ?op (m, ht) = (r, m', ht')" "done = (r \<noteq> None)"
    using run by (auto simp: mcmp_del_def split: prod.splits)
  have ok: "table_ok H {} ht" and idle: "idle (ht_current ht)" using inv by (simp_all add: store_inv_def)
  show ?thesis
    using r(1)
  proof (rule run_command_spec [OF inv])
    fix t t1 ht1
    assume held: "locks_held (t, ht_current ht)" and op: "?op (t, ht) = (r, t1, ht1)"
    have "ht_old ht = None" using ok by (simp add: table_ok_def)
    then show "table_ok H {} ht1 \<and> locks_held (t1, ht_current ht1)
        \<and> done = (contents ht k \<noteq> None) \<and> contents ht1 = (contents ht)(k := None)"
      using op_delete_spec [OF assms(1) valid_key_good [OF k] ok op] op_delete_held [OF held _ op] r(2)
        op_delete_progress [OF assms(1) valid_key_good [OF k] ok idle op]
      by (auto simp: fun_upd_idem split: option.splits)
  qed
qed

lemma mcmp_kv_store:
  assumes "hash_search search"
  shows "kv_store (store_inv H) (\<lambda>s. contents (snd s)) valid_key
    (mcmp_get search H worker) (mcmp_put search H worker) (mcmp_del search H worker)"
proof
  fix s k r s'
  assume "store_inv H s" "valid_key k" "mcmp_get search H worker k s = (r, s')"
  then show "store_inv H s' \<and> contents (snd s') = contents (snd s) \<and> r = contents (snd s) k"
    using mcmp_get_law [OF assms] by (cases s; cases s') auto
next
  fix s k v ok s'
  assume "store_inv H s" "valid_key k" "mcmp_put search H worker k v s = (ok, s')"
  then show "store_inv H s' \<and> contents (snd s') = (if ok then (contents (snd s))(k \<mapsto> v) else contents (snd s))"
    using mcmp_put_law [OF assms] by (cases s; cases s') auto
next
  fix s k ok s'
  assume "store_inv H s" "valid_key k" "mcmp_del search H worker k s = (ok, s')"
  then show "store_inv H s' \<and> ok = (contents (snd s) k \<noteq> None) \<and> contents (snd s') = (contents (snd s))(k := None)"
    using mcmp_del_law [OF assms] by (cases s; cases s') auto
qed

interpretation mcmp: kv_store "store_inv H" "\<lambda>s. contents (snd s)" valid_key
  "mcmp_get hashtable_mcmp_support_hash_search_loop_14 H worker"
  "mcmp_put hashtable_mcmp_support_hash_search_loop_14 H worker"
  "mcmp_del hashtable_mcmp_support_hash_search_loop_14 H worker"
  for H worker
  by (rule mcmp_kv_store) (rule search_loop.hash_search_axioms)

section \<open>A lookup blocks the writers, its own transaction included\<close>

text \<open>A chunk that readers hold, whoever they are: no write lock is granted on it.\<close>

definition read_held :: "transaction_rwspinlock \<Rightarrow> bool" where
  "read_held lk \<longleftrightarrow> transaction_id lk = 0 \<and> readers_count lk \<noteq> 0"

lemma chunk_read_lock_read_held:
  assumes "transaction_id (chunk_lock (chunk_at d c)) = 0" and "readers_count (chunk_lock (chunk_at d c)) = 0"
    and "id_of t \<noteq> 0" and "c < nchunks d" and "chunk_read_lock tbl c (t, d) = (ok, t', d')"
  shows "ok" and "read_held (chunk_lock (chunk_at d' c))"
  using assms
  by (auto simp: read_held_def chunk_read_lock_def chunk_lock_with_def Let_def lock_request_defs
      upd_chunk_def transaction_rwspinlock_is_owned_by_transaction_def split: if_splits)

lemma chunk_read_lock_other:
  "chunk_read_lock tbl c (t, d) = (ok, t', d') \<Longrightarrow> x \<noteq> c \<Longrightarrow> chunk_at d' x = chunk_at d x"
  by (auto simp: chunk_read_lock_def chunk_lock_with_def Let_def lock_request_defs
      upd_chunk_def split: if_splits prod.splits)

lemma chunk_write_lock_read_held:
  "read_held (chunk_lock (chunk_at d c)) \<Longrightarrow> id_of t \<noteq> 0 \<Longrightarrow> chunk_write_lock tbl c (t, d) = (ok, st') \<Longrightarrow> \<not> ok"
  by (auto simp: read_held_def chunk_write_lock_def chunk_lock_with_def Let_def lock_request_defs
      transaction_rwspinlock_is_owned_by_transaction_def split: if_splits)

lemma search_key_chunks_start:
  "search_key_chunks search tbl db key len q start n c (t, d) = (r, (t', d'))
    \<Longrightarrow> chunk_at d' start = chunk_at d start"
proof (induction n arbitrary: c t d)
  case (Suc n)
  obtain ok t1 d1 where lk: "(if c \<noteq> start then chunk_read_lock tbl c (t, d) else (True, (t, d))) = (ok, (t1, d1))"
    by (metis prod.exhaust)
  have eq: "chunk_at d1 start = chunk_at d start"
    using lk chunk_read_lock_other [of tbl c t d ok t1 d1 start] by (auto split: if_splits)
  show ?case
  proof (cases "slots_occupied (chunk_at d c) = 0")
    case True
    then show ?thesis using Suc.prems Suc.IH [of "Suc c" t d] by simp
  next
    case False
    note run = Suc.prems(1) [simplified search_key_chunks.simps snd_conv False if_False lk Let_def prod.case]
    show ?thesis
      using run Suc.IH [of "Suc c" t1 d1] eq by (auto split: if_splits option.splits)
  qed
qed simp

lemma search_key_read_held:
  assumes idle: "idle d" and start: "home_chunk d hash < nchunks d" and id: "id_of t \<noteq> 0"
    and run: "hashtable_mcmp_support_op_search_key search tbl db key len hash (t, d) = (r, (t', d'))"
  shows "read_held (chunk_lock (chunk_at d' (home_chunk d hash)))"
proof -
  let ?start = "home_chunk d hash"
  obtain ok t1 d1 where lk: "chunk_read_lock tbl ?start (t, d) = (ok, (t1, d1))" by (metis prod.exhaust)
  note held = chunk_read_lock_read_held [OF _ _ id start lk]
  have "ok" and h1: "read_held (chunk_lock (chunk_at d1 ?start))"
    using held idle start by (simp_all add: idle_def)
  then have "search_key_chunks search tbl db key len (quarter_of hash) ?start
      (Suc (unat (overflowed_chunks_counter (chunk_at d1 ?start)))) ?start (t1, d1) = (r, (t', d'))"
    using run lk
    by (simp add: hashtable_mcmp_support_op_search_key_def Let_def del: search_key_chunks.simps)
  from search_key_chunks_start [OF this] h1 show ?thesis by simp
qed

lemma op_get_read_held:
  assumes hs: "hash_search search" and key: "good_key key len" and ok: "table_ok H {} ht"
    and idle: "idle (ht_current ht)" and id: "id_of t \<noteq> 0"
    and run: "hashtable_mcmp_op_get search H db key len (t, ht) = (r, t', ht')"
  shows "read_held (chunk_lock (chunk_at (ht_current ht') (home_chunk (ht_current ht') (H db key))))"
    and "id_of t' = id_of t"
proof -
  let ?d = "ht_current ht"
  have wf: "ht_wf H {} ?d" and old: "ht_old ht = None" using ok by (simp_all add: table_ok_def)
  have start: "home_chunk ?d (H db key) < nchunks ?d"
    using home_chunk_less [OF wf_shape [OF wf], of "H db key"] by simp
  obtain r1 t1 d1 where sk: "hashtable_mcmp_support_op_search_key search 0 db key len
      (H db key) (t, ?d) = (r1, (t1, d1))" by (metis prod.exhaust)
  have post: "same_table ?d d1" "id_of t1 = id_of t" using search_key_spec [OF hs key wf sk] by blast+
  have "t' = t1" "ht_current ht' = d1"
    using run sk by (auto simp: hashtable_mcmp_op_get_def over_tables_current [OF old] op_get_body_def Let_def
        hash_of_good [OF key])
  then show "read_held (chunk_lock (chunk_at (ht_current ht') (home_chunk (ht_current ht') (H db key))))"
    and "id_of t' = id_of t"
    using search_key_read_held [OF idle start id sk] same_table_home [OF post(1)] post(2) by simp_all
qed

lemma create_refused:
  assumes "read_held (chunk_lock (chunk_at d (home_chunk d hash)))" and "id_of t \<noteq> 0"
  shows "fst (hashtable_mcmp_support_op_search_key_or_create_new search tbl db key len hash new (t, d)) = None"
proof -
  obtain ok st1 where lk: "chunk_write_lock tbl (home_chunk d hash) (t, d) = (ok, st1)" by (metis prod.exhaust)
  have "\<not> ok" by (rule chunk_write_lock_read_held [OF assms lk])
  with lk show ?thesis
    by (simp add: hashtable_mcmp_support_op_search_key_or_create_new_def Let_def
        del: soc_search.simps soc_create.simps)
qed

end
