(* ===== verification/Mcmp_Props.thy ===== *)
theory Mcmp_Props
  imports Mcmp_Run
begin

text \<open>
  What the hash table promises, as theorems about its operations in any lock state, with a table
  of one bucket (33 chunks of 14 slots) as the example on which they are applied.
\<close>

section \<open>Loops over the buckets\<close>

text \<open>
  The loop that the storage puts around the iterator: visit the bucket it returns and go on with
  the bucket behind. \<open>n\<close> bounds the visits; the number of buckets is enough.
\<close>

fun iterate :: "(nat \<Rightarrow> nat option) \<Rightarrow> nat \<Rightarrow> nat \<Rightarrow> nat list" where
  "iterate iter 0 bucket_index = []"
| "iterate iter (Suc n) bucket_index =
     (case iter bucket_index of
        None \<Rightarrow> []
      | Some b \<Rightarrow> b # iterate iter n (Suc b))"

lemma filter_upt_first:
  assumes "first_in P lo hi r"
  shows "filter P [lo..<hi] = (case r of None \<Rightarrow> [] | Some b \<Rightarrow> b # filter P [Suc b..<hi])"
proof (cases r)
  case None
  then show ?thesis using assms by (auto simp: first_in_def filter_empty_conv)
next
  case (Some b)
  then have b: "lo \<le> b" "b < hi" "P b" "filter P [lo..<b] = []"
    using assms by (auto simp: first_in_def filter_empty_conv)
  then have "[lo..<hi] = [lo..<b] @ b # [Suc b..<hi]"
    using upt_add_eq_append [of lo b "hi - b"] upt_conv_Cons [of b hi] by simp
  then show ?thesis using b Some by simp
qed

lemma iterate_filter:
  assumes "\<And>b. first_in P b hi (iter b)"
  shows "hi - b \<le> n \<Longrightarrow> iterate iter n b = filter P [b..<hi]"
proof (induction n arbitrary: b)
  case 0
  then show ?case by simp
next
  case (Suc n)
  show ?case
  proof (cases "iter b")
    case None
    then show ?thesis using filter_upt_first [OF assms [of b]] by simp
  next
    case (Some b')
    then have "b \<le> b'" "b' < hi" using assms [of b] by (auto simp: first_in_def)
    then have "hi - Suc b' \<le> n" using Suc.prems by linarith
    then show ?thesis using Suc.IH [of "Suc b'"] filter_upt_first [OF assms [of b]] Some by simp
  qed
qed

lemma iter_first:
  assumes wf: "ht_wf H {} d"
  shows "first_in (bucket_of_db d all_databases db) b (14 * nchunks d)
    (hashtable_mcmp_op_iter_internal d all_databases db b (- 1))"
proof (cases "b < 14 * nchunks d")
  case True
  then show ?thesis by (rule iter_internal_first [OF wf])
next
  case False
  moreover have "unat (chunks_count d) = nchunks d" using wf_shape [OF wf] by (simp add: table_shape_def)
  ultimately have "unat (chunks_count d) - b div 14 = 0" by simp
  then show ?thesis
    using False
    by (auto simp: hashtable_mcmp_op_iter_internal_def Let_def HASHTABLE_TO_CHUNK_INDEX_def table_constants
        first_in_def)
qed

lemma contents_has_ident:
  assumes "table_ok H {} ht"
  shows "contents ht (db, key) = Some v
    \<longleftrightarrow> (\<exists>b. has_ident (keys_values (ht_current ht)) b (db, Some key) \<and> kv_data (keys_values (ht_current ht) ! b) = v)"
  using assms kv_map_Some [of "keys_values (ht_current ht)" "(db, Some key)" v]
  by (simp add: table_ok_def contents_def ht_map_def ht_wf_def)

lemma iterate_entries:
  fixes all_dbs :: bool and db :: u32
  assumes ok: "table_ok H {} ht"
  defines "d \<equiv> ht_current ht"
  defines "bs \<equiv> iterate (\<lambda>b. hashtable_mcmp_op_iter_internal d all_dbs db b (- 1)) (14 * nchunks d) 0"
  shows "distinct bs"
    and "b \<in> set bs \<longleftrightarrow> b < length (keys_values d) \<and> bucket_of_db d all_dbs db b"
proof -
  have wf: "ht_wf H {} d" using ok by (simp add: table_ok_def d_def)
  then have len: "length (keys_values d) = 14 * nchunks d" using wf_shape by (simp add: table_shape_def)
  have "bs = filter (bucket_of_db d all_dbs db) [0..<14 * nchunks d]"
    unfolding bs_def by (rule iterate_filter) (use iter_first [OF wf] in auto)
  then show "distinct bs" "b \<in> set bs \<longleftrightarrow> b < length (keys_values d) \<and> bucket_of_db d all_dbs db b"
    by (auto simp: len)
qed

section \<open>The example\<close>

definition tiny_table :: hashtable where
  "tiny_table = the (hashtable_mcmp_init 1 False False)"

definition tiny_hash :: "u32 \<Rightarrow> bytes \<Rightarrow> u64" where
  "tiny_hash db key = ucast db + 31 * sum_list (map ucast key)"

definition tiny_key :: bytes where
  "tiny_key = [107, 101, 121]"

definition tiny_manager :: transaction_manager where
  "tiny_manager = \<lparr>transaction_manager_worker_index = 0,
     transaction_manager_transaction_index = 0, transaction_manager_inited = True\<rparr>"

definition tiny_transaction :: "ht_place transaction" where
  "tiny_transaction = fst (transaction_acquire 0 tiny_manager)"

lemma tiny_init: "hashtable_mcmp_init 1 False False = Some tiny_table"
proof -
  have "\<exists>d. hashtable_mcmp_data_init (pow2_next 1) = Some d"
    by (simp add: hashtable_mcmp_data_init_def Let_def pow2_is_def pow2_next_def pow2_next_pow2m1_def)
  then show ?thesis by (auto simp: tiny_table_def hashtable_mcmp_init_def)
qed

lemmas tiny_ok = init_spec [OF tiny_init]

lemma tiny_good_key: "good_key tiny_key 3" and tiny_valid_key: "valid_key (db, tiny_key)"
  by (simp_all add: good_key_def valid_key_def tiny_key_def)

lemma idle_locks: "idle d \<Longrightarrow> readable tid d" "idle d \<Longrightarrow> writable tid d"
  by (simp_all add: idle_def readable_def writable_def)

lemma tiny_id: "id_of tiny_transaction \<noteq> 0"
  by (simp add: tiny_transaction_def tiny_manager_def transaction_acquire_def id_of_def Let_def)

section \<open>Properties\<close>

text \<open>
  C5: the hash table is a key-value store. Whatever commands run on a new table, each in a
  transaction of its own and with a key that is not empty and holds no NUL byte, the replies are those of a map that starts empty, and the table ends
  with the contents of that map: a lookup returns what the last successful insertion of its key
  stored, a removal succeeds exactly on a present key, and an insertion that fails changes
  nothing.
\<close>

theorem commands_are_map_history:
  assumes "hashtable_mcmp_init initial_size numa_aware numa = Some ht"
    and "\<forall>c\<in>set cmds. valid_key (cmd_key c)"
  shows "case exec_cmds (mcmp_get hashtable_mcmp_support_hash_search_loop_14 H worker)
              (mcmp_put hashtable_mcmp_support_hash_search_loop_14 H worker)
              (mcmp_del hashtable_mcmp_support_hash_search_loop_14 H worker) cmds (m, ht) of
           (h, m', ht') \<Rightarrow> map fst h = cmds \<and> map_history Map.empty h (contents ht')"
proof -
  have "store_inv H (m, ht)" using init_spec [OF assms(1)] by (simp add: store_inv_def)
  from mcmp.exec_all_history [OF this assms(2)] show ?thesis
    using init_spec(2) [OF assms(1)] by (auto split: prod.splits)
qed

definition tiny_commands :: "(u32 \<times> bytes, u64) kv_cmd list" where
  "tiny_commands = [Cmd_put (0, tiny_key) 7, Cmd_get (0, tiny_key), Cmd_del (0, tiny_key), Cmd_get (1, tiny_key)]"

theorem commands_are_map_history_witness:
  "case exec_cmds (mcmp_get hashtable_mcmp_support_hash_search_loop_14 tiny_hash 0)
          (mcmp_put hashtable_mcmp_support_hash_search_loop_14 tiny_hash 0)
          (mcmp_del hashtable_mcmp_support_hash_search_loop_14 tiny_hash 0) tiny_commands
          (tiny_manager, tiny_table) of
     (h, m', ht') \<Rightarrow> map fst h = tiny_commands \<and> map_history Map.empty h (contents ht')"
  by (rule commands_are_map_history [OF tiny_init]) (simp add: tiny_commands_def tiny_valid_key)

text \<open>
  C6: insertion of a key that is not empty and holds no NUL byte (as in all properties below),
  whatever locks other transactions hold. It keeps the table well formed. When it
  succeeds, the key has the new value, every other key keeps its value, the previous value is
  returned, and the caller is told to free its key exactly when the key was present. When it
  fails, no value changed; and if no other transaction held a lock, it failed because the key was
  absent and all 32 chunks of its window were full.
\<close>

theorem op_set_correct:
  assumes "hash_search search" and "good_key key len" and "table_ok H pend ht"
  shows "case hashtable_mcmp_op_set search H db key len v (t, ht) of
    (r, t', ht') \<Rightarrow>
      table_ok H pend ht'
      \<and> (case r of
           Some res \<Rightarrow>
             contents ht' = (contents ht)((db, key) \<mapsto> v)
             \<and> previous_value res = contents ht (db, key)
             \<and> out_should_free_key res = (contents ht (db, key) \<noteq> None)
         | None \<Rightarrow>
             contents ht' = contents ht
             \<and> (writable (id_of t) (ht_current ht) \<longrightarrow>
                  contents ht (db, key) = None
                  \<and> (\<forall>x. home_chunk (ht_current ht) (H db key) \<le> x
                          \<and> x < home_chunk (ht_current ht) (H db key) + 32
                       \<longrightarrow> 0 \<notin> set (half_hashes (half_hashes_chunk (ht_current ht) ! x)))))"
proof -
  obtain r t' ht' where run: "hashtable_mcmp_op_set search H db key len v (t, ht) = (r, t', ht')"
    by (metis prod.exhaust)
  show ?thesis
    using op_set_spec [OF assms run] op_set_progress [OF assms, of db v t t' ht'] run
    by (auto split: option.splits)
qed

lemma tiny_empty:
  assumes "x < nchunks (ht_current tiny_table)"
  shows "half_hashes (chunk_at (ht_current tiny_table) x) = replicate 14 0"
proof -
  obtain d where d: "hashtable_mcmp_data_init (pow2_next 1) = Some d"
    using tiny_init by (auto simp: hashtable_mcmp_init_def split: option.splits)
  then have "ht_current tiny_table = d" by (simp add: tiny_table_def hashtable_mcmp_init_def)
  from data_init_shape(2) [OF d] assms this show ?thesis
    by (metis nth_replicate empty_chunk_def hashtable_half_hashes_chunk.select_convs(2) table_constants)
qed

lemma tiny_home_free:
  "home_chunk (ht_current tiny_table) h = x
    \<Longrightarrow> 0 \<in> set (half_hashes (chunk_at (ht_current tiny_table) x))"
proof -
  have "ht_wf tiny_hash {} (ht_current tiny_table)" using tiny_ok(1) by (simp add: table_ok_def)
  from home_chunk_less [OF wf_shape [OF this], of h]
  show "home_chunk (ht_current tiny_table) h = x
    \<Longrightarrow> 0 \<in> set (half_hashes (chunk_at (ht_current tiny_table) x))"
    using tiny_empty by auto
qed

theorem op_set_correct_witness:
  "case hashtable_mcmp_op_set hashtable_mcmp_support_hash_search_loop_14 tiny_hash 0 tiny_key 3 7
          (tiny_transaction, tiny_table) of
     (r, t', ht') \<Rightarrow> r \<noteq> None \<and> contents ht' = [(0, tiny_key) \<mapsto> 7]"
  using op_set_correct [OF search_loop.hash_search_axioms tiny_good_key tiny_ok(1),
      where H = tiny_hash and db = 0 and v = 7 and t = tiny_transaction]
    idle_locks(2) [OF tiny_ok(3)] tiny_ok(2) tiny_home_free [OF refl]
  by (auto split: prod.splits option.splits)

text \<open>
  C7: lookup. It changes neither the contents nor the well-formedness of the table. What it
  returns is the value of the key; and when no other transaction holds a lock for writing it
  returns the value whenever there is one.
\<close>

theorem op_get_correct:
  assumes "hash_search search" and "good_key key len" and "table_ok H {} ht"
  shows "case hashtable_mcmp_op_get search H db key len (t, ht) of
    (r, t', ht') \<Rightarrow>
      table_ok H {} ht' \<and> contents ht' = contents ht
      \<and> (r \<noteq> None \<or> readable (id_of t) (ht_current ht) \<longrightarrow> r = contents ht (db, key))"
  using op_get_spec [OF assms] by (auto split: prod.splits)

theorem op_get_correct_witness:
  "fst (hashtable_mcmp_op_get hashtable_mcmp_support_hash_search_loop_14 tiny_hash 0 tiny_key 3
          (tiny_transaction, tiny_table)) = None"
  using op_get_correct [OF search_loop.hash_search_axioms tiny_good_key tiny_ok(1), where H = tiny_hash and db = 0 and t = tiny_transaction]
    idle_locks(1) [OF tiny_ok(3)] tiny_ok(2)
  by (auto split: prod.splits)

text \<open>
  C8: removal. When it returns a value, that was the value of the key, and now exactly this key
  is gone; otherwise no value changed; and when no transaction holds a lock it succeeds exactly
  if the key was present.
\<close>

theorem op_delete_correct:
  assumes "hash_search search" and "good_key key len" and "table_ok H {} ht"
  shows "case hashtable_mcmp_op_delete search H db key len (t, ht) of
    (r, t', ht') \<Rightarrow>
      table_ok H {} ht'
      \<and> (r \<noteq> None \<or> idle (ht_current ht) \<longrightarrow> r = contents ht (db, key))
      \<and> contents ht' = (if r = None then contents ht else (contents ht)((db, key) := None))"
proof -
  obtain r t' ht' where run: "hashtable_mcmp_op_delete search H db key len (t, ht) = (r, t', ht')"
    by (metis prod.exhaust)
  show ?thesis
    using op_delete_spec [OF assms run] op_delete_progress [OF assms _ run] run
    by (auto split: option.splits)
qed

theorem op_delete_correct_witness:
  "case hashtable_mcmp_op_delete hashtable_mcmp_support_hash_search_loop_14 tiny_hash 0 tiny_key 3
          (tiny_transaction, tiny_table) of
     (r, t', ht') \<Rightarrow> r = None \<and> contents ht' = Map.empty"
  using op_delete_correct [OF search_loop.hash_search_axioms tiny_good_key tiny_ok(1), where H = tiny_hash and db = 0 and t = tiny_transaction]
    tiny_ok(2,3)
  by (auto split: prod.splits)

text \<open>
  C9: read-modify-write. Beginning changes no value and tells the current value of the key. The
  update then gives exactly this key the new value, the deletion removes exactly this key, the
  abort changes nothing; and each of them leaves a well-formed table, also when the slot was
  created for the operation. When beginning fails although no other transaction holds a lock, the
  key is absent and its window full.
\<close>

theorem rmw_correct:
  assumes "hash_search search" and "good_key key len" and "table_ok H pend ht"
  shows "case hashtable_mcmp_op_rmw_begin search H db key len (t, ht) of
    (r, t', ht') \<Rightarrow>
      contents ht' = contents ht
      \<and> (case r of
           Some st \<Rightarrow>
             contents ht (db, key) = (if rmw_created_new st then None else Some (rmw_current_value st))
             \<and> table_ok H pend (hashtable_mcmp_op_rmw_commit_update st v ht')
             \<and> contents (hashtable_mcmp_op_rmw_commit_update st v ht') = (contents ht)((db, key) \<mapsto> v)
             \<and> table_ok H pend (hashtable_mcmp_op_rmw_commit_delete st ht')
             \<and> contents (hashtable_mcmp_op_rmw_commit_delete st ht') = (contents ht)((db, key) := None)
             \<and> table_ok H pend (hashtable_mcmp_op_rmw_abort st ht')
             \<and> contents (hashtable_mcmp_op_rmw_abort st ht') = contents ht
         | None \<Rightarrow>
             table_ok H pend ht'
             \<and> (writable (id_of t) (ht_current ht) \<longrightarrow>
                  contents ht (db, key) = None
                  \<and> (\<forall>x. home_chunk (ht_current ht) (H db key) \<le> x
                          \<and> x < home_chunk (ht_current ht) (H db key) + 32
                       \<longrightarrow> 0 \<notin> set (half_hashes (half_hashes_chunk (ht_current ht) ! x)))))"
proof -
  obtain r t' ht' where run: "hashtable_mcmp_op_rmw_begin search H db key len (t, ht) = (r, t', ht')"
    by (metis prod.exhaust)
  note begun = rmw_begin_spec [OF assms run]
  show ?thesis
  proof (cases r)
    case None
    then show ?thesis
      using begun run rmw_begin_progress [OF assms, of db t t' ht'] by simp
  next
    case (Some st)
    then have "rmw_ok H pend st ht'" using begun by simp
    from rmw_commit_update_spec [OF this, of v] rmw_commit_delete_spec [OF this] rmw_abort_spec [OF this]
    show ?thesis using begun run Some by simp
  qed
qed

theorem rmw_correct_witness:
  "case hashtable_mcmp_op_rmw_begin hashtable_mcmp_support_hash_search_loop_14 tiny_hash 0 tiny_key 3
          (tiny_transaction, tiny_table) of
     (None, t', ht') \<Rightarrow> False
   | (Some st, t', ht') \<Rightarrow>
       rmw_created_new st
       \<and> contents (hashtable_mcmp_op_rmw_commit_update st 7 ht') = [(0, tiny_key) \<mapsto> 7]
       \<and> contents (hashtable_mcmp_op_rmw_abort st ht') = Map.empty"
  using rmw_correct [OF search_loop.hash_search_axioms tiny_good_key tiny_ok(1),
      where H = tiny_hash and db = 0 and v = 7 and t = tiny_transaction]
    idle_locks(2) [OF tiny_ok(3)] tiny_ok(2) tiny_home_free
  by (auto split: prod.splits option.splits if_splits)

text \<open>
  C10: iteration. The loop over the buckets that the iterator returns visits every entry of the
  table (of the database, or of all databases) exactly once and nothing else: the keys and values
  in the visited buckets are the contents of the table.
\<close>

theorem iteration_visits_contents:
  assumes "table_ok H {} ht"
  defines "kvs \<equiv> keys_values (ht_current ht)"
    and "n \<equiv> unat (buckets_count_real (ht_current ht))"
  shows "distinct (iterate (\<lambda>b. hashtable_mcmp_op_iter db b ht) n 0)
    \<and> distinct (iterate (\<lambda>b. hashtable_mcmp_op_iter_all_databases b ht) n 0)
    \<and> (contents ht (db, key) = Some v \<longleftrightarrow>
        (\<exists>b\<in>set (iterate (\<lambda>b. hashtable_mcmp_op_iter db b ht) n 0).
           kv_key (kvs ! b) = Some key \<and> kv_data (kvs ! b) = v))
    \<and> (contents ht (db, key) = Some v \<longleftrightarrow>
        (\<exists>b\<in>set (iterate (\<lambda>b. hashtable_mcmp_op_iter_all_databases b ht) n 0).
           kv_database_number (kvs ! b) = db \<and> kv_key (kvs ! b) = Some key \<and> kv_data (kvs ! b) = v))"
proof -
  have n: "n = 14 * nchunks (ht_current ht)"
    using assms(1) wf_shape [of H "{}" "ht_current ht"] by (simp add: table_ok_def n_def table_shape_def)
  note iterate_entries [OF assms(1)]
  from this [where all_dbs = False and db = db] this [where all_dbs = True and db = 0] show ?thesis
    unfolding n contents_has_ident [OF assms(1)] hashtable_mcmp_op_iter_def
      hashtable_mcmp_op_iter_all_databases_def
    by (auto simp: bucket_of_db_def kvs_def has_ident_def kv_ident_def)
qed

definition tiny_filled :: hashtable where
  "tiny_filled = snd (snd (hashtable_mcmp_op_set hashtable_mcmp_support_hash_search_loop_14 tiny_hash 0
     tiny_key 3 7 (tiny_transaction, tiny_table)))"

lemma tiny_filled: "table_ok tiny_hash {} tiny_filled" "contents tiny_filled = [(0, tiny_key) \<mapsto> 7]"
proof -
  let ?set = "hashtable_mcmp_op_set hashtable_mcmp_support_hash_search_loop_14 tiny_hash 0 tiny_key 3 7
    (tiny_transaction, tiny_table)"
  have run: "?set = (fst ?set, fst (snd ?set), tiny_filled)" by (simp add: tiny_filled_def)
  have "fst ?set \<noteq> None"
  proof
    assume "fst ?set = None"
    with run have none: "?set = (None, fst (snd ?set), tiny_filled)" by simp
    show False
      using op_set_progress [OF search_loop.hash_search_axioms tiny_good_key tiny_ok(1) none
          idle_locks(2) [OF tiny_ok(3)]] tiny_home_free [OF refl] by auto
  qed
  with op_set_spec [OF search_loop.hash_search_axioms tiny_good_key tiny_ok(1) run] tiny_ok(2)
  show "table_ok tiny_hash {} tiny_filled" "contents tiny_filled = [(0, tiny_key) \<mapsto> 7]" by auto
qed

theorem iteration_visits_contents_witness:
  "\<exists>b\<in>set (iterate (\<lambda>b. hashtable_mcmp_op_iter 0 b tiny_filled)
              (unat (buckets_count_real (ht_current tiny_filled))) 0).
     kv_key (keys_values (ht_current tiny_filled) ! b) = Some tiny_key
     \<and> kv_data (keys_values (ht_current tiny_filled) ! b) = 7"
  using iteration_visits_contents [OF tiny_filled(1), of 0 tiny_key 7] tiny_filled(2) by simp

text \<open>
  C11: a transaction that has looked a key up cannot write it. On a table without locks, once a
  transaction has read a key, insertion and read-modify-write of this key in the same transaction
  fail: the lock that the lookup took is a reader's lock, and the write lock waits for all readers
  to leave, its own transaction's included.
\<close>

theorem write_after_read_refused:
  assumes "hash_search search" and "good_key key len" and "table_ok H {} ht" and "idle (ht_current ht)"
    and "id_of t \<noteq> 0"
  shows "case hashtable_mcmp_op_get search H db key len (t, ht) of
    (r, env) \<Rightarrow>
      fst (hashtable_mcmp_op_rmw_begin search H db key len env) = None
      \<and> fst (hashtable_mcmp_op_set search H db key len v env) = None"
proof -
  obtain r t' ht' where run: "hashtable_mcmp_op_get search H db key len (t, ht) = (r, t', ht')"
    by (metis prod.exhaust)
  note held = op_get_read_held [OF assms run]
  have "fst (hashtable_mcmp_support_op_search_key_or_create_new search 0 db key len (H db key) True
      (t', ht_current ht')) = None"
    by (rule create_refused) (use held assms(5) in simp_all)
  then show ?thesis
    by (auto simp: run hashtable_mcmp_op_rmw_begin_def hashtable_mcmp_op_set_def Let_def
        hash_of_good [OF assms(2)] split: prod.splits)
qed

theorem write_after_read_refused_witness:
  "case hashtable_mcmp_op_get hashtable_mcmp_support_hash_search_loop_14 tiny_hash 0 tiny_key 3
          (tiny_transaction, tiny_table) of
     (r, env) \<Rightarrow>
       fst (hashtable_mcmp_op_rmw_begin hashtable_mcmp_support_hash_search_loop_14 tiny_hash 0 tiny_key 3 env) = None"
  using write_after_read_refused [OF search_loop.hash_search_axioms tiny_good_key tiny_ok(1,3) tiny_id,
      where H = tiny_hash and db = 0]
  by (auto split: prod.splits)

end
