(* ===== verification/C_Lib.thy ===== *)
theory C_Lib
  imports Prelude
begin

text \<open>
  What the sources use of the C library on byte strings: \<open>memchr\<close>, \<open>strtol\<close> in base 10, and
  the decimal notation that both directions of the Redis protocol and the snapshot format rely on.
  Memory is a list of bytes; a place in it is an offset.
\<close>

section \<open>Searching a byte\<close>

definition memchr :: "u8 \<Rightarrow> bytes \<Rightarrow> nat option" where
  "memchr c s = (let n = length (takeWhile (\<lambda>x. x \<noteq> c) s) in if n < length s then Some n else None)"

lemma memchr_append:
  "c \<notin> set xs \<Longrightarrow> memchr c (xs @ c # ys) = Some (length xs)"
proof -
  assume "c \<notin> set xs"
  then have "takeWhile (\<lambda>x. x \<noteq> c) (xs @ c # ys) = xs"
    by (subst takeWhile_append2) auto
  then show ?thesis by (simp add: memchr_def Let_def)
qed

lemma memchr_None_iff: "memchr c s = None \<longleftrightarrow> c \<notin> set s"
proof (cases "c \<in> set s")
  case True
  then obtain xs ys where "s = xs @ c # ys" "c \<notin> set xs" by (meson split_list_first)
  with memchr_append [of c xs ys] True show ?thesis by simp
next
  case False
  then have "takeWhile (\<lambda>x. x \<noteq> c) s = s" by (subst takeWhile_eq_all_conv) auto
  then have "memchr c s = None" unfolding memchr_def Let_def by (simp only: less_irrefl if_False)
  with False show ?thesis by simp
qed

lemma memchr_SomeD: "memchr c s = Some n \<Longrightarrow> n < length s \<and> s ! n = c \<and> c \<notin> set (take n s)"
proof -
  assume *: "memchr c s = Some n"
  then have "c \<in> set s" using memchr_None_iff [of c s] by auto
  then obtain xs ys where s: "s = xs @ c # ys" "c \<notin> set xs" by (meson split_list_first)
  with * memchr_append [OF s(2)] have "n = length xs" by simp
  with s show ?thesis by simp
qed

section \<open>Decimal numbers\<close>

definition isdigit :: "u8 \<Rightarrow> bool" where
  "isdigit c \<longleftrightarrow> 48 \<le> unat c \<and> unat c \<le> 57"

definition isspace :: "u8 \<Rightarrow> bool" where
  "isspace c \<longleftrightarrow> c = 32 \<or> 9 \<le> unat c \<and> unat c \<le> 13"

definition digit :: "nat \<Rightarrow> u8" where
  "digit n = of_nat (48 + n)"

fun dec :: "nat \<Rightarrow> bytes" where
  "dec n = (if n < 10 then [digit n] else dec (n div 10) @ [digit (n mod 10)])"

declare dec.simps [simp del]

definition digits_value :: "bytes \<Rightarrow> nat" where
  "digits_value ds = foldl (\<lambda>a c. a * 10 + (unat c - 48)) 0 ds"

lemma unat_digit [simp]: "n < 10 \<Longrightarrow> unat (digit n) = 48 + n"
  unfolding digit_def by (rule unat_of_nat_small) simp

lemma isdigit_digit [simp]: "n < 10 \<Longrightarrow> isdigit (digit n)"
  by (simp add: isdigit_def)

lemma dec_small: "n < 10 \<Longrightarrow> dec n = [digit n]"
  by (simp add: dec.simps [of n])

lemma dec_digits: "c \<in> set (dec n) \<Longrightarrow> isdigit c"
proof (induction n rule: dec.induct)
  case (1 n)
  show ?case
  proof (cases "n < 10")
    case True
    then show ?thesis using "1.prems" by (simp add: dec.simps [of n])
  next
    case False
    then show ?thesis using 1 by (auto simp: dec.simps [of n])
  qed
qed

lemma dec_not_Nil [simp]: "dec n \<noteq> []"
  by (simp add: dec.simps [of n])

lemma digits_value_snoc: "digits_value (ds @ [c]) = digits_value ds * 10 + (unat c - 48)"
  by (simp add: digits_value_def)

lemma digits_value_dec [simp]: "digits_value (dec n) = n"
proof (induction n rule: dec.induct)
  case (1 n)
  show ?case
  proof (cases "n < 10")
    case True
    then show ?thesis by (simp add: dec.simps [of n] digits_value_def)
  next
    case False
    then show ?thesis
      using 1 by (simp add: dec.simps [of n] digits_value_snoc)
  qed
qed

lemma dec_inject [simp]: "dec m = dec n \<longleftrightarrow> m = n"
  by (metis digits_value_dec)

lemma length_dec_le: "n < 10 ^ k \<Longrightarrow> 0 < k \<Longrightarrow> length (dec n) \<le> k"
proof (induction n arbitrary: k rule: dec.induct)
  case (1 n)
  show ?case
  proof (cases "n < 10")
    case True
    then show ?thesis using 1 by (simp add: dec.simps [of n])
  next
    case False
    then obtain j where j: "k = Suc j" "0 < j"
      using "1.prems" by (metis One_nat_def Suc_pred' gr0I power_one_right)
    then have "n div 10 < 10 ^ j" using "1.prems" by (simp add: div_less_iff_less_mult)
    with False j 1 show ?thesis by (simp add: dec.simps [of n])
  qed
qed

lemma length_dec_ge: "10 ^ k \<le> n \<Longrightarrow> k < length (dec n)"
proof (induction n arbitrary: k rule: dec.induct)
  case (1 n)
  show ?case
  proof (cases "n < 10")
    case True
    then have "k = 0" using "1.prems" by (cases k) (auto dest: order.strict_trans1 simp: not_le [symmetric])
    then show ?thesis by simp
  next
    case False
    show ?thesis
    proof (cases k)
      case 0
      then show ?thesis by simp
    next
      case (Suc j)
      then have "10 ^ j \<le> n div 10" using "1.prems" by (simp add: less_eq_div_iff_mult_less_eq)
      with False Suc 1 show ?thesis by (simp add: dec.simps [of n])
    qed
  qed
qed

section \<open>\<open>strtol\<close>\<close>

definition LONG_MAX :: int where "LONG_MAX = 2 ^ 63 - 1"
definition LONG_MIN :: int where "LONG_MIN = - (2 ^ 63)"

text \<open>
  The value and the number of bytes read, 0 when there is no number. A number out of the range of
  a long is the nearest long.
\<close>

definition strtol_10 :: "bytes \<Rightarrow> int \<times> nat" where
  "strtol_10 s =
     (let spaces = takeWhile isspace s; s1 = drop (length spaces) s;
          signs = (case s1 of c # _ \<Rightarrow> if c = 43 \<or> c = 45 then [c] else [] | [] \<Rightarrow> []);
          ds = takeWhile isdigit (drop (length signs) s1);
          v = int (digits_value ds) * (if signs = [45] then - 1 else 1)
      in if ds = [] then (0, 0)
         else (max LONG_MIN (min LONG_MAX v), length spaces + length signs + length ds))"

lemma not_isdigit_iff: "isdigit c \<Longrightarrow> \<not> isspace c \<and> c \<noteq> 43 \<and> c \<noteq> 45"
  by (auto simp: isdigit_def isspace_def)

lemma strtol_dec:
  assumes "int n \<le> LONG_MAX" and "s = [] \<or> \<not> isdigit (hd s)"
  shows "strtol_10 (dec n @ s) = (int n, length (dec n))"
proof -
  obtain c ds where cds: "dec n = c # ds" by (cases "dec n") simp_all
  have c: "isdigit c" using dec_digits [of c n] cds by simp
  have ds: "takeWhile isdigit (dec n @ s) = dec n"
    using dec_digits [of _ n] assms(2) by (cases s) (simp_all add: takeWhile_append)
  have sp: "takeWhile isspace (dec n @ s) = []"
    using not_isdigit_iff [OF c] cds by simp
  have sg: "(case dec n @ s of c # _ \<Rightarrow> if c = 43 \<or> c = 45 then [c] else [] | [] \<Rightarrow> []) = []"
    using not_isdigit_iff [OF c] cds by simp
  show ?thesis
    unfolding strtol_10_def Let_def sp list.size drop_0 sg ds
    using assms(1) by (simp add: LONG_MIN_def)
qed

lemma strtol_range:
  assumes "strtol_10 s = (v, e)"
  shows "LONG_MIN \<le> v" and "v \<le> LONG_MAX"
  using assms by (auto simp: strtol_10_def Let_def LONG_MIN_def LONG_MAX_def split: if_splits)

end
