(* ===== verification/Redis_Writer.thy ===== *)
theory Redis_Writer
  imports C_Lib
begin

text \<open>
  \<open>src/src/protocol/redis/protocol_redis_writer.{c,h}\<close>: the replies of the Redis protocol. A
  buffer is the list of the bytes that are left in it; a writer returns the bytes between the
  pointer it was given and the one it returns, and what is left behind that pointer. NULL is
  \<open>Write_null\<close>; a store outside of the buffer is \<open>Write_fault\<close>. Doubles and the variants
  that format with \<open>vsnprintf\<close> are left out.
\<close>

datatype protocol_redis_types =
  PROTOCOL_REDIS_TYPE_SIMPLE_STRING | PROTOCOL_REDIS_TYPE_BLOB_STRING
| PROTOCOL_REDIS_TYPE_VERBATIM_STRING | PROTOCOL_REDIS_TYPE_NUMBER | PROTOCOL_REDIS_TYPE_DOUBLE
| PROTOCOL_REDIS_TYPE_BIG_NUMBER | PROTOCOL_REDIS_TYPE_NULL | PROTOCOL_REDIS_TYPE_BOOLEAN
| PROTOCOL_REDIS_TYPE_ARRAY | PROTOCOL_REDIS_TYPE_MAP | PROTOCOL_REDIS_TYPE_SET
| PROTOCOL_REDIS_TYPE_ATTRIBUTE | PROTOCOL_REDIS_TYPE_PUSH | PROTOCOL_REDIS_TYPE_SIMPLE_ERROR
| PROTOCOL_REDIS_TYPE_BLOB_ERROR

fun type_char :: "protocol_redis_types \<Rightarrow> u8" where
  "type_char PROTOCOL_REDIS_TYPE_SIMPLE_STRING = of_char CHR ''+''"
| "type_char PROTOCOL_REDIS_TYPE_BLOB_STRING = of_char CHR ''$''"
| "type_char PROTOCOL_REDIS_TYPE_VERBATIM_STRING = of_char CHR ''=''"
| "type_char PROTOCOL_REDIS_TYPE_NUMBER = of_char CHR '':''"
| "type_char PROTOCOL_REDIS_TYPE_DOUBLE = of_char CHR '',''"
| "type_char PROTOCOL_REDIS_TYPE_BIG_NUMBER = of_char CHR ''(''"
| "type_char PROTOCOL_REDIS_TYPE_NULL = of_char CHR ''_''"
| "type_char PROTOCOL_REDIS_TYPE_BOOLEAN = of_char CHR ''#''"
| "type_char PROTOCOL_REDIS_TYPE_ARRAY = of_char CHR ''*''"
| "type_char PROTOCOL_REDIS_TYPE_MAP = of_char CHR ''%''"
| "type_char PROTOCOL_REDIS_TYPE_SET = of_char CHR ''~''"
| "type_char PROTOCOL_REDIS_TYPE_ATTRIBUTE = of_char CHR ''|''"
| "type_char PROTOCOL_REDIS_TYPE_PUSH = of_char CHR ''>''"
| "type_char PROTOCOL_REDIS_TYPE_SIMPLE_ERROR = of_char CHR ''-''"
| "type_char PROTOCOL_REDIS_TYPE_BLOB_ERROR = of_char CHR ''!''"

datatype write_result = Write_null | Write_fault | Written bytes bytes

type_synonym writer = "bytes \<Rightarrow> write_result"

section \<open>Numbers\<close>

definition protocol_redis_writer_enough_space_in_buffer :: "nat \<Rightarrow> nat \<Rightarrow> bool" where
  "protocol_redis_writer_enough_space_in_buffer len requested_size \<longleftrightarrow> requested_size < len"

text \<open>\<open>__builtin_clzll\<close>\<close>

definition clz :: "u64 \<Rightarrow> nat" where
  "clz w = length (takeWhile (\<lambda>i. \<not> bit w (63 - i)) [0..<64])"

definition maxdigits :: "nat list" where
  "maxdigits = [
     1, 1, 1, 1, 2, 2, 2, 3, 3, 3, 4, 4, 4, 4, 5, 5, 5, 6, 6, 6,
     7, 7, 7, 7, 8, 8, 8, 9, 9, 9, 10, 10, 10, 10, 11, 11, 11,
     12, 12, 12, 13, 13, 13, 13, 14, 14, 14, 15, 15, 15,
     16, 16, 16, 16, 17, 17, 17, 18, 18, 18, 19, 19, 19, 19, 20]"

definition powers :: "u64 list" where
  "powers = [
     0, 1, 10, 100, 1000, 10000, 100000, 1000000, 10000000,
     100000000, 1000000000, 10000000000, 100000000000,
     1000000000000, 10000000000000, 100000000000000,
     1000000000000000, 10000000000000000, 100000000000000000,
     1000000000000000000, 10000000000000000000]"

definition protocol_redis_writer_uint64_str_length :: "u64 \<Rightarrow> nat" where
  "protocol_redis_writer_uint64_str_length number =
     (if number = 0 then 1
      else let bits = 64 - clz number; digits = maxdigits ! bits
           in if number < powers ! digits then digits - 1 else digits)"

text \<open>
  Signed numbers are 64 bit words. The multiplication with -1 overflows for the least number,
  which C leaves undefined; here it wraps around to itself, as the instruction does.
\<close>

definition protocol_redis_writer_int64_str_length :: "u64 \<Rightarrow> nat" where
  "protocol_redis_writer_int64_str_length number =
     (if number <s 0 then protocol_redis_writer_uint64_str_length (- number) + 1
      else protocol_redis_writer_uint64_str_length number)"

text \<open>
  The digits from the last to the first. When the number has more digits than the given length,
  the loop stores in front of the buffer: that is None. The test behind the loop is never true.
\<close>

fun uint64_to_str_loop :: "u64 \<Rightarrow> nat \<Rightarrow> bytes \<Rightarrow> bytes option" where
  "uint64_to_str_loop number 0 buffer = None"
| "uint64_to_str_loop number (Suc n) buffer =
     (let buffer' = buffer[n := ucast (number mod 10 + 48)]; number' = number div 10
      in if number' > 0 then uint64_to_str_loop number' n buffer' else Some buffer')"

definition protocol_redis_writer_uint64_to_str :: "u64 \<Rightarrow> nat \<Rightarrow> writer" where
  "protocol_redis_writer_uint64_to_str number number_str_length buffer =
     (if number_str_length = 0 \<or> number_str_length > length buffer then Write_null
      else case uint64_to_str_loop number number_str_length buffer of
             None \<Rightarrow> Write_fault
           | Some buffer' \<Rightarrow> Written (take number_str_length buffer') (drop number_str_length buffer'))"

fun prefix_written :: "bytes \<Rightarrow> write_result \<Rightarrow> write_result" where
  "prefix_written p (Written w rest) = Written (p @ w) rest"
| "prefix_written p r = r"

definition protocol_redis_writer_int64_to_str :: "u64 \<Rightarrow> nat \<Rightarrow> writer" where
  "protocol_redis_writer_int64_to_str number number_str_length buffer =
     (if number_str_length = 0 \<or> number_str_length > length buffer then Write_null
      else if number <s 0
      then prefix_written [of_char CHR ''-'']
             (protocol_redis_writer_uint64_to_str (- number) (number_str_length - 1) (tl buffer))
      else protocol_redis_writer_uint64_to_str number number_str_length buffer)"

section \<open>Parts of a reply\<close>

text \<open>The macro \<open>PROTOCOL_REDIS_WRITER_WRITE_ARGUMENT_WRAPPER\<close>: the second writer goes on where the first stopped.\<close>

definition wseq :: "writer \<Rightarrow> writer \<Rightarrow> writer" where
  "wseq f g buffer =
     (case f buffer of
        Written w rest \<Rightarrow> prefix_written w (g rest)
      | r \<Rightarrow> r)"

definition write_bytes :: "bytes \<Rightarrow> writer" where
  "write_bytes bs buffer =
     (if \<not> protocol_redis_writer_enough_space_in_buffer (length buffer) (length bs) then Write_null
      else Written bs (drop (length bs) buffer))"

definition protocol_redis_writer_write_argument_type :: "protocol_redis_types \<Rightarrow> writer" where
  "protocol_redis_writer_write_argument_type type = write_bytes [type_char type]"

definition protocol_redis_writer_write_argument_boolean :: "bool \<Rightarrow> writer" where
  "protocol_redis_writer_write_argument_boolean is_true =
     write_bytes [if is_true then of_char CHR ''t'' else of_char CHR ''f'']"

definition protocol_redis_writer_write_argument_number :: "u64 \<Rightarrow> writer" where
  "protocol_redis_writer_write_argument_number number buffer =
     (let number_size = protocol_redis_writer_int64_str_length number
      in if \<not> protocol_redis_writer_enough_space_in_buffer (length buffer) number_size then Write_null
         else protocol_redis_writer_int64_to_str number number_size buffer)"

definition protocol_redis_writer_write_argument_string :: "bytes \<Rightarrow> writer" where
  "protocol_redis_writer_write_argument_string string = write_bytes string"

definition protocol_redis_writer_write_argument_eol :: writer where
  "protocol_redis_writer_write_argument_eol = write_bytes [13, 10]"

definition protocol_redis_writer_write_argument_blob_start :: "bool \<Rightarrow> u64 \<Rightarrow> writer" where
  "protocol_redis_writer_write_argument_blob_start is_error string_length =
     wseq (protocol_redis_writer_write_argument_type
             (if is_error then PROTOCOL_REDIS_TYPE_BLOB_ERROR else PROTOCOL_REDIS_TYPE_BLOB_STRING))
    (wseq (protocol_redis_writer_write_argument_number string_length)
       protocol_redis_writer_write_argument_eol)"

definition protocol_redis_writer_write_argument_blob_end :: writer where
  "protocol_redis_writer_write_argument_blob_end = protocol_redis_writer_write_argument_eol"

text \<open>The string and its length, or None for the length -1 without a string.\<close>

definition protocol_redis_writer_write_argument_blob :: "bool \<Rightarrow> bytes option \<Rightarrow> writer" where
  "protocol_redis_writer_write_argument_blob is_error string =
     (case string of
        None \<Rightarrow> protocol_redis_writer_write_argument_blob_start is_error (- 1)
      | Some s \<Rightarrow>
          wseq (protocol_redis_writer_write_argument_blob_start is_error (of_nat (length s)))
         (wseq (protocol_redis_writer_write_argument_string s)
            protocol_redis_writer_write_argument_blob_end))"

definition protocol_redis_writer_write_argument_simple :: "bool \<Rightarrow> bytes \<Rightarrow> writer" where
  "protocol_redis_writer_write_argument_simple is_error string =
     wseq (protocol_redis_writer_write_argument_type
             (if is_error then PROTOCOL_REDIS_TYPE_SIMPLE_ERROR else PROTOCOL_REDIS_TYPE_SIMPLE_STRING))
    (wseq (protocol_redis_writer_write_argument_string string)
       protocol_redis_writer_write_argument_eol)"

section \<open>Replies\<close>

text \<open>The macro \<open>PROTOCOL_REDIS_WRITER_WRITE_FUNC_WRAPPER\<close>\<close>

definition write_func :: "protocol_redis_types \<Rightarrow> writer \<Rightarrow> writer" where
  "write_func type body =
     wseq (protocol_redis_writer_write_argument_type type)
    (wseq body protocol_redis_writer_write_argument_eol)"

definition protocol_redis_writer_write_null :: writer where
  "protocol_redis_writer_write_null =
     wseq (protocol_redis_writer_write_argument_type PROTOCOL_REDIS_TYPE_NULL)
       protocol_redis_writer_write_argument_eol"

definition protocol_redis_writer_write_boolean :: "bool \<Rightarrow> writer" where
  "protocol_redis_writer_write_boolean is_true =
     write_func PROTOCOL_REDIS_TYPE_BOOLEAN (protocol_redis_writer_write_argument_boolean is_true)"

definition protocol_redis_writer_write_blob_string :: "bytes \<Rightarrow> writer" where
  "protocol_redis_writer_write_blob_string string =
     protocol_redis_writer_write_argument_blob False (Some string)"

definition protocol_redis_writer_write_blob_string_null :: writer where
  "protocol_redis_writer_write_blob_string_null = protocol_redis_writer_write_argument_blob False None"

definition protocol_redis_writer_write_blob_error :: "bytes \<Rightarrow> writer" where
  "protocol_redis_writer_write_blob_error string =
     protocol_redis_writer_write_argument_blob True (Some string)"

definition protocol_redis_writer_write_simple_string :: "bytes \<Rightarrow> writer" where
  "protocol_redis_writer_write_simple_string = protocol_redis_writer_write_argument_simple False"

definition protocol_redis_writer_write_simple_error :: "bytes \<Rightarrow> writer" where
  "protocol_redis_writer_write_simple_error = protocol_redis_writer_write_argument_simple True"

definition protocol_redis_writer_write_number :: "u64 \<Rightarrow> writer" where
  "protocol_redis_writer_write_number number =
     write_func PROTOCOL_REDIS_TYPE_NUMBER (protocol_redis_writer_write_argument_number number)"

definition protocol_redis_writer_write_big_number :: "bytes \<Rightarrow> writer" where
  "protocol_redis_writer_write_big_number bignumber =
     write_func PROTOCOL_REDIS_TYPE_BIG_NUMBER
       (wseq (protocol_redis_writer_write_argument_number (of_nat (length bignumber)))
       (wseq protocol_redis_writer_write_argument_eol
          (protocol_redis_writer_write_argument_string bignumber)))"

definition protocol_redis_writer_write_array :: "u32 \<Rightarrow> writer" where
  "protocol_redis_writer_write_array array_count =
     write_func PROTOCOL_REDIS_TYPE_ARRAY (protocol_redis_writer_write_argument_number (ucast array_count))"

definition protocol_redis_writer_write_map :: "u32 \<Rightarrow> writer" where
  "protocol_redis_writer_write_map items_count =
     write_func PROTOCOL_REDIS_TYPE_MAP (protocol_redis_writer_write_argument_number (ucast items_count))"

definition protocol_redis_writer_write_set :: "u32 \<Rightarrow> writer" where
  "protocol_redis_writer_write_set set_count =
     write_func PROTOCOL_REDIS_TYPE_SET (protocol_redis_writer_write_argument_number (ucast set_count))"

definition protocol_redis_writer_write_attribute :: "u32 \<Rightarrow> writer" where
  "protocol_redis_writer_write_attribute attributes_count =
     write_func PROTOCOL_REDIS_TYPE_ATTRIBUTE
       (protocol_redis_writer_write_argument_number (ucast attributes_count))"

definition protocol_redis_writer_write_push :: "u32 \<Rightarrow> writer" where
  "protocol_redis_writer_write_push messages_count =
     write_func PROTOCOL_REDIS_TYPE_PUSH (protocol_redis_writer_write_argument_number (ucast messages_count))"

section \<open>The length of a number\<close>

lemma clz_less: "w \<noteq> 0 \<Longrightarrow> clz w < 64" and bit_clz: "w \<noteq> 0 \<Longrightarrow> bit w (63 - clz w)"
proof -
  assume "w \<noteq> 0"
  then obtain i where i: "bit w i" "i < 64" by (auto simp: bit_eq_iff dest: bit_imp_le_length)
  have "\<not> (\<forall>j\<in>set [0..<64]. \<not> bit w (63 - j))" using i by (auto intro!: bexI [of _ "63 - i"])
  then have "takeWhile (\<lambda>j. \<not> bit w (63 - j)) [0..<64] \<noteq> [0..<64]"
    by (subst takeWhile_eq_all_conv)
  then show less: "clz w < 64"
    unfolding clz_def
    by (metis length_takeWhile_le length_upt minus_nat.diff_0 nat_less_le take_all_iff order_refl takeWhile_eq_take)
  from nth_length_takeWhile [of "\<lambda>j. \<not> bit w (63 - j)" "[0..<64]"] less
  show "bit w (63 - clz w)" by (simp add: clz_def)
qed

lemma clz_top: "63 - clz w < j \<Longrightarrow> \<not> bit w j"
proof
  assume j: "63 - clz w < j" and "bit w j"
  then have "j < 64" by (auto dest: bit_imp_le_length)
  with j have less: "63 - j < clz w" by simp
  then have "takeWhile (\<lambda>i. \<not> bit w (63 - i)) [0..<64] ! (63 - j) = [0..<64] ! (63 - j)"
    by (simp add: clz_def takeWhile_nth)
  moreover have "[0..<64] ! (63 - j) = 63 - j" by (simp add: nth_upt)
  ultimately have "63 - j \<in> set (takeWhile (\<lambda>i. \<not> bit w (63 - i)) [0..<64])"
    using less unfolding clz_def by (metis nth_mem)
  then have "\<not> bit w (63 - (63 - j))" by (auto dest: set_takeWhileD)
  with \<open>bit w j\<close> \<open>j < 64\<close> show False by simp
qed

lemma clz_bounds:
  assumes "w \<noteq> 0"
  shows "2 ^ (63 - clz w) \<le> unat w" and "unat w < 2 ^ (64 - clz w)"
proof -
  let ?k = "63 - clz w"
  have "i < 64 - clz w" if "bit w i" for i
    using clz_top [of w i] that clz_less [OF assms] by linarith
  then have "take_bit (64 - clz w) w = w"
    by (intro bit_word_eqI) (auto simp: bit_take_bit_iff)
  then have "unat w = take_bit (64 - clz w) (unat w)" by (metis unsigned_take_bit_eq)
  then show "unat w < 2 ^ (64 - clz w)" by (metis take_bit_nat_less_exp)
  have "bit (unat w) ?k" using bit_clz [OF assms] by (simp add: bit_unsigned_iff)
  then have "odd (unat w div 2 ^ ?k)" by (simp add: bit_iff_odd)
  then have "unat w div 2 ^ ?k \<noteq> 0" by (metis even_zero)
  then show "2 ^ ?k \<le> unat w" by (metis div_less not_le)
qed

text \<open>The two tables fit: checked entry by entry.\<close>

definition digits_table_ok :: "nat \<Rightarrow> bool" where
  "digits_table_ok b \<longleftrightarrow>
     (let d = maxdigits ! b
      in 0 < d \<and> d < 21 \<and> unat (powers ! d) = 10 ^ (d - 1) \<and> 2 ^ b \<le> (10 :: nat) ^ d
         \<and> (d = 1 \<or> 10 ^ (d - 2) \<le> (2 :: nat) ^ (b - 1)))"

lemma digits_table: "1 \<le> b \<Longrightarrow> b \<le> 64 \<Longrightarrow> digits_table_ok b"
proof -
  have "\<forall>b\<in>set [1..<65]. digits_table_ok b"
    by (simp add: upt_conv_Cons digits_table_ok_def maxdigits_def powers_def Let_def)
  moreover assume "1 \<le> b" "b \<le> 64"
  ultimately show ?thesis by simp
qed

lemma uint64_str_length_dec: "protocol_redis_writer_uint64_str_length n = length (dec (unat n))"
proof (cases "n = 0")
  case True
  then show ?thesis by (simp add: protocol_redis_writer_uint64_str_length_def dec.simps)
next
  case False
  let ?b = "64 - clz n"
  let ?d = "maxdigits ! ?b"
  have b: "1 \<le> ?b" "?b \<le> 64" "?b - 1 = 63 - clz n" using clz_less [OF False] by auto
  have tab: "0 < ?d" "unat (powers ! ?d) = 10 ^ (?d - 1)" "2 ^ ?b \<le> (10 :: nat) ^ ?d"
      "?d = 1 \<or> 10 ^ (?d - 2) \<le> (2 :: nat) ^ (?b - 1)"
    using digits_table [OF b(1,2)] by (simp_all add: digits_table_ok_def Let_def)
  have up: "unat n < 10 ^ ?d" using clz_bounds(2) [OF False] tab(3) by linarith
  have pos: "0 < unat n" using False by (simp add: unat_gt_0)
  show ?thesis
  proof (cases "n < powers ! ?d")
    case True
    then have less: "unat n < 10 ^ (?d - 1)" using tab(2) by (simp add: word_less_nat_alt)
    then have "?d \<noteq> 1" using pos by (cases "?d = 1") simp_all
    then have "10 ^ (?d - 2) \<le> unat n" using tab(4) clz_bounds(1) [OF False] b(3) by simp
    then have "?d - 2 < length (dec (unat n))" by (rule length_dec_ge)
    moreover have "length (dec (unat n)) \<le> ?d - 1"
      using length_dec_le [OF less] \<open>?d \<noteq> 1\<close> tab(1) by simp
    ultimately have "length (dec (unat n)) = ?d - 1" using \<open>?d \<noteq> 1\<close> tab(1) by simp
    then show ?thesis
      using True False by (simp add: protocol_redis_writer_uint64_str_length_def Let_def)
  next
    case False': False
    then have "10 ^ (?d - 1) \<le> unat n" using tab(2) by (simp add: word_less_nat_alt)
    then have "?d - 1 < length (dec (unat n))" by (rule length_dec_ge)
    moreover have "length (dec (unat n)) \<le> ?d" using length_dec_le [OF up] tab(1) by simp
    ultimately have "length (dec (unat n)) = ?d" by simp
    then show ?thesis
      using False False' by (simp add: protocol_redis_writer_uint64_str_length_def Let_def)
  qed
qed

section \<open>Digits\<close>

lemma ucast_digit: "(ucast (n mod 10 + 48 :: u64) :: u8) = digit (unat n mod 10)"
proof (rule word_unat_eq_iff [THEN iffD2])
  have *: "unat (n mod 10 + 48) = 48 + unat n mod 10"
    by (simp add: unat_word_ariths unat_mod)
  have "unat n mod 10 < 10" by simp
  then have "unat (n mod 10 + 48) < 2 ^ LENGTH(8)" unfolding * by simp
  from unat_ucast_small [OF this] show "unat (ucast (n mod 10 + 48 :: u64) :: u8) = unat (digit (unat n mod 10))"
    unfolding * using \<open>unat n mod 10 < 10\<close> by simp
qed

lemma uint64_to_str_loop_dec:
  "length (dec (unat number)) \<le> n \<Longrightarrow> n \<le> length buffer
    \<Longrightarrow> uint64_to_str_loop number n buffer
      = Some (take (n - length (dec (unat number))) buffer @ dec (unat number) @ drop n buffer)"
proof (induction number n buffer rule: uint64_to_str_loop.induct)
  case (1 number buffer)
  then show ?case by simp
next
  case (2 number n buffer)
  let ?b = "buffer[n := digit (unat number mod 10)]"
  have cell: "drop n ?b = digit (unat number mod 10) # drop (Suc n) buffer"
    using "2.prems" by (simp add: drop_update_swap Cons_nth_drop_Suc [symmetric])
  show ?case
  proof (cases "unat number < 10")
    case True
    then have "number div 10 = 0" by (simp add: word_unat_eq_iff unat_div)
    with True "2.prems" show ?thesis
      by (simp add: ucast_digit dec.simps [of "unat number"] upd_conv_take_nth_drop)
  next
    case False
    then have pos: "number div 10 > 0" by (simp add: word_greater_zero_iff word_unat_eq_iff unat_div)
    let ?m = "number div 10"
    have m: "unat ?m = unat number div 10" by (simp add: unat_div)
    have dec: "dec (unat number) = dec (unat ?m) @ [digit (unat number mod 10)]"
      using False by (simp add: dec.simps [of "unat number"] m)
    have "uint64_to_str_loop ?m n ?b
        = Some (take (n - length (dec (unat ?m))) ?b @ dec (unat ?m) @ drop n ?b)"
      using "2.IH" [OF _ refl] pos "2.prems" dec by (simp add: ucast_digit)
    then show ?thesis
      using pos by (simp add: ucast_digit dec cell)
  qed
qed

end
