(* ===== verification/Redis_Replies.thy ===== *)
theory Redis_Replies
  imports Redis_Writer
begin

text \<open>
  What the writers write: each of them is a writer of fixed bytes, so that a reply is complete or
  absent and no store leaves the buffer.
\<close>

section \<open>What a writer writes\<close>

text \<open>
  A writer of the bytes \<open>e\<close> writes them when more than their number is left in the buffer, and
  otherwise returns NULL: one byte of every buffer stays unused.
\<close>

definition writes :: "writer \<Rightarrow> bytes \<Rightarrow> bool" where
  "writes f e \<longleftrightarrow>
     (\<forall>buffer. f buffer =
        (if length e < length buffer then Written e (drop (length e) buffer) else Write_null))"

lemma writes_bytes: "writes (write_bytes e) e"
  by (simp add: writes_def write_bytes_def protocol_redis_writer_enough_space_in_buffer_def)

lemma writes_wseq:
  assumes "writes f a" and "writes g b"
  shows "writes (wseq f g) (a @ b)"
  using assms by (auto simp: writes_def wseq_def add.commute)

text \<open>The notation of a signed number.\<close>

definition int_dec :: "u64 \<Rightarrow> bytes" where
  "int_dec number =
     (if sint number < 0 then of_char CHR ''-'' # dec (nat (- sint number)) else dec (nat (sint number)))"

lemma nat_minus_sint:
  assumes "sint (w :: u64) < 0"
  shows "nat (- sint w) = unat (- w)"
proof -
  have "- w = of_int (- sint w)" by simp
  then have "uint (- w) = take_bit 64 (- sint w)" by (simp only: uint_word_of_int_eq) simp
  also have "\<dots> = - sint w"
    using assms sint_greater_eq [of w] by (intro take_bit_int_eq_self) simp_all
  finally show ?thesis by (simp flip: nat_uint_eq)
qed

lemma nat_sint: "0 \<le> sint (w :: u64) \<Longrightarrow> nat (sint w) = unat w"
proof -
  assume "0 \<le> sint w"
  then have "sint w = uint w"
    using sint_less [of w] uint_word_of_int_eq [of "sint w", where 'a = 64]
      take_bit_int_eq_self [of "sint w" 64] by simp
  then show ?thesis by (simp flip: nat_uint_eq)
qed

lemma int_dec_word:
  "int_dec number =
     (if number <s 0 then of_char CHR ''-'' # dec (unat (- number)) else dec (unat number))"
  by (simp add: int_dec_def word_sless_alt nat_minus_sint nat_sint)

lemma uint64_to_str_written:
  "n = length (dec (unat number)) \<Longrightarrow> n \<le> length buffer
    \<Longrightarrow> protocol_redis_writer_uint64_to_str number n buffer = Written (dec (unat number)) (drop n buffer)"
  using uint64_to_str_loop_dec [of number n buffer]
  by (simp add: protocol_redis_writer_uint64_to_str_def)

lemma writes_number: "writes (protocol_redis_writer_write_argument_number number) (int_dec number)"
  unfolding writes_def
proof
  fix buffer :: bytes
  have tl: "length (tl buffer) = length buffer - 1" "drop n (tl buffer) = drop (Suc n) buffer" for n
    by (simp_all add: drop_Suc)
  show "protocol_redis_writer_write_argument_number number buffer =
      (if length (int_dec number) < length buffer
       then Written (int_dec number) (drop (length (int_dec number)) buffer) else Write_null)"
    using uint64_to_str_written [OF refl, of "- number" "tl buffer"] uint64_to_str_written [OF refl, of number buffer]
    by (auto simp: protocol_redis_writer_write_argument_number_def Let_def tl uint64_str_length_dec
        protocol_redis_writer_int64_str_length_def protocol_redis_writer_int64_to_str_def int_dec_word
        protocol_redis_writer_enough_space_in_buffer_def)
qed

lemma int_dec_nat:
  assumes "n < 2 ^ 63"
  shows "int_dec (of_nat n) = dec n"
proof -
  have u: "unat (of_nat n :: u64) = n" by (rule unat_of_nat_small) (use assms in simp)
  then have "uint (of_nat n :: u64) = int n" by (metis of_nat_unat)
  then have "sint (of_nat n :: u64) = int n"
    unfolding sint_uint by (simp only:) (rule signed_take_bit_int_eq_self, use assms in simp_all)
  then have "\<not> (of_nat n :: u64) <s 0" by (simp add: word_sless_alt)
  then show ?thesis by (simp add: int_dec_word u)
qed

section \<open>The replies and their bytes\<close>

datatype resp_reply =
  Resp_null | Resp_boolean bool | Resp_blob_string bytes | Resp_blob_string_null | Resp_blob_error bytes
| Resp_simple_string bytes | Resp_simple_error bytes | Resp_number u64 | Resp_big_number bytes
| Resp_array u32 | Resp_map u32 | Resp_set u32 | Resp_attribute u32 | Resp_push u32

abbreviation crlf :: bytes where "crlf \<equiv> [13, 10]"

definition resp_line :: "protocol_redis_types \<Rightarrow> bytes \<Rightarrow> bytes" where
  "resp_line type body = type_char type # body @ crlf"

text \<open>The replies in the notation of the protocol.\<close>

fun resp :: "resp_reply \<Rightarrow> bytes" where
  "resp Resp_null = resp_line PROTOCOL_REDIS_TYPE_NULL []"
| "resp (Resp_boolean b) =
     resp_line PROTOCOL_REDIS_TYPE_BOOLEAN [if b then of_char CHR ''t'' else of_char CHR ''f'']"
| "resp (Resp_blob_string s) = resp_line PROTOCOL_REDIS_TYPE_BLOB_STRING (dec (length s)) @ s @ crlf"
| "resp Resp_blob_string_null = resp_line PROTOCOL_REDIS_TYPE_BLOB_STRING (of_char CHR ''-'' # dec 1)"
| "resp (Resp_blob_error s) = resp_line PROTOCOL_REDIS_TYPE_BLOB_ERROR (dec (length s)) @ s @ crlf"
| "resp (Resp_simple_string s) = resp_line PROTOCOL_REDIS_TYPE_SIMPLE_STRING s"
| "resp (Resp_simple_error s) = resp_line PROTOCOL_REDIS_TYPE_SIMPLE_ERROR s"
| "resp (Resp_number n) = resp_line PROTOCOL_REDIS_TYPE_NUMBER (int_dec n)"
| "resp (Resp_big_number s) = resp_line PROTOCOL_REDIS_TYPE_BIG_NUMBER s"
| "resp (Resp_array n) = resp_line PROTOCOL_REDIS_TYPE_ARRAY (dec (unat n))"
| "resp (Resp_map n) = resp_line PROTOCOL_REDIS_TYPE_MAP (dec (unat n))"
| "resp (Resp_set n) = resp_line PROTOCOL_REDIS_TYPE_SET (dec (unat n))"
| "resp (Resp_attribute n) = resp_line PROTOCOL_REDIS_TYPE_ATTRIBUTE (dec (unat n))"
| "resp (Resp_push n) = resp_line PROTOCOL_REDIS_TYPE_PUSH (dec (unat n))"

text \<open>
  What the writers leave in the buffer. It is the notation of the protocol, except for big numbers:
  their digits are written like those of a blob, with their length on a line in front of them.
\<close>

fun reply_bytes :: "resp_reply \<Rightarrow> bytes" where
  "reply_bytes (Resp_big_number s) = resp_line PROTOCOL_REDIS_TYPE_BIG_NUMBER (dec (length s)) @ s @ crlf"
| "reply_bytes r = resp r"

text \<open>
  The replies of which the sources fix the bytes, in the notation of the protocol: no big numbers,
  and not the least number, which the writer negates (the C language leaves the result open; the
  writers of the model wrap around).
\<close>

fun resp_defined :: "resp_reply \<Rightarrow> bool" where
  "resp_defined (Resp_big_number s) \<longleftrightarrow> False"
| "resp_defined (Resp_number n) \<longleftrightarrow> sint n \<noteq> LONG_MIN"
| "resp_defined _ \<longleftrightarrow> True"

lemma reply_bytes_defined: "resp_defined r \<Longrightarrow> reply_bytes r = resp r"
  by (cases r) simp_all

fun write_reply :: "resp_reply \<Rightarrow> writer" where
  "write_reply Resp_null = protocol_redis_writer_write_null"
| "write_reply (Resp_boolean b) = protocol_redis_writer_write_boolean b"
| "write_reply (Resp_blob_string s) = protocol_redis_writer_write_blob_string s"
| "write_reply Resp_blob_string_null = protocol_redis_writer_write_blob_string_null"
| "write_reply (Resp_blob_error s) = protocol_redis_writer_write_blob_error s"
| "write_reply (Resp_simple_string s) = protocol_redis_writer_write_simple_string s"
| "write_reply (Resp_simple_error s) = protocol_redis_writer_write_simple_error s"
| "write_reply (Resp_number n) = protocol_redis_writer_write_number n"
| "write_reply (Resp_big_number s) = protocol_redis_writer_write_big_number s"
| "write_reply (Resp_array n) = protocol_redis_writer_write_array n"
| "write_reply (Resp_map n) = protocol_redis_writer_write_map n"
| "write_reply (Resp_set n) = protocol_redis_writer_write_set n"
| "write_reply (Resp_attribute n) = protocol_redis_writer_write_attribute n"
| "write_reply (Resp_push n) = protocol_redis_writer_write_push n"

text \<open>Lengths are signed; a simple string must not hold the end of a line.\<close>

fun resp_ok :: "resp_reply \<Rightarrow> bool" where
  "resp_ok (Resp_blob_string s) \<longleftrightarrow> length s < 2 ^ 31"
| "resp_ok (Resp_blob_error s) \<longleftrightarrow> length s < 2 ^ 31"
| "resp_ok (Resp_big_number s) \<longleftrightarrow> length s < 2 ^ 31"
| "resp_ok (Resp_simple_string s) \<longleftrightarrow> 13 \<notin> set s"
| "resp_ok (Resp_simple_error s) \<longleftrightarrow> 13 \<notin> set s"
| "resp_ok _ \<longleftrightarrow> True"

lemma writes_eqI: "writes f a \<Longrightarrow> a = b \<Longrightarrow> writes f b"
  by simp

lemma writes_type: "writes (protocol_redis_writer_write_argument_type type) [type_char type]"
  unfolding protocol_redis_writer_write_argument_type_def by (rule writes_bytes)

lemma writes_eol: "writes protocol_redis_writer_write_argument_eol crlf"
  unfolding protocol_redis_writer_write_argument_eol_def by (rule writes_bytes)

lemma writes_string: "writes (protocol_redis_writer_write_argument_string s) s"
  unfolding protocol_redis_writer_write_argument_string_def by (rule writes_bytes)

lemmas writes_parts = writes_wseq writes_type writes_eol writes_string writes_number

lemma writes_func: "writes body b \<Longrightarrow> writes (write_func type body) (resp_line type b)"
  unfolding write_func_def
  by (rule writes_eqI) (rule writes_parts | assumption | simp add: resp_line_def)+

lemma writes_blob_start:
  "writes (protocol_redis_writer_write_argument_blob_start is_error n)
     (resp_line (if is_error then PROTOCOL_REDIS_TYPE_BLOB_ERROR else PROTOCOL_REDIS_TYPE_BLOB_STRING) (int_dec n))"
  unfolding protocol_redis_writer_write_argument_blob_start_def
  by (rule writes_eqI) (rule writes_parts | simp add: resp_line_def)+

lemma writes_blob:
  assumes "length s < 2 ^ 31"
  shows "writes (protocol_redis_writer_write_argument_blob is_error (Some s))
     (resp_line (if is_error then PROTOCOL_REDIS_TYPE_BLOB_ERROR else PROTOCOL_REDIS_TYPE_BLOB_STRING)
        (dec (length s)) @ s @ crlf)"
  unfolding protocol_redis_writer_write_argument_blob_def protocol_redis_writer_write_argument_blob_end_def option.case
  by (rule writes_eqI) (rule writes_parts writes_blob_start | use assms in \<open>simp add: int_dec_nat\<close>)+

lemma writes_simple:
  "writes (protocol_redis_writer_write_argument_simple is_error s)
     (resp_line (if is_error then PROTOCOL_REDIS_TYPE_SIMPLE_ERROR else PROTOCOL_REDIS_TYPE_SIMPLE_STRING) s)"
  unfolding protocol_redis_writer_write_argument_simple_def
  by (rule writes_eqI) (rule writes_parts | simp add: resp_line_def)+

lemma int_dec_u32: "int_dec (ucast (n :: u32)) = dec (unat n)"
proof -
  have "unat n < 2 ^ 32" using unsigned_less [of n, where 'a = nat] by simp
  then show ?thesis using int_dec_nat [of "unat n"] by simp
qed

lemma writes_count: "writes (write_func type (protocol_redis_writer_write_argument_number (ucast (n :: u32))))
    (resp_line type (dec (unat n)))"
  using writes_func [OF writes_number, of type "ucast n"] by (simp add: int_dec_u32)

lemma writes_big_number:
  assumes "length s < 2 ^ 31"
  shows "writes (protocol_redis_writer_write_big_number s) (reply_bytes (Resp_big_number s))"
  unfolding protocol_redis_writer_write_big_number_def write_func_def
  by (rule writes_eqI) (rule writes_parts | use assms in \<open>simp add: int_dec_nat resp_line_def\<close>)+

lemma int_dec_minus_1: "int_dec (- 1) = of_char CHR ''-'' # dec 1"
  by (simp add: int_dec_word word_sless_alt)

lemma writes_reply:
  assumes "resp_ok r"
  shows "writes (write_reply r) (reply_bytes r)"
proof (cases r)
  case Resp_null
  have "writes protocol_redis_writer_write_null ([type_char PROTOCOL_REDIS_TYPE_NULL] @ crlf)"
    unfolding protocol_redis_writer_write_null_def by (intro writes_parts)
  with Resp_null show ?thesis by (simp add: resp_line_def)
next
  case (Resp_boolean b)
  then show ?thesis
    by (simp add: protocol_redis_writer_write_boolean_def protocol_redis_writer_write_argument_boolean_def
        writes_func writes_bytes)
next
  case Resp_blob_string_null
  then show ?thesis
    using writes_blob_start [of False "- 1"]
    by (simp add: protocol_redis_writer_write_blob_string_null_def int_dec_minus_1
        protocol_redis_writer_write_argument_blob_def)
next
  case (Resp_blob_string s)
  then show ?thesis
    using assms writes_blob [of s False] by (simp add: protocol_redis_writer_write_blob_string_def)
next
  case (Resp_blob_error s)
  then show ?thesis
    using assms writes_blob [of s True] by (simp add: protocol_redis_writer_write_blob_error_def)
next
  case (Resp_simple_string s)
  then show ?thesis
    using writes_simple [of False s] by (simp add: protocol_redis_writer_write_simple_string_def)
next
  case (Resp_simple_error s)
  then show ?thesis
    using writes_simple [of True s] by (simp add: protocol_redis_writer_write_simple_error_def)
next
  case (Resp_number n)
  then show ?thesis by (simp add: protocol_redis_writer_write_number_def writes_func writes_number)
next
  case (Resp_big_number s)
  then show ?thesis using assms writes_big_number [of s] by simp
qed (simp_all add: writes_count protocol_redis_writer_write_array_def protocol_redis_writer_write_map_def
    protocol_redis_writer_write_set_def protocol_redis_writer_write_attribute_def
    protocol_redis_writer_write_push_def)

section \<open>Streams of messages\<close>

text \<open>
  A writer of messages into buffers, for messages whose bytes tell where they end. The client
  lemmas: a stream of messages is written completely or the buffer was too small, and it can be
  read in one way only.
\<close>

locale message_writer =
  fixes wr :: "'m \<Rightarrow> writer"
    and valid :: "'m \<Rightarrow> bool"
    and enc :: "'m \<Rightarrow> bytes"
  assumes write_law: "valid m \<Longrightarrow> writes (wr m) (enc m)"
    and prefix_law: "valid m \<Longrightarrow> valid n \<Longrightarrow> enc m @ x = enc n @ y \<Longrightarrow> m = n"
    and nonempty: "valid m \<Longrightarrow> enc m \<noteq> []"
begin

lemma stream_written:
  "\<forall>m\<in>set (m # ms). valid m \<Longrightarrow> writes (foldl (\<lambda>f n. wseq f (wr n)) (wr m) ms) (concat (map enc (m # ms)))"
proof (induction ms rule: rev_induct)
  case Nil
  then show ?case using write_law by simp
next
  case (snoc n ms)
  then have "writes (wseq (foldl (\<lambda>f n. wseq f (wr n)) (wr m) ms) (wr n)) (concat (map enc (m # ms)) @ enc n)"
    by (intro writes_wseq write_law) simp_all
  then show ?case by simp
qed

lemma stream_unique:
  "\<forall>m\<in>set ms. valid m \<Longrightarrow> \<forall>n\<in>set ns. valid n \<Longrightarrow> concat (map enc ms) = concat (map enc ns) \<Longrightarrow> ms = ns"
proof (induction ms arbitrary: ns)
  case Nil
  then show ?case using nonempty by (cases ns) simp_all
next
  case (Cons m ms)
  have "enc m \<noteq> []" using nonempty Cons.prems(1) by simp
  then obtain n ns' where ns: "ns = n # ns'" using Cons.prems(3) by (cases ns) simp_all
  have eq: "enc m @ concat (map enc ms) = enc n @ concat (map enc ns')" using Cons.prems(3) ns by simp
  have "valid m" "valid n" using Cons.prems(1,2) ns by simp_all
  with eq have mn: "m = n" using prefix_law by blast
  then have "concat (map enc ms) = concat (map enc ns')" using eq by simp
  then have "ms = ns'" using Cons.IH [of ns'] Cons.prems(1,2) ns by simp
  then show ?case using mn ns by simp
qed

end

lemma split_at_first:
  assumes "a @ c # x = b @ c # y" and "c \<notin> set a" and "c \<notin> set b"
  shows "a = b \<and> x = y"
proof -
  have "takeWhile (\<lambda>z. z \<noteq> c) (a @ c # x) = a" "takeWhile (\<lambda>z. z \<noteq> c) (b @ c # y) = b"
    using assms(2,3) by (subst takeWhile_append2, auto)+
  with assms(1) have "a = b" by simp
  with assms(1) show ?thesis by simp
qed

lemma dec_no_cr: "13 \<notin> set (dec n)" "of_char CHR ''-'' \<notin> set (dec n)"
  using dec_digits [of 13 n] dec_digits [of "of_char CHR ''-''" n] by (auto simp: isdigit_def)

lemma int_dec_no_cr: "13 \<notin> set (int_dec n)"
  using dec_no_cr by (auto simp: int_dec_word)

lemma dec_not_minus: "dec n \<noteq> of_char CHR ''-'' # ds"
  using dec_no_cr(2) [of n] by auto

lemma int_dec_inject: "int_dec a = int_dec b \<Longrightarrow> a = b"
proof (cases "a <s 0"; cases "b <s 0")
  assume "int_dec a = int_dec b" "a <s 0" "b <s 0"
  then have "unat (- a) = unat (- b)" by (simp add: int_dec_word)
  then have "- a = - b" by (simp only: word_unat_eq_iff)
  then show "a = b" by simp
next
  assume "int_dec a = int_dec b" "\<not> a <s 0" "\<not> b <s 0"
  then have "unat a = unat b" by (simp add: int_dec_word)
  then show "a = b" by (simp only: word_unat_eq_iff)
qed (use dec_not_minus in \<open>auto simp: int_dec_word dest: sym\<close>)

lemma resp_line_split:
  assumes "resp_line t a @ x = resp_line u b @ y" and "13 \<notin> set a" and "13 \<notin> set b"
  shows "type_char t = type_char u" and "a = b" and "x = y"
  using assms split_at_first [of a 13 "10 # x" b "10 # y"] by (auto simp: resp_line_def)

lemma type_char_inject: "type_char t = type_char u \<longleftrightarrow> t = u"
  by (cases t; cases u) simp_all

text \<open>The type, the rest of the first line, and what follows it.\<close>

fun reply_type :: "resp_reply \<Rightarrow> protocol_redis_types" where
  "reply_type Resp_null = PROTOCOL_REDIS_TYPE_NULL"
| "reply_type (Resp_boolean b) = PROTOCOL_REDIS_TYPE_BOOLEAN"
| "reply_type (Resp_blob_string s) = PROTOCOL_REDIS_TYPE_BLOB_STRING"
| "reply_type Resp_blob_string_null = PROTOCOL_REDIS_TYPE_BLOB_STRING"
| "reply_type (Resp_blob_error s) = PROTOCOL_REDIS_TYPE_BLOB_ERROR"
| "reply_type (Resp_simple_string s) = PROTOCOL_REDIS_TYPE_SIMPLE_STRING"
| "reply_type (Resp_simple_error s) = PROTOCOL_REDIS_TYPE_SIMPLE_ERROR"
| "reply_type (Resp_number n) = PROTOCOL_REDIS_TYPE_NUMBER"
| "reply_type (Resp_big_number s) = PROTOCOL_REDIS_TYPE_BIG_NUMBER"
| "reply_type (Resp_array n) = PROTOCOL_REDIS_TYPE_ARRAY"
| "reply_type (Resp_map n) = PROTOCOL_REDIS_TYPE_MAP"
| "reply_type (Resp_set n) = PROTOCOL_REDIS_TYPE_SET"
| "reply_type (Resp_attribute n) = PROTOCOL_REDIS_TYPE_ATTRIBUTE"
| "reply_type (Resp_push n) = PROTOCOL_REDIS_TYPE_PUSH"

fun reply_body :: "resp_reply \<Rightarrow> bytes" where
  "reply_body Resp_null = []"
| "reply_body (Resp_boolean b) = [if b then of_char CHR ''t'' else of_char CHR ''f'']"
| "reply_body (Resp_blob_string s) = dec (length s)"
| "reply_body Resp_blob_string_null = of_char CHR ''-'' # dec 1"
| "reply_body (Resp_blob_error s) = dec (length s)"
| "reply_body (Resp_simple_string s) = s"
| "reply_body (Resp_simple_error s) = s"
| "reply_body (Resp_number n) = int_dec n"
| "reply_body (Resp_big_number s) = dec (length s)"
| "reply_body (Resp_array n) = dec (unat n)"
| "reply_body (Resp_map n) = dec (unat n)"
| "reply_body (Resp_set n) = dec (unat n)"
| "reply_body (Resp_attribute n) = dec (unat n)"
| "reply_body (Resp_push n) = dec (unat n)"

fun reply_tail :: "resp_reply \<Rightarrow> bytes" where
  "reply_tail (Resp_blob_string s) = s @ crlf"
| "reply_tail (Resp_blob_error s) = s @ crlf"
| "reply_tail (Resp_big_number s) = s @ crlf"
| "reply_tail _ = []"

lemma reply_bytes_split: "reply_bytes r = resp_line (reply_type r) (reply_body r) @ reply_tail r"
  by (cases r) simp_all

lemma reply_body_no_cr: "resp_ok r \<Longrightarrow> 13 \<notin> set (reply_body r)"
  by (cases r) (simp_all add: dec_no_cr int_dec_no_cr)

lemma reply_determined:
  assumes "reply_type m = reply_type n" and "reply_body m = reply_body n"
    and "reply_tail m @ x = reply_tail n @ y"
  shows "m = n"
proof (cases m)
  case (Resp_blob_string s)
  then show ?thesis using assms dec_not_minus by (cases n) auto
next
  case Resp_blob_string_null
  then show ?thesis using assms dec_not_minus by (cases n) (auto dest: sym)
next
  case (Resp_number k)
  then show ?thesis using assms int_dec_inject by (cases n) simp_all
qed (use assms in \<open>cases n; auto simp: word_unat_eq_iff split: if_splits\<close>)+

lemma reply_bytes_prefix_free:
  assumes "resp_ok m" and "resp_ok n" and "reply_bytes m @ x = reply_bytes n @ y"
  shows "m = n"
proof -
  have "resp_line (reply_type m) (reply_body m) @ (reply_tail m @ x)
      = resp_line (reply_type n) (reply_body n) @ (reply_tail n @ y)"
    using assms(3) by (simp add: reply_bytes_split)
  note resp_line_split [OF this reply_body_no_cr [OF assms(1)] reply_body_no_cr [OF assms(2)]]
  then show ?thesis using reply_determined by (simp add: type_char_inject)
qed

interpretation redis: message_writer write_reply resp_ok reply_bytes
proof
  fix m n x y
  show "resp_ok m \<Longrightarrow> writes (write_reply m) (reply_bytes m)" by (rule writes_reply)
  show "resp_ok m \<Longrightarrow> resp_ok n \<Longrightarrow> reply_bytes m @ x = reply_bytes n @ y \<Longrightarrow> m = n"
    by (rule reply_bytes_prefix_free)
  show "resp_ok m \<Longrightarrow> reply_bytes m \<noteq> []" by (simp add: reply_bytes_split resp_line_def)
qed

section \<open>Properties\<close>

definition write_replies :: "resp_reply \<Rightarrow> resp_reply list \<Rightarrow> writer" where
  "write_replies m ms = foldl (\<lambda>f n. wseq f (write_reply n)) (write_reply m) ms"

text \<open>
  C17: replies are all or nothing. Writing replies one after the other leaves exactly their bytes
  in the notation of the protocol in the buffer when the buffer has at least one byte more than
  they need, and returns NULL otherwise, also when they would fit exactly; no store is outside of
  the buffer. Big numbers, which the writer writes in another notation, and the least 64 bit
  number, whose negation C does not define, are left out; blobs are shorter than \<open>2 ^ 31\<close> bytes
  and simple strings have no carriage return.
\<close>

theorem replies_written:
  assumes "\<forall>m\<in>set (m # ms). resp_ok m \<and> resp_defined m"
  shows "write_replies m ms buffer =
    (let bs = concat (map resp (m # ms))
     in if length bs < length buffer then Written bs (drop (length bs) buffer) else Write_null)"
proof -
  have "map reply_bytes (m # ms) = map resp (m # ms)"
    using assms by (auto simp: reply_bytes_defined)
  then show ?thesis
    using redis.stream_written [of m ms] assms unfolding writes_def write_replies_def Let_def
    by (metis (no_types, lifting))
qed

theorem replies_written_witness:
  "write_replies (Resp_array 2) [Resp_number (- 7), Resp_blob_string (str ''a'')]
      [0, 0, 0, 0, 0, 0, 0, 0, 0, 0, 0, 0, 0, 0, 0, 0, 0, 0, 0, 0]
    = Written (str ''*2'' @ crlf @ str '':-7'' @ crlf @ str ''$1'' @ crlf @ str ''a'' @ crlf) [0, 0, 0, 0]"
  using replies_written [of "Resp_array 2" "[Resp_number (- 7), Resp_blob_string (str ''a'')]"
      "[0, 0, 0, 0, 0, 0, 0, 0, 0, 0, 0, 0, 0, 0, 0, 0, 0, 0, 0, 0]"]
  by (simp add: str_def resp_line_def int_dec_word word_sless_alt dec_small digit_def LONG_MIN_def)

text \<open>
  C18: the replies can be told apart. When two sequences of replies leave the same bytes in their
  buffers they are the same sequence: a client can read what was written in one way only. This
  holds for every kind of reply, with the bytes the writers really leave.
\<close>

theorem replies_decodable:
  assumes "\<forall>r\<in>set (m # ms @ n # ns). resp_ok r"
    and "write_replies m ms b = Written w r" and "write_replies n ns c = Written w q"
  shows "m # ms = n # ns"
proof -
  have "\<forall>r\<in>set (m # ms). resp_ok r" "\<forall>r\<in>set (n # ns). resp_ok r" using assms(1) by auto
  note ok = this redis.stream_written [OF this(1)] redis.stream_written [OF this(2)]
  have "w = concat (map reply_bytes (m # ms))" "w = concat (map reply_bytes (n # ns))"
    using assms(2,3) ok(3,4) unfolding write_replies_def writes_def by (auto split: if_splits)
  then show ?thesis using redis.stream_unique [OF ok(1,2)] by simp
qed

theorem replies_decodable_witness:
  "write_replies Resp_null [] (replicate 9 0) = Written (str ''_'' @ crlf) (replicate 6 0)
   \<and> write_replies (Resp_boolean True) [] (replicate 9 0) \<noteq> Written (str ''_'' @ crlf) (replicate 5 0)"
proof -
  have null: "write_replies Resp_null [] (replicate 9 0) = Written (str ''_'' @ crlf) (replicate 6 0)"
    using writes_reply [of Resp_null] by (simp add: write_replies_def writes_def resp_line_def str_def)
  then show ?thesis
    using replies_decodable [of Resp_null "[]" "Resp_boolean True" "[]"] by auto
qed

end
