(* ===== verification/Redis_Reader.thy ===== *)
theory Redis_Reader
  imports Redis_Replies
begin

text \<open>
  \<open>src/src/protocol/redis/protocol_redis_reader.{c,h}\<close>: the incremental parser of the requests,
  RESP arrays of blob strings (and the one inline request \<open>PING\<close>).

  The function is a sequence of four stages, one per state; each works on what the stages before
  it left of the buffer. \<open>behind\<close> is the memory behind the received bytes: \<open>strtol\<close> is given
  no length and may run into it. The inline protocol is commented out in the source.
\<close>

section \<open>Types\<close>

datatype protocol_redis_reader_errors =
  PROTOCOL_REDIS_READER_ERROR_OK
| PROTOCOL_REDIS_READER_ERROR_NO_DATA
| PROTOCOL_REDIS_READER_ERROR_INLINE_PROTOCOL_NOT_SUPPORTED
| PROTOCOL_REDIS_READER_ERROR_ARGS_ARRAY_INVALID_LENGTH
| PROTOCOL_REDIS_READER_ERROR_ARGS_INLINE_UNBALANCED_QUOTES
| PROTOCOL_REDIS_READER_ERROR_COMMAND_ALREADY_PARSED
| PROTOCOL_REDIS_READER_ERROR_ARGS_BLOB_STRING_EXPECTED
| PROTOCOL_REDIS_READER_ERROR_ARGS_BLOB_STRING_INVALID_LENGTH
| PROTOCOL_REDIS_READER_ERROR_ARGS_BLOB_STRING_MISSING_END_SIGNATURE

datatype protocol_redis_reader_states =
  PROTOCOL_REDIS_READER_STATE_BEGIN
| PROTOCOL_REDIS_READER_STATE_INLINE_WAITING_ARGUMENT
| PROTOCOL_REDIS_READER_STATE_RESP_WAITING_ARGUMENT_LENGTH
| PROTOCOL_REDIS_READER_STATE_RESP_WAITING_ARGUMENT_DATA
| PROTOCOL_REDIS_READER_STATE_RESP_WAITING_ARGUMENT_DATA_END
| PROTOCOL_REDIS_READER_STATE_COMMAND_PARSED

datatype protocol_redis_reader_protocol_types =
  PROTOCOL_REDIS_READER_PROTOCOL_TYPE_INLINE
| PROTOCOL_REDIS_READER_PROTOCOL_TYPE_RESP

text \<open>
  The operations with the fields that the reader sets: the bytes read, then the count of the
  arguments, or the index and length of the argument, its offset in the buffer and the length of
  the data.
\<close>

datatype protocol_redis_reader_op =
  Op_command_begin nat u32
| Op_argument_begin nat u32 u64
| Op_argument_data nat u32 u64 nat nat
| Op_argument_end nat u32 u64 nat
| Op_command_end nat u32

fun data_read_len :: "protocol_redis_reader_op \<Rightarrow> nat" where
  "data_read_len (Op_command_begin n count) = n"
| "data_read_len (Op_argument_begin n index len) = n"
| "data_read_len (Op_argument_data n index len offset data_length) = n"
| "data_read_len (Op_argument_end n index len offset) = n"
| "data_read_len (Op_command_end n count) = n"

record protocol_redis_reader_context =
  rc_state :: protocol_redis_reader_states
  rc_protocol_type :: protocol_redis_reader_protocol_types
  rc_error :: protocol_redis_reader_errors
  rc_count :: u32
  rc_index :: int
  rc_beginning :: bool
  rc_length :: u64
  rc_received_length :: u64

definition protocol_redis_reader_context_reset :: protocol_redis_reader_context where
  "protocol_redis_reader_context_reset =
     \<lparr>rc_state = PROTOCOL_REDIS_READER_STATE_BEGIN,
      rc_protocol_type = PROTOCOL_REDIS_READER_PROTOCOL_TYPE_INLINE,
      rc_error = PROTOCOL_REDIS_READER_ERROR_OK, rc_count = 0, rc_index = 0, rc_beginning = False,
      rc_length = 0, rc_received_length = 0\<rparr>"

text \<open>What the function returns: None is -1.\<close>

type_synonym read_result = "protocol_redis_reader_op list option \<times> protocol_redis_reader_context"

record reading =
  rd_context :: protocol_redis_reader_context
  rd_buffer :: bytes
  rd_offset :: nat
  rd_ops :: "protocol_redis_reader_op list"

definition read_error :: "protocol_redis_reader_errors \<Rightarrow> protocol_redis_reader_context \<Rightarrow> read_result + reading" where
  "read_error e ctx = Inl (None, ctx\<lparr>rc_error := e\<rparr>)"

definition read_return :: "reading \<Rightarrow> read_result" where
  "read_return r = (Some (rd_ops r), rd_context r)"

section \<open>A line with a number\<close>

datatype number_line = Line_partial | Line_malformed | Line_number nat int bool

text \<open>The place of the newline, the number, and whether it ends right before the carriage return.\<close>

definition read_number_line :: "bytes \<Rightarrow> bytes \<Rightarrow> number_line" where
  "read_number_line behind buffer =
     (case memchr 10 buffer of
        None \<Rightarrow> Line_partial
      | Some new_line \<Rightarrow>
          if new_line < 2 \<or> buffer ! (new_line - 1) \<noteq> 13 then Line_malformed
          else let (number, n) = strtol_10 (drop 1 buffer @ behind)
               in Line_number new_line number (new_line - 1 = 1 + n))"

section \<open>The stages\<close>

definition inline_ping :: "protocol_redis_reader_context \<Rightarrow> read_result" where
  "inline_ping ctx =
     (Some [Op_command_begin 0 1, Op_argument_begin 0 0 4, Op_argument_data 4 0 4 0 4,
            Op_argument_end 0 0 4 4, Op_command_end 2 1],
      ctx\<lparr>rc_count := 1, rc_state := PROTOCOL_REDIS_READER_STATE_COMMAND_PARSED,
          rc_received_length := rc_received_length ctx + 6\<rparr>)"

definition read_begin :: "bytes \<Rightarrow> reading \<Rightarrow> read_result + reading" where
  "read_begin behind r =
     (let ctx = rd_context r; buffer = rd_buffer r
      in if rc_state ctx \<noteq> PROTOCOL_REDIS_READER_STATE_BEGIN then Inr r
         else if hd buffer \<noteq> type_char PROTOCOL_REDIS_TYPE_ARRAY
         then if length buffer \<ge> 6 \<and> strncmp_eq (take 6 buffer) (str ''PING'' @ crlf)
              then Inl (inline_ping ctx)
              else read_error PROTOCOL_REDIS_READER_ERROR_INLINE_PROTOCOL_NOT_SUPPORTED ctx
         else case read_number_line behind buffer of
                Line_partial \<Rightarrow> Inl (read_return r)
              | Line_malformed \<Rightarrow> read_error PROTOCOL_REDIS_READER_ERROR_ARGS_ARRAY_INVALID_LENGTH ctx
              | Line_number new_line args_count ends \<Rightarrow>
                  if \<not> ends \<or> args_count \<le> 0
                  then read_error PROTOCOL_REDIS_READER_ERROR_ARGS_ARRAY_INVALID_LENGTH ctx
                  else Inr \<lparr>rd_context = ctx\<lparr>rc_count := of_int args_count,
                              rc_protocol_type := PROTOCOL_REDIS_READER_PROTOCOL_TYPE_RESP,
                              rc_state := PROTOCOL_REDIS_READER_STATE_RESP_WAITING_ARGUMENT_LENGTH,
                              rc_index := - 1, rc_beginning := True, rc_length := 0\<rparr>,
                            rd_buffer = drop (new_line + 1) buffer,
                            rd_offset = rd_offset r + (new_line + 1),
                            rd_ops = rd_ops r @ [Op_command_begin (new_line + 1) (of_int args_count)]\<rparr>)"

definition read_argument_length :: "bytes \<Rightarrow> reading \<Rightarrow> read_result + reading" where
  "read_argument_length behind r =
     (let ctx = rd_context r; buffer = rd_buffer r
      in if \<not> (length buffer > 0
                \<and> rc_state ctx = PROTOCOL_REDIS_READER_STATE_RESP_WAITING_ARGUMENT_LENGTH)
         then Inr r
         else if hd buffer \<noteq> type_char PROTOCOL_REDIS_TYPE_BLOB_STRING
         then read_error PROTOCOL_REDIS_READER_ERROR_ARGS_BLOB_STRING_EXPECTED ctx
         else case read_number_line behind buffer of
                Line_partial \<Rightarrow> Inl (read_return r)
              | Line_malformed \<Rightarrow> read_error PROTOCOL_REDIS_READER_ERROR_ARGS_ARRAY_INVALID_LENGTH ctx
              | Line_number new_line data_length ends \<Rightarrow>
                  if \<not> ends \<or> data_length < 0
                  then read_error PROTOCOL_REDIS_READER_ERROR_ARGS_BLOB_STRING_INVALID_LENGTH ctx
                  else let index = rc_index ctx + 1
                       in Inr \<lparr>rd_context = ctx\<lparr>rc_index := index, rc_length := of_int data_length,
                                 rc_received_length := 0,
                                 rc_state := PROTOCOL_REDIS_READER_STATE_RESP_WAITING_ARGUMENT_DATA\<rparr>,
                               rd_buffer = drop (new_line + 1) buffer,
                               rd_offset = rd_offset r + (new_line + 1),
                               rd_ops = rd_ops r
                                 @ [Op_argument_begin (new_line + 1) (of_int index) (of_int data_length)]\<rparr>)"

definition read_argument_data :: "reading \<Rightarrow> reading" where
  "read_argument_data r =
     (let ctx = rd_context r; buffer = rd_buffer r
      in if \<not> (length buffer > 0
                \<and> rc_state ctx = PROTOCOL_REDIS_READER_STATE_RESP_WAITING_ARGUMENT_DATA)
         then r
         else let waiting = unat (rc_length ctx - rc_received_length ctx);
                  end_found = (\<not> length buffer < waiting);
                  data_length = (if length buffer < waiting then length buffer else waiting);
                  ctx1 = ctx\<lparr>rc_received_length := rc_received_length ctx + of_nat data_length\<rparr>
              in \<lparr>rd_context =
                    (if end_found
                     then ctx1\<lparr>rc_state := PROTOCOL_REDIS_READER_STATE_RESP_WAITING_ARGUMENT_DATA_END\<rparr>
                     else ctx1),
                  rd_buffer = drop data_length buffer,
                  rd_offset = rd_offset r + data_length,
                  rd_ops = rd_ops r
                    @ [Op_argument_data data_length (of_int (rc_index ctx)) (rc_length ctx) (rd_offset r) data_length]\<rparr>)"

definition read_argument_data_end :: "reading \<Rightarrow> read_result" where
  "read_argument_data_end r =
     (let ctx = rd_context r; buffer = rd_buffer r
      in if \<not> (length buffer > 0
                \<and> rc_state ctx = PROTOCOL_REDIS_READER_STATE_RESP_WAITING_ARGUMENT_DATA_END)
         then read_return r
         else if length buffer < 2 then read_return r
         else if buffer ! 0 \<noteq> 13 \<or> buffer ! 1 \<noteq> 10
         then (None, ctx\<lparr>rc_error := PROTOCOL_REDIS_READER_ERROR_ARGS_BLOB_STRING_MISSING_END_SIGNATURE\<rparr>)
         else let ctx1 = ctx\<lparr>rc_received_length := rc_received_length ctx + 2\<rparr>;
                  ops = rd_ops r @ [Op_argument_end 2 (of_int (rc_index ctx)) (rc_length ctx) (rd_offset r)]
              in if rc_index ctx = uint (rc_count ctx - 1)
                 then (Some (ops @ [Op_command_end 0 (rc_count ctx)]),
                       ctx1\<lparr>rc_state := PROTOCOL_REDIS_READER_STATE_COMMAND_PARSED\<rparr>)
                 else (Some ops,
                       ctx1\<lparr>rc_state := PROTOCOL_REDIS_READER_STATE_RESP_WAITING_ARGUMENT_LENGTH\<rparr>))"

definition protocol_redis_reader_read ::
    "bytes \<Rightarrow> bytes \<Rightarrow> protocol_redis_reader_context \<Rightarrow> read_result" where
  "protocol_redis_reader_read behind buffer ctx =
     (if rc_error ctx \<noteq> PROTOCOL_REDIS_READER_ERROR_OK then (None, ctx)
      else if length buffer = 0 then (None, ctx\<lparr>rc_error := PROTOCOL_REDIS_READER_ERROR_NO_DATA\<rparr>)
      else if rc_state ctx = PROTOCOL_REDIS_READER_STATE_COMMAND_PARSED
      then (None, ctx\<lparr>rc_error := PROTOCOL_REDIS_READER_ERROR_COMMAND_ALREADY_PARSED\<rparr>)
      else case read_begin behind \<lparr>rd_context = ctx, rd_buffer = buffer, rd_offset = 0, rd_ops = []\<rparr> of
             Inl res \<Rightarrow> res
           | Inr r1 \<Rightarrow>
               (case read_argument_length behind r1 of
                  Inl res \<Rightarrow> res
                | Inr r2 \<Rightarrow> read_argument_data_end (read_argument_data r2)))"

end
