(* ===== verification/Redis_Requests.thy ===== *)
theory Redis_Requests
  imports Redis_Reader
begin

text \<open>
  The reader reads requests: whatever pieces the bytes of a request arrive in, and whenever the
  reader is called in between, it never fails and hands out the arguments of the request.
\<close>

section \<open>Requests and what a consumer collects\<close>

definition request :: "bytes list \<Rightarrow> bytes" where
  "request args = resp (Resp_array (of_nat (length args))) @ concat (map (\<lambda>a. resp (Resp_blob_string a)) args)"

definition blobs :: "bytes list \<Rightarrow> bytes" where
  "blobs args = concat (map (\<lambda>a. resp (Resp_blob_string a)) args)"

definition request_ok :: "bytes list \<Rightarrow> bool" where
  "request_ok args \<longleftrightarrow> args \<noteq> [] \<and> length args < 2 ^ 32 \<and> (\<forall>a\<in>set args. length a < 2 ^ 63)"

text \<open>A new argument starts with the length; data are added to the last one.\<close>

fun collect_op :: "bytes \<Rightarrow> protocol_redis_reader_op \<Rightarrow> bytes list \<Rightarrow> bytes list" where
  "collect_op buffer (Op_argument_begin n index len) acc = acc @ [[]]"
| "collect_op buffer (Op_argument_data n index len offset data_length) acc =
     butlast acc @ [last acc @ take data_length (drop offset buffer)]"
| "collect_op buffer _ acc = acc"

definition ops_read_len :: "protocol_redis_reader_op list \<Rightarrow> nat" where
  "ops_read_len ops = sum_list (map data_read_len ops)"

text \<open>The context, the bytes received and not yet read, the bytes to come, the arguments so far.\<close>

type_synonym session = "protocol_redis_reader_context \<times> bytes \<times> bytes \<times> bytes list"

inductive session_step :: "session \<Rightarrow> session \<Rightarrow> bool" where
  session_receive: "session_step (ctx, pending, x @ y, acc) (ctx, pending @ x, y, acc)"
| session_read:
    "pending \<noteq> [] \<Longrightarrow> rc_state ctx \<noteq> PROTOCOL_REDIS_READER_STATE_COMMAND_PARSED
      \<Longrightarrow> protocol_redis_reader_read behind pending ctx = (Some ops, ctx')
      \<Longrightarrow> session_step (ctx, pending, coming, acc)
            (ctx', drop (ops_read_len ops) pending, coming, fold (collect_op pending) ops acc)"

inductive_cases session_stepE: "session_step s t"

definition session_init :: "bytes \<Rightarrow> session \<Rightarrow> bool" where
  "session_init stream s \<longleftrightarrow> s = (protocol_redis_reader_context_reset, [], stream, [])"

section \<open>A line with a number at the head of the stream\<close>

lemma memchr_append_some: "memchr c xs = Some n \<Longrightarrow> memchr c (xs @ ys) = Some n"
proof -
  assume *: "memchr c xs = Some n"
  note d = memchr_SomeD [OF *]
  then have "xs = take n xs @ c # drop (Suc n) xs" using id_take_nth_drop [of n xs] by simp
  then have "xs @ ys = take n xs @ c # (drop (Suc n) xs @ ys)" by (metis append.assoc append_Cons)
  moreover have "memchr c (take n xs @ c # (drop (Suc n) xs @ ys)) = Some n"
    using memchr_append [of c "take n xs"] d by simp
  ultimately show ?thesis by (simp only:)
qed

lemma read_number_line_stream:
  assumes stream: "buffer @ coming = c # dec n @ crlf @ rest" and c: "c \<noteq> 10" and n: "int n \<le> LONG_MAX"
  shows "read_number_line behind buffer = Line_partial
    \<or> read_number_line behind buffer = Line_number (length (dec n) + 2) (int n) True
      \<and> length (dec n) + 3 \<le> length buffer
      \<and> drop (length (dec n) + 3) buffer @ coming = rest"
proof (cases "memchr 10 buffer")
  case None
  then show ?thesis by (simp add: read_number_line_def)
next
  case (Some p)
  have no_nl: "10 \<notin> set (c # dec n @ [13])"
    using dec_digits [of 10 n] c by (auto simp: isdigit_def)
  have "memchr 10 ((c # dec n @ [13]) @ 10 # rest) = Some p"
    using memchr_append_some [OF Some, of coming] stream by simp
  then have p: "p = length (dec n) + 2" using memchr_append [OF no_nl, of rest] by simp
  have less: "p < length buffer" using memchr_SomeD [OF Some] by simp
  have "take (Suc p) buffer = take (Suc p) (buffer @ coming)" using less by simp
  also have "\<dots> = c # dec n @ crlf" unfolding stream p by simp
  finally obtain y where buf: "buffer = c # dec n @ 13 # 10 # y"
    by (metis append.assoc append_Cons append_Nil append_take_drop_id)
  then have "strtol_10 (drop 1 buffer @ behind) = (int n, length (dec n))"
    using strtol_dec [OF n, of "13 # 10 # y @ behind"] by (simp add: isdigit_def)
  moreover have "y @ coming = rest" using stream buf by simp
  moreover have "drop (length (dec n) + 3) buffer = y" using buf by (simp add: numeral_3_eq_3)
  ultimately show ?thesis
    using Some p buf by (simp add: read_number_line_def nth_append)
qed

section \<open>Where the reader is in the stream\<close>

text \<open>
  The stream of the bytes that are not read yet and the arguments collected so far, in each state
  of the context, for a request with bytes \<open>rest\<close> behind it.
\<close>

definition expects ::
    "bytes list \<Rightarrow> bytes \<Rightarrow> protocol_redis_reader_context \<Rightarrow> bytes \<Rightarrow> bytes list \<Rightarrow> bool" where
  "expects args rest ctx stream acc \<longleftrightarrow>
     rc_error ctx = PROTOCOL_REDIS_READER_ERROR_OK
     \<and> (case rc_state ctx of
          PROTOCOL_REDIS_READER_STATE_BEGIN \<Rightarrow> stream = request args @ rest \<and> acc = []
        | PROTOCOL_REDIS_READER_STATE_INLINE_WAITING_ARGUMENT \<Rightarrow> False
        | PROTOCOL_REDIS_READER_STATE_RESP_WAITING_ARGUMENT_LENGTH \<Rightarrow>
            rc_count ctx = of_nat (length args)
            \<and> (\<exists>i<length args. rc_index ctx = int i - 1 \<and> acc = take i args
                 \<and> stream = blobs (drop i args) @ rest)
        | PROTOCOL_REDIS_READER_STATE_RESP_WAITING_ARGUMENT_DATA \<Rightarrow>
            rc_count ctx = of_nat (length args)
            \<and> (\<exists>i<length args. \<exists>k\<le>length (args ! i). rc_index ctx = int i
                 \<and> rc_length ctx = of_nat (length (args ! i)) \<and> rc_received_length ctx = of_nat k
                 \<and> acc = take i args @ [take k (args ! i)]
                 \<and> stream = drop k (args ! i) @ crlf @ blobs (drop (Suc i) args) @ rest)
        | PROTOCOL_REDIS_READER_STATE_RESP_WAITING_ARGUMENT_DATA_END \<Rightarrow>
            rc_count ctx = of_nat (length args)
            \<and> (\<exists>i<length args. rc_index ctx = int i \<and> acc = take (Suc i) args
                 \<and> stream = crlf @ blobs (drop (Suc i) args) @ rest)
        | PROTOCOL_REDIS_READER_STATE_COMMAND_PARSED \<Rightarrow> stream = rest \<and> acc = args)"

lemma expects_lengthI:
  assumes "rc_error ctx = PROTOCOL_REDIS_READER_ERROR_OK" and "rc_count ctx = of_nat (length args)"
    and "rc_state ctx = PROTOCOL_REDIS_READER_STATE_RESP_WAITING_ARGUMENT_LENGTH"
    and "i < length args" and "rc_index ctx = int i - 1" and "acc = take i args"
    and "stream = blobs (drop i args) @ rest"
  shows "expects args rest ctx stream acc"
  using assms by (auto simp: expects_def)

lemma expects_dataI:
  assumes "rc_error ctx = PROTOCOL_REDIS_READER_ERROR_OK" and "rc_count ctx = of_nat (length args)"
    and "rc_state ctx = PROTOCOL_REDIS_READER_STATE_RESP_WAITING_ARGUMENT_DATA"
    and "i < length args" and "k \<le> length (args ! i)" and "rc_index ctx = int i"
    and "rc_length ctx = of_nat (length (args ! i))" and "rc_received_length ctx = of_nat k"
    and "acc = take i args @ [take k (args ! i)]"
    and "stream = drop k (args ! i) @ crlf @ blobs (drop (Suc i) args) @ rest"
  shows "expects args rest ctx stream acc"
  using assms by (auto simp: expects_def)

lemma expects_data_endI:
  assumes "rc_error ctx = PROTOCOL_REDIS_READER_ERROR_OK" and "rc_count ctx = of_nat (length args)"
    and "rc_state ctx = PROTOCOL_REDIS_READER_STATE_RESP_WAITING_ARGUMENT_DATA_END"
    and "i < length args" and "rc_index ctx = int i" and "acc = take (Suc i) args"
    and "stream = crlf @ blobs (drop (Suc i) args) @ rest"
  shows "expects args rest ctx stream acc"
  using assms by (auto simp: expects_def)

definition stage_ok :: "bytes list \<Rightarrow> bytes \<Rightarrow> bytes \<Rightarrow> bytes \<Rightarrow> bytes list \<Rightarrow> reading \<Rightarrow> bool" where
  "stage_ok args rest buffer coming acc r \<longleftrightarrow>
     rd_offset r = ops_read_len (rd_ops r) \<and> rd_buffer r = drop (rd_offset r) buffer
     \<and> expects args rest (rd_context r) (rd_buffer r @ coming) (fold (collect_op buffer) (rd_ops r) acc)"

definition result_ok :: "bytes list \<Rightarrow> bytes \<Rightarrow> bytes \<Rightarrow> bytes \<Rightarrow> bytes list \<Rightarrow> read_result \<Rightarrow> bool" where
  "result_ok args rest buffer coming acc res \<longleftrightarrow>
     (case res of
        (None, ctx) \<Rightarrow> False
      | (Some ops, ctx) \<Rightarrow>
          expects args rest ctx (drop (ops_read_len ops) buffer @ coming) (fold (collect_op buffer) ops acc))"

lemma stage_return: "stage_ok args rest buffer coming acc r \<Longrightarrow> result_ok args rest buffer coming acc (read_return r)"
  unfolding stage_ok_def result_ok_def read_return_def by (metis (mono_tags, lifting) case_prod_conv option.case(2))

lemma ops_read_len_simps [simp]:
  "ops_read_len [] = 0" "ops_read_len (ops @ [op]) = ops_read_len ops + data_read_len op"
  by (simp_all add: ops_read_len_def)

lemma request_split:
  "request args @ rest = type_char PROTOCOL_REDIS_TYPE_ARRAY # dec (unat (of_nat (length args) :: u32))
     @ crlf @ (blobs args @ rest)"
  by (simp add: request_def blobs_def resp_line_def)

lemma blobs_split:
  "i < length args \<Longrightarrow> blobs (drop i args) @ rest
    = type_char PROTOCOL_REDIS_TYPE_BLOB_STRING # dec (length (args ! i)) @ crlf
        @ (args ! i @ crlf @ blobs (drop (Suc i) args) @ rest)"
  by (simp add: blobs_def resp_line_def Cons_nth_drop_Suc [symmetric])

lemma read_begin_ok:
  assumes ok: "request_ok args" and st: "stage_ok args rest buffer coming acc r" and "rd_buffer r \<noteq> []"
  shows "case read_begin behind r of
      Inl res \<Rightarrow> result_ok args rest buffer coming acc res
    | Inr r' \<Rightarrow> stage_ok args rest buffer coming acc r'
        \<and> rc_state (rd_context r') \<noteq> PROTOCOL_REDIS_READER_STATE_BEGIN"
proof (cases "rc_state (rd_context r) = PROTOCOL_REDIS_READER_STATE_BEGIN")
  case False
  then show ?thesis using st by (simp add: read_begin_def)
next
  case True
  let ?n = "length args"
  have small: "unat (of_nat ?n :: u32) = ?n" using ok by (intro unat_of_nat_small) (simp add: request_ok_def)
  have err: "rc_error (rd_context r) = PROTOCOL_REDIS_READER_ERROR_OK"
    and acc: "fold (collect_op buffer) (rd_ops r) acc = []"
    and stream: "rd_buffer r @ coming = type_char PROTOCOL_REDIS_TYPE_ARRAY # dec ?n @ crlf @ (blobs args @ rest)"
    and off: "rd_offset r = ops_read_len (rd_ops r)" "rd_buffer r = drop (rd_offset r) buffer"
    using st True request_split [of args rest] small by (auto simp: stage_ok_def expects_def)
  have hd: "hd (rd_buffer r) = type_char PROTOCOL_REDIS_TYPE_ARRAY"
    using stream assms(3) by (cases "rd_buffer r") simp_all
  have "int ?n \<le> LONG_MAX" using ok by (simp add: request_ok_def LONG_MAX_def)
  from read_number_line_stream [OF stream _ this, of behind]
  consider "read_number_line behind (rd_buffer r) = Line_partial"
    | "read_number_line behind (rd_buffer r) = Line_number (length (dec ?n) + 2) (int ?n) True"
      "drop (length (dec ?n) + 3) (rd_buffer r) @ coming = blobs args @ rest"
    by auto
  then show ?thesis
  proof cases
    case 1
    then show ?thesis using True hd stage_return [OF st] by (simp add: read_begin_def)
  next
    case 2
    have "0 < ?n" using ok by (simp add: request_ok_def)
    moreover have "drop (rd_offset r + (length (dec ?n) + 3)) buffer @ coming = blobs args @ rest"
      using 2(2) off(2) by (simp add: add.commute)
    ultimately show ?thesis
      using True hd 2(1) err acc off
      by (auto simp: read_begin_def stage_ok_def expects_def numeral_3_eq_3 add.commute intro!: exI [of _ "0 :: nat"])
  qed
qed

lemma read_argument_length_ok:
  assumes ok: "request_ok args" and st: "stage_ok args rest buffer coming acc r"
  shows "case read_argument_length behind r of
      Inl res \<Rightarrow> result_ok args rest buffer coming acc res
    | Inr r' \<Rightarrow> stage_ok args rest buffer coming acc r'
        \<and> (rd_buffer r' \<noteq> [] \<longrightarrow>
             rc_state (rd_context r') \<noteq> PROTOCOL_REDIS_READER_STATE_RESP_WAITING_ARGUMENT_LENGTH)"
proof (cases "rd_buffer r \<noteq> []
    \<and> rc_state (rd_context r) = PROTOCOL_REDIS_READER_STATE_RESP_WAITING_ARGUMENT_LENGTH")
  case False
  then show ?thesis using st by (auto simp: read_argument_length_def)
next
  case True
  obtain i where i: "i < length args" "rc_index (rd_context r) = int i - 1"
      "fold (collect_op buffer) (rd_ops r) acc = take i args" "rd_buffer r @ coming = blobs (drop i args) @ rest"
      "rc_count (rd_context r) = of_nat (length args)" "rc_error (rd_context r) = PROTOCOL_REDIS_READER_ERROR_OK"
    and off: "rd_offset r = ops_read_len (rd_ops r)" "rd_buffer r = drop (rd_offset r) buffer"
    using st True by (auto simp: stage_ok_def expects_def)
  let ?n = "length (args ! i)"
  note stream = i(4) [unfolded blobs_split [OF i(1)]]
  have hd: "hd (rd_buffer r) = type_char PROTOCOL_REDIS_TYPE_BLOB_STRING"
    using stream True by (cases "rd_buffer r") simp_all
  have "?n < 2 ^ 63" using ok i(1) by (simp add: request_ok_def)
  then have "int ?n \<le> LONG_MAX" by (simp add: LONG_MAX_def)
  from read_number_line_stream [OF stream _ this, of behind]
  consider "read_number_line behind (rd_buffer r) = Line_partial"
    | "read_number_line behind (rd_buffer r) = Line_number (length (dec ?n) + 2) (int ?n) True"
      "drop (length (dec ?n) + 3) (rd_buffer r) @ coming = args ! i @ crlf @ blobs (drop (Suc i) args) @ rest"
    by auto
  then show ?thesis
  proof cases
    case 1
    then show ?thesis using True hd stage_return [OF st] by (simp add: read_argument_length_def)
  next
    case 2
    let ?r = "\<lparr>rd_context = (rd_context r)\<lparr>rc_index := int i, rc_length := of_int (int ?n), rc_received_length := 0,
          rc_state := PROTOCOL_REDIS_READER_STATE_RESP_WAITING_ARGUMENT_DATA\<rparr>,
        rd_buffer = drop (length (dec ?n) + 3) (rd_buffer r), rd_offset = rd_offset r + (length (dec ?n) + 3),
        rd_ops = rd_ops r @ [Op_argument_begin (length (dec ?n) + 3) (of_int (int i)) (of_int (int ?n))]\<rparr>"
    have "read_argument_length behind r = Inr ?r"
      using True hd 2(1) i(2) by (simp add: read_argument_length_def Let_def numeral_3_eq_3)
    moreover have "stage_ok args rest buffer coming acc ?r"
      unfolding stage_ok_def
      by (intro conjI expects_dataI [where i = i and k = 0]) (use i off 2(2) in \<open>simp_all add: add.commute\<close>)
    ultimately show ?thesis by simp
  qed
qed

lemma take_append_less: "xs @ ys = a @ b \<Longrightarrow> length xs < length a \<Longrightarrow> xs = take (length xs) a \<and> ys = drop (length xs) a @ b"
  by (metis append_eq_append_conv_if append_eq_conv_conj drop_append less_or_eq_imp_le nat_less_le
      append_take_drop_id)

lemma take_append_ge: "xs @ ys = a @ b \<Longrightarrow> length a \<le> length xs \<Longrightarrow> take (length a) xs = a \<and> drop (length a) xs @ ys = b"
  by (cases "length xs = length a") (simp_all add: append_eq_append_conv_if split: if_splits)

lemma read_argument_data_ok:
  assumes ok: "request_ok args" and st: "stage_ok args rest buffer coming acc r"
  shows "stage_ok args rest buffer coming acc (read_argument_data r)"
proof (cases "rd_buffer r \<noteq> []
    \<and> rc_state (rd_context r) = PROTOCOL_REDIS_READER_STATE_RESP_WAITING_ARGUMENT_DATA")
  case False
  then show ?thesis using st by (auto simp: read_argument_data_def)
next
  case True
  obtain i k where ik: "i < length args" "k \<le> length (args ! i)" "rc_index (rd_context r) = int i"
      "rc_length (rd_context r) = of_nat (length (args ! i))" "rc_received_length (rd_context r) = of_nat k"
      "fold (collect_op buffer) (rd_ops r) acc = take i args @ [take k (args ! i)]"
      "rd_buffer r @ coming = drop k (args ! i) @ crlf @ blobs (drop (Suc i) args) @ rest"
      "rc_count (rd_context r) = of_nat (length args)" "rc_error (rd_context r) = PROTOCOL_REDIS_READER_ERROR_OK"
    and off: "rd_offset r = ops_read_len (rd_ops r)" "rd_buffer r = drop (rd_offset r) buffer"
    using st True by (auto simp: stage_ok_def expects_def)
  let ?a = "args ! i"
  have "length ?a < 2 ^ 63" using ok ik(1) by (simp add: request_ok_def)
  then have waiting: "unat (rc_length (rd_context r) - rc_received_length (rd_context r)) = length ?a - k"
    using ik(2) unfolding ik(4,5) of_nat_diff [OF ik(2), symmetric] by (intro unat_of_nat_small) simp
  show ?thesis
  proof (cases "length (rd_buffer r) < length ?a - k")
    case less: True
    let ?m = "length (rd_buffer r)"
    from take_append_less [OF ik(7)] less
    have "rd_buffer r = take ?m (drop k ?a)"
      and rest: "coming = drop ?m (drop k ?a) @ crlf @ blobs (drop (Suc i) args) @ rest" by simp_all
    then have "take k ?a @ rd_buffer r = take (k + ?m) ?a" by (metis take_add)
    then show ?thesis
      unfolding stage_ok_def
      by (intro conjI expects_dataI [where i = i and k = "k + ?m"])
        (use True less waiting ik off rest in \<open>simp_all add: read_argument_data_def Let_def add.commute\<close>)
  next
    case False
    let ?m = "length ?a - k"
    have "take ?m (rd_buffer r) = drop k ?a" "drop ?m (rd_buffer r) @ coming = crlf @ blobs (drop (Suc i) args) @ rest"
      using take_append_ge [OF ik(7)] False by simp_all
    then show ?thesis
      unfolding stage_ok_def
      by (intro conjI expects_data_endI [where i = i])
        (use True False waiting ik off in \<open>simp_all add: read_argument_data_def Let_def add.commute take_Suc_conv_app_nth\<close>)
  qed
qed

lemma count_last:
  assumes "request_ok args"
  shows "uint (of_nat (length args) - 1 :: u32) = int (length args - 1)"
proof -
  have n: "0 < length args" "length args < 2 ^ 32" using assms by (auto simp: request_ok_def)
  have "(of_nat (length args) :: u32) - 1 = of_nat (length args - 1)"
    by (metis One_nat_def Suc_leI n(1) of_nat_1 of_nat_diff)
  moreover have "unat (of_nat (length args - 1) :: u32) = length args - 1"
    by (rule unat_of_nat_small) (use n(2) in simp)
  ultimately show ?thesis by (metis of_nat_unat)
qed

lemma read_argument_data_end_ok:
  assumes ok: "request_ok args" and st: "stage_ok args rest buffer coming acc r"
  shows "result_ok args rest buffer coming acc (read_argument_data_end r)"
proof (cases "2 \<le> length (rd_buffer r)
    \<and> rc_state (rd_context r) = PROTOCOL_REDIS_READER_STATE_RESP_WAITING_ARGUMENT_DATA_END")
  case False
  then show ?thesis
    using stage_return [OF st] by (auto simp: read_argument_data_end_def Let_def)
next
  case True
  obtain i where i: "i < length args" "rc_index (rd_context r) = int i"
      "fold (collect_op buffer) (rd_ops r) acc = take (Suc i) args"
      "rd_buffer r @ coming = crlf @ blobs (drop (Suc i) args) @ rest"
      "rc_count (rd_context r) = of_nat (length args)" "rc_error (rd_context r) = PROTOCOL_REDIS_READER_ERROR_OK"
    and off: "rd_offset r = ops_read_len (rd_ops r)" "rd_buffer r = drop (rd_offset r) buffer"
    using st True by (auto simp: stage_ok_def expects_def)
  obtain y where y: "rd_buffer r = 13 # 10 # y"
    using i(4) True by (cases "rd_buffer r"; cases "tl (rd_buffer r)") auto
  then have crlf: "rd_buffer r ! 0 = 13" "rd_buffer r ! 1 = 10"
    and rest: "drop 2 (rd_buffer r) @ coming = blobs (drop (Suc i) args) @ rest"
    using i(4) by simp_all
  have n: "0 < length args" "length args < 2 ^ 32" using ok by (auto simp: request_ok_def)
  have last: "uint (rc_count (rd_context r) - 1) = int (length args - 1)"
    unfolding i(5) by (rule count_last [OF ok])
  have drop2: "drop (ops_read_len (rd_ops r) + 2) buffer @ coming = blobs (drop (Suc i) args) @ rest"
    using rest off by (simp add: add.commute)
  show ?thesis
  proof (cases "i = length args - 1")
    case last_arg: True
    then have "Suc i = length args" using n(1) by simp
    then show ?thesis
      using True crlf last last_arg i drop2
      by (auto simp: read_argument_data_end_def Let_def result_ok_def expects_def blobs_def ops_read_len_def)
  next
    case False
    let ?ctx = "(rd_context r)\<lparr>rc_received_length := rc_received_length (rd_context r) + 2,
        rc_state := PROTOCOL_REDIS_READER_STATE_RESP_WAITING_ARGUMENT_LENGTH\<rparr>"
    let ?ops = "rd_ops r @ [Op_argument_end 2 (of_int (int i)) (rc_length (rd_context r)) (rd_offset r)]"
    have "read_argument_data_end r = (Some ?ops, ?ctx)"
      using True crlf last False i(2) by (auto simp: read_argument_data_end_def Let_def)
    moreover have "expects args rest ?ctx (drop (ops_read_len ?ops) buffer @ coming)
        (fold (collect_op buffer) ?ops acc)"
      by (rule expects_lengthI [where i = "Suc i"]) (use i drop2 False n(1) in simp_all)
    ultimately show ?thesis by (simp add: result_ok_def)
  qed
qed

lemma reader_read_ok:
  assumes ok: "request_ok args" and exp: "expects args rest ctx (buffer @ coming) acc"
    and "buffer \<noteq> []" and "rc_state ctx \<noteq> PROTOCOL_REDIS_READER_STATE_COMMAND_PARSED"
  shows "result_ok args rest buffer coming acc (protocol_redis_reader_read behind buffer ctx)"
proof -
  let ?r0 = "\<lparr>rd_context = ctx, rd_buffer = buffer, rd_offset = 0, rd_ops = []\<rparr>"
  have st: "stage_ok args rest buffer coming acc ?r0" using exp by (simp add: stage_ok_def)
  have err: "rc_error ctx = PROTOCOL_REDIS_READER_ERROR_OK" using exp by (simp add: expects_def)
  note head = read_begin_ok [OF ok st, of behind]
  show ?thesis
  proof (cases "read_begin behind ?r0")
    case (Inl res)
    then show ?thesis using head assms(3,4) err by (simp add: protocol_redis_reader_read_def)
  next
    case (Inr r1)
    then have st1: "stage_ok args rest buffer coming acc r1" using head assms(3) by simp
    note len = read_argument_length_ok [OF ok st1, of behind]
    show ?thesis
    proof (cases "read_argument_length behind r1")
      case (Inl res)
      then show ?thesis using len Inr assms(3,4) err by (simp add: protocol_redis_reader_read_def)
    next
      case r2: (Inr r2)
      then have "stage_ok args rest buffer coming acc r2" using len by simp
      from read_argument_data_end_ok [OF ok read_argument_data_ok [OF ok this]]
      show ?thesis using Inr r2 assms(3,4) err by (simp add: protocol_redis_reader_read_def)
    qed
  qed
qed

section \<open>Sessions\<close>

definition session_inv :: "bytes list \<Rightarrow> bytes \<Rightarrow> session \<Rightarrow> bool" where
  "session_inv args rest s \<longleftrightarrow> (case s of (ctx, pending, coming, acc) \<Rightarrow> expects args rest ctx (pending @ coming) acc)"

lemma session_inv_step:
  assumes "request_ok args" and "session_inv args rest s" and "session_step s t"
  shows "session_inv args rest t"
  using assms(3)
proof (cases rule: session_step.cases)
  case (session_receive ctx pending x y acc)
  then show ?thesis using assms(2) by (simp add: session_inv_def)
next
  case (session_read pending ctx behind ops ctx' coming acc)
  then show ?thesis
    using reader_read_ok [OF assms(1), of rest ctx pending coming acc behind] assms(2)
    by (simp add: session_inv_def result_ok_def)
qed

lemma session_inv_init: "session_init (request args @ rest) s \<Longrightarrow> session_inv args rest s"
  by (simp add: session_init_def session_inv_def expects_def protocol_redis_reader_context_reset_def)

lemma session_invariant:
  "request_ok args \<Longrightarrow> inductive_invariant (session_init (request args @ rest)) session_step (session_inv args rest)"
  by unfold_locales (auto intro: session_inv_init session_inv_step)

lemma session_reachable:
  "request_ok args \<Longrightarrow> reachable (session_init (request args @ rest)) session_step s \<Longrightarrow> session_inv args rest s"
  by (rule inductive_invariant.inv_reachable [OF session_invariant])

section \<open>Progress\<close>

text \<open>The arguments that are not complete yet.\<close>

fun states_left :: "bytes list \<Rightarrow> protocol_redis_reader_states \<Rightarrow> int \<Rightarrow> nat" where
  "states_left args PROTOCOL_REDIS_READER_STATE_COMMAND_PARSED index = 0"
| "states_left args PROTOCOL_REDIS_READER_STATE_BEGIN index = length args"
| "states_left args PROTOCOL_REDIS_READER_STATE_RESP_WAITING_ARGUMENT_LENGTH index = length args - nat (index + 1)"
| "states_left args _ index = length args - nat index"

definition args_left :: "bytes list \<Rightarrow> protocol_redis_reader_context \<Rightarrow> nat" where
  "args_left args ctx = states_left args (rc_state ctx) (rc_index ctx)"

lemma read_number_line_whole:
  assumes "buffer = c # dec n @ crlf @ rest"
  shows "read_number_line behind buffer \<noteq> Line_partial"
proof -
  have "memchr 10 buffer \<noteq> None" unfolding memchr_None_iff using assms by simp
  then show ?thesis by (auto simp: read_number_line_def Let_def split: prod.splits if_splits)
qed

lemma read_begin_whole:
  assumes ok: "request_ok args" and st: "stage_ok args rest buffer [] acc r"
    and ne: "rd_buffer r \<noteq> []" and np: "rc_state (rd_context r) \<noteq> PROTOCOL_REDIS_READER_STATE_COMMAND_PARSED"
  shows "\<exists>r'. read_begin behind r = Inr r' \<and> args_left args (rd_context r') = args_left args (rd_context r)
    \<and> rc_state (rd_context r') \<noteq> PROTOCOL_REDIS_READER_STATE_COMMAND_PARSED"
proof (cases "rc_state (rd_context r) = PROTOCOL_REDIS_READER_STATE_BEGIN")
  case False
  then show ?thesis using np by (simp add: read_begin_def)
next
  case True
  let ?n = "length args"
  have small: "unat (of_nat ?n :: u32) = ?n" using ok by (intro unat_of_nat_small) (simp add: request_ok_def)
  have stream: "rd_buffer r = type_char PROTOCOL_REDIS_TYPE_ARRAY # dec ?n @ crlf @ (blobs args @ rest)"
    using st True request_split [of args rest] small by (auto simp: stage_ok_def expects_def)
  have n: "0 < ?n" "int ?n \<le> LONG_MAX" using ok by (simp_all add: request_ok_def LONG_MAX_def)
  have "read_number_line behind (rd_buffer r) = Line_number (length (dec ?n) + 2) (int ?n) True"
    using read_number_line_stream [of "rd_buffer r" "[]", OF _ _ n(2), of _ _ behind] stream
      read_number_line_whole [OF stream, of behind] by simp
  then show ?thesis
    using True n stream by (simp add: read_begin_def Let_def args_left_def)
qed

lemma read_argument_length_whole:
  assumes ok: "request_ok args" and st: "stage_ok args rest buffer [] acc r"
    and np: "rc_state (rd_context r) \<noteq> PROTOCOL_REDIS_READER_STATE_COMMAND_PARSED"
      "rc_state (rd_context r) \<noteq> PROTOCOL_REDIS_READER_STATE_BEGIN"
  shows "\<exists>r'. read_argument_length behind r = Inr r' \<and> args_left args (rd_context r') = args_left args (rd_context r)
    \<and> rc_state (rd_context r') \<in> {PROTOCOL_REDIS_READER_STATE_RESP_WAITING_ARGUMENT_DATA,
          PROTOCOL_REDIS_READER_STATE_RESP_WAITING_ARGUMENT_DATA_END}"
proof (cases "rc_state (rd_context r) = PROTOCOL_REDIS_READER_STATE_RESP_WAITING_ARGUMENT_LENGTH")
  case False
  then show ?thesis
    using np st by (cases "rc_state (rd_context r)") (auto simp: read_argument_length_def stage_ok_def expects_def)
next
  case True
  obtain i where i: "i < length args" "rc_index (rd_context r) = int i - 1" "rd_buffer r = blobs (drop i args) @ rest"
    using st True by (auto simp: stage_ok_def expects_def)
  let ?n = "length (args ! i)"
  note stream = i(3) [unfolded blobs_split [OF i(1)]]
  have "?n < 2 ^ 63" using ok i(1) by (simp add: request_ok_def)
  then have n: "int ?n \<le> LONG_MAX" by (simp add: LONG_MAX_def)
  have "read_number_line behind (rd_buffer r) = Line_number (length (dec ?n) + 2) (int ?n) True"
    using read_number_line_stream [of "rd_buffer r" "[]", OF _ _ n, of _ _ behind] stream
      read_number_line_whole [OF stream, of behind] by simp
  then show ?thesis
    using True n stream i(2) by (simp add: read_argument_length_def Let_def args_left_def)
qed

lemma read_argument_data_whole:
  assumes ok: "request_ok args" and st: "stage_ok args rest buffer [] acc r"
    and state: "rc_state (rd_context r) \<in> {PROTOCOL_REDIS_READER_STATE_RESP_WAITING_ARGUMENT_DATA,
          PROTOCOL_REDIS_READER_STATE_RESP_WAITING_ARGUMENT_DATA_END}"
  shows "rc_state (rd_context (read_argument_data r)) = PROTOCOL_REDIS_READER_STATE_RESP_WAITING_ARGUMENT_DATA_END
    \<and> args_left args (rd_context (read_argument_data r)) = args_left args (rd_context r)"
proof (cases "rc_state (rd_context r) = PROTOCOL_REDIS_READER_STATE_RESP_WAITING_ARGUMENT_DATA")
  case False
  then show ?thesis using state by (simp add: read_argument_data_def)
next
  case True
  obtain i k where ik: "i < length args" "k \<le> length (args ! i)"
      "rc_length (rd_context r) = of_nat (length (args ! i))" "rc_received_length (rd_context r) = of_nat k"
      "rd_buffer r = drop k (args ! i) @ crlf @ blobs (drop (Suc i) args) @ rest"
    using st True by (auto simp: stage_ok_def expects_def)
  have "length (args ! i) < 2 ^ 63" using ok ik(1) by (simp add: request_ok_def)
  then have "unat (rc_length (rd_context r) - rc_received_length (rd_context r)) = length (args ! i) - k"
    using ik(2) unfolding ik(3,4) of_nat_diff [OF ik(2), symmetric] by (intro unat_of_nat_small) simp
  then show ?thesis using True ik(5) by (simp add: read_argument_data_def Let_def args_left_def)
qed

lemma read_argument_data_end_whole:
  assumes ok: "request_ok args" and st: "stage_ok args rest buffer [] acc r"
    and state: "rc_state (rd_context r) = PROTOCOL_REDIS_READER_STATE_RESP_WAITING_ARGUMENT_DATA_END"
    and read: "read_argument_data_end r = (Some ops, ctx)"
  shows "Suc (args_left args ctx) = args_left args (rd_context r)"
proof -
  obtain i where i: "i < length args" "rc_index (rd_context r) = int i"
      "rd_buffer r = crlf @ blobs (drop (Suc i) args) @ rest" "rc_count (rd_context r) = of_nat (length args)"
    using st state by (auto simp: stage_ok_def expects_def)
  have n: "0 < length args" "length args < 2 ^ 32" using ok by (auto simp: request_ok_def)
  have last: "uint (rc_count (rd_context r) - 1) = int (length args - 1)"
    unfolding i(4) by (rule count_last [OF ok])
  show ?thesis
    using read state i last by (auto simp: read_argument_data_end_def Let_def args_left_def split: if_splits)
qed

text \<open>From the length of an argument on, with the whole rest of the request in the buffer.\<close>

lemma read_argument_whole:
  assumes ok: "request_ok args" and st1: "stage_ok args rest buffer [] acc r1"
    and s1: "rc_state (rd_context r1) \<noteq> PROTOCOL_REDIS_READER_STATE_COMMAND_PARSED"
      "rc_state (rd_context r1) \<noteq> PROTOCOL_REDIS_READER_STATE_BEGIN"
  shows "\<exists>r2 ops ctx'. read_argument_length behind r1 = Inr r2
    \<and> read_argument_data_end (read_argument_data r2) = (Some ops, ctx')
    \<and> Suc (args_left args ctx') = args_left args (rd_context r1)
    \<and> expects args rest ctx' (drop (ops_read_len ops) buffer) (fold (collect_op buffer) ops acc)"
proof -
  obtain r2 where r2: "read_argument_length behind r1 = Inr r2"
      "args_left args (rd_context r2) = args_left args (rd_context r1)"
      "rc_state (rd_context r2) \<in> {PROTOCOL_REDIS_READER_STATE_RESP_WAITING_ARGUMENT_DATA,
          PROTOCOL_REDIS_READER_STATE_RESP_WAITING_ARGUMENT_DATA_END}"
    using read_argument_length_whole [OF ok st1 s1, of behind] by auto
  have st2: "stage_ok args rest buffer [] acc r2"
    using read_argument_length_ok [OF ok st1, of behind] r2(1) by simp
  note data = read_argument_data_whole [OF ok st2 r2(3)]
  have st3: "stage_ok args rest buffer [] acc (read_argument_data r2)" by (rule read_argument_data_ok [OF ok st2])
  obtain ops ctx' where fin: "read_argument_data_end (read_argument_data r2) = (Some ops, ctx')"
      "expects args rest ctx' (drop (ops_read_len ops) buffer) (fold (collect_op buffer) ops acc)"
    using read_argument_data_end_ok [OF ok st3] by (auto simp: result_ok_def split: prod.splits option.splits)
  have "Suc (args_left args ctx') = args_left args (rd_context r1)"
    using read_argument_data_end_whole [OF ok st3 _ fin(1)] data r2(2) by simp
  with r2(1) fin show ?thesis by blast
qed

lemma reader_read_whole:
  assumes ok: "request_ok args" and exp: "expects args rest ctx buffer acc"
    and np: "rc_state ctx \<noteq> PROTOCOL_REDIS_READER_STATE_COMMAND_PARSED"
  shows "\<exists>ops ctx'. protocol_redis_reader_read behind buffer ctx = (Some ops, ctx')
    \<and> Suc (args_left args ctx') = args_left args ctx
    \<and> expects args rest ctx' (drop (ops_read_len ops) buffer) (fold (collect_op buffer) ops acc)"
proof -
  let ?r0 = "\<lparr>rd_context = ctx, rd_buffer = buffer, rd_offset = 0, rd_ops = []\<rparr>"
  have err: "rc_error ctx = PROTOCOL_REDIS_READER_ERROR_OK" using exp by (simp add: expects_def)
  have ne: "buffer \<noteq> []"
    using exp np request_split [of args rest] blobs_split [of _ args rest]
    by (auto simp: expects_def split: protocol_redis_reader_states.splits)
  have st0: "stage_ok args rest buffer [] acc ?r0" using exp by (simp add: stage_ok_def)
  obtain r1 where r1: "read_begin behind ?r0 = Inr r1" "args_left args (rd_context r1) = args_left args ctx"
      "rc_state (rd_context r1) \<noteq> PROTOCOL_REDIS_READER_STATE_COMMAND_PARSED"
    using read_begin_whole [OF ok st0] ne np by auto
  have st1: "stage_ok args rest buffer [] acc r1" "rc_state (rd_context r1) \<noteq> PROTOCOL_REDIS_READER_STATE_BEGIN"
    using read_begin_ok [OF ok st0, of behind] r1(1) ne by simp_all
  from read_argument_whole [OF ok st1(1) r1(3) st1(2), of behind] r1(1,2) err ne np show ?thesis
    by (auto simp: protocol_redis_reader_read_def)
qed

text \<open>
  A request that announces \<open>m\<close> arguments; the reader keeps \<open>m\<close> modulo \<open>2 ^ 32\<close>.
\<close>

definition announced :: "nat \<Rightarrow> bytes list \<Rightarrow> bytes" where
  "announced m args = type_char PROTOCOL_REDIS_TYPE_ARRAY # dec m @ crlf @ blobs args"

lemma reader_read_announced:
  assumes ok: "request_ok args" and m: "m mod 2 ^ 32 = length args" "int m \<le> LONG_MAX"
  shows "\<exists>ops ctx'. protocol_redis_reader_read behind (announced m args @ rest)
        protocol_redis_reader_context_reset = (Some ops, ctx')
    \<and> Suc (args_left args ctx') = length args
    \<and> expects args rest ctx' (drop (ops_read_len ops) (announced m args @ rest))
        (fold (collect_op (announced m args @ rest)) ops [])"
proof -
  let ?buffer = "announced m args @ rest" and ?ctx = protocol_redis_reader_context_reset
  let ?r0 = "\<lparr>rd_context = ?ctx, rd_buffer = ?buffer, rd_offset = 0, rd_ops = []\<rparr>"
  let ?r1 = "\<lparr>rd_context = ?ctx\<lparr>rc_count := of_nat m,
        rc_protocol_type := PROTOCOL_REDIS_READER_PROTOCOL_TYPE_RESP,
        rc_state := PROTOCOL_REDIS_READER_STATE_RESP_WAITING_ARGUMENT_LENGTH,
        rc_index := - 1, rc_beginning := True, rc_length := 0\<rparr>,
      rd_buffer = blobs args @ rest, rd_offset = length (dec m) + 3,
      rd_ops = [Op_command_begin (length (dec m) + 3) (of_nat m)]\<rparr>"
  have buffer: "?buffer = type_char PROTOCOL_REDIS_TYPE_ARRAY # dec m @ crlf @ (blobs args @ rest)"
    by (simp add: announced_def)
  have n: "0 < length args" "length args < 2 ^ 32" using ok by (simp_all add: request_ok_def)
  then have m0: "0 < m" using m(1) by (cases m) simp_all
  have "read_number_line behind ?buffer = Line_number (length (dec m) + 2) (int m) True"
    "drop (length (dec m) + 3) ?buffer = blobs args @ rest"
    using read_number_line_stream [of ?buffer "[]", OF _ _ m(2), of _ _ behind] buffer
      read_number_line_whole [OF buffer, of behind] by simp_all
  then have r1: "read_begin behind ?r0 = Inr ?r1"
    using m0 buffer
    by (simp add: read_begin_def Let_def protocol_redis_reader_context_reset_def numeral_3_eq_3)
  have "(of_nat m :: u32) = of_nat (length args)"
    using m(1) by (simp add: word_unat_eq_iff unat_of_nat take_bit_eq_mod)
  then have "stage_ok args rest ?buffer [] [] ?r1"
    unfolding stage_ok_def
    by (intro conjI expects_lengthI [where i = 0])
      (use n buffer in \<open>simp_all add: protocol_redis_reader_context_reset_def ops_read_len_def numeral_3_eq_3\<close>)
  from read_argument_whole [OF ok this, of behind] r1 show ?thesis
    by (auto simp: protocol_redis_reader_read_def protocol_redis_reader_context_reset_def args_left_def
        announced_def)
qed

text \<open>Call after call, each on what the calls before it left; None is an error of the reader.\<close>

fun read_calls :: "nat \<Rightarrow> bytes \<Rightarrow> protocol_redis_reader_context \<Rightarrow> bytes \<Rightarrow> bytes list
    \<Rightarrow> (protocol_redis_reader_context \<times> bytes \<times> bytes list) option" where
  "read_calls 0 behind ctx buffer acc = Some (ctx, buffer, acc)"
| "read_calls (Suc n) behind ctx buffer acc =
     (case protocol_redis_reader_read behind buffer ctx of
        (None, ctx') \<Rightarrow> None
      | (Some ops, ctx') \<Rightarrow>
          read_calls n behind ctx' (drop (ops_read_len ops) buffer) (fold (collect_op buffer) ops acc))"

lemma args_left_0: "expects args rest ctx stream acc \<Longrightarrow> request_ok args
    \<Longrightarrow> args_left args ctx = 0 \<longleftrightarrow> rc_state ctx = PROTOCOL_REDIS_READER_STATE_COMMAND_PARSED"
  by (cases "rc_state ctx") (auto simp: expects_def args_left_def request_ok_def)

lemma read_calls_expects:
  assumes ok: "request_ok args"
  shows "expects args rest ctx buffer acc \<Longrightarrow> args_left args ctx = n
    \<Longrightarrow> \<exists>ctx'. read_calls n behind ctx buffer acc = Some (ctx', rest, args)
          \<and> rc_state ctx' = PROTOCOL_REDIS_READER_STATE_COMMAND_PARSED"
proof (induction n arbitrary: ctx buffer acc)
  case 0
  then have "rc_state ctx = PROTOCOL_REDIS_READER_STATE_COMMAND_PARSED" using args_left_0 [OF _ ok] by blast
  with 0 show ?case by (simp add: expects_def)
next
  case (Suc n)
  then have np: "rc_state ctx \<noteq> PROTOCOL_REDIS_READER_STATE_COMMAND_PARSED"
    using args_left_0 [OF Suc.prems(1) ok] by simp
  from reader_read_whole [OF ok Suc.prems(1) np, of behind] Suc show ?case by auto
qed

text \<open>
  A blob string without a length: \<open>strtol\<close> skips the line end and reads on. Unless a number
  follows, the end of the number is the end of the line, and the length is 0.
\<close>

lemma read_argument_length_empty:
  assumes "rc_state (rd_context r) = PROTOCOL_REDIS_READER_STATE_RESP_WAITING_ARGUMENT_LENGTH"
    and "rd_buffer r = type_char PROTOCOL_REDIS_TYPE_BLOB_STRING # crlf @ s"
  shows "(\<exists>r'. read_argument_length behind r = Inr r' \<and> rc_length (rd_context r') = 0 \<and> rd_buffer r' = s)
    \<longleftrightarrow> snd (strtol_10 (crlf @ s @ behind)) = 0"
proof -
  have m: "memchr 10 (rd_buffer r) = Some 2"
    using memchr_append [of 10 "[type_char PROTOCOL_REDIS_TYPE_BLOB_STRING, 13]" s] assms(2) by simp
  have z: "snd (strtol_10 x) = 0 \<Longrightarrow> fst (strtol_10 x) = 0" for x
    by (auto simp: strtol_10_def Let_def split: if_splits)
  obtain v n where v: "strtol_10 (crlf @ s @ behind) = (v, n)" by (cases "strtol_10 (crlf @ s @ behind)")
  then have "read_number_line behind (rd_buffer r) = Line_number 2 v (n = 0)"
    using m assms(2) by (simp add: read_number_line_def)
  then show ?thesis
    using assms z [of "crlf @ s @ behind"] v
    by (auto simp: read_argument_length_def read_error_def Let_def numeral_3_eq_3)
qed

section \<open>Properties\<close>

text \<open>
  C14: requests survive any fragmentation. The bytes that the writer produces for an array of blob
  strings may arrive in any pieces, with calls of the reader at any time between them and whatever
  memory lies behind the buffer: the reader never reports an error, and when it reports the
  command as parsed, the collected arguments are those written, and exactly the bytes of the
  request have been read.
\<close>

theorem requests_survive_fragmentation:
  assumes "args \<noteq> []" and "length args < 2 ^ 32" and "\<forall>a\<in>set args. length a < 2 ^ 31"
    and "write_replies (Resp_array (of_nat (length args))) (map Resp_blob_string args) space = Written w unused"
    and "reachable (session_init (w @ rest)) session_step (ctx, pending, coming, acc)"
  shows "rc_error ctx = PROTOCOL_REDIS_READER_ERROR_OK
    \<and> (rc_state ctx = PROTOCOL_REDIS_READER_STATE_COMMAND_PARSED \<longrightarrow> acc = args \<and> pending @ coming = rest)
    \<and> (rc_state ctx \<noteq> PROTOCOL_REDIS_READER_STATE_COMMAND_PARSED \<and> pending \<noteq> [] \<longrightarrow>
         fst (protocol_redis_reader_read behind pending ctx) \<noteq> None)"
proof -
  have ok: "request_ok args" using assms(1-3) by (auto simp: request_ok_def)
  have "\<forall>m\<in>set (Resp_array (of_nat (length args)) # map Resp_blob_string args). resp_ok m" using assms(3) by simp
  note this = redis.stream_written [OF this]
  then have "w = request args"
    using assms(4) unfolding writes_def write_replies_def
    by (auto simp: request_def comp_def split: if_splits)
  then have exp: "expects args rest ctx (pending @ coming) acc"
    using session_reachable [OF ok, of rest "(ctx, pending, coming, acc)"] assms(5)
    by (simp add: session_inv_def)
  then show ?thesis
    using reader_read_ok [OF ok exp, of behind]
    by (auto simp: expects_def result_ok_def split: prod.splits option.splits)
qed

theorem requests_survive_fragmentation_witness:
  "fst (protocol_redis_reader_read [] (request [str ''PING'']) protocol_redis_reader_context_reset) \<noteq> None"
proof -
  let ?w = "request [str ''PING'']" and ?space = "replicate 100 (0 :: u8)"
  have "length ?w < length ?space" by (simp add: request_def resp_line_def str_def dec_small)
  then have w: "write_replies (Resp_array (of_nat (length [str ''PING'']))) (map Resp_blob_string [str ''PING'']) ?space
      = Written ?w (drop (length ?w) ?space)"
    using redis.stream_written [of "Resp_array 1" "map Resp_blob_string [str ''PING'']"]
    by (simp add: write_replies_def writes_def request_def str_def)
  have "session_init (?w @ []) (protocol_redis_reader_context_reset, [], ?w @ [], [])"
    by (simp add: session_init_def)
  then have "reachable (session_init (?w @ [])) session_step (protocol_redis_reader_context_reset, [] @ ?w, [], [])"
    by (rule reachable_step [OF reachable_init]) (rule session_receive)
  from requests_survive_fragmentation [OF _ _ _ w this, of "[]"] show ?thesis
    by (simp add: str_def request_def resp_line_def protocol_redis_reader_context_reset_def)
qed

text \<open>
  C15: a request in the buffer is read to its end. When all bytes of a request are there, as many
  calls of the reader as it has arguments parse it, hand out its arguments and leave the bytes
  behind the request.
\<close>

theorem request_in_buffer_parsed:
  assumes "request_ok args"
  shows "\<exists>ctx. read_calls (length args) behind protocol_redis_reader_context_reset (request args @ rest) []
      = Some (ctx, rest, args)
    \<and> rc_state ctx = PROTOCOL_REDIS_READER_STATE_COMMAND_PARSED"
  by (rule read_calls_expects [OF assms])
    (simp_all add: expects_def args_left_def protocol_redis_reader_context_reset_def)

theorem request_in_buffer_parsed_witness:
  "\<exists>ctx. read_calls (length [str ''GET'', str ''k'']) [] protocol_redis_reader_context_reset
        (request [str ''GET'', str ''k''] @ str ''*'') []
      = Some (ctx, str ''*'', [str ''GET'', str ''k''])
    \<and> rc_state ctx = PROTOCOL_REDIS_READER_STATE_COMMAND_PARSED"
  by (rule request_in_buffer_parsed) (simp add: request_ok_def str_def)

text \<open>
  C16: the count of the arguments is cut off at 32 bits. Whatever number up to the largest long a
  request announces, when it is the number of its arguments modulo \<open>2 ^ 32\<close>, the reader accepts
  it and hands out the arguments as if their true number had been announced: for example, a
  request that announces 4294967297 arguments is complete after the first.
\<close>

theorem argument_count_truncated:
  assumes "request_ok args" and "m mod 2 ^ 32 = length args" and "int m \<le> LONG_MAX"
  shows "\<exists>ctx. read_calls (length args) behind protocol_redis_reader_context_reset (announced m args @ rest) []
      = Some (ctx, rest, args)
    \<and> rc_state ctx = PROTOCOL_REDIS_READER_STATE_COMMAND_PARSED"
proof -
  obtain ops ctx' where 1: "protocol_redis_reader_read behind (announced m args @ rest)
        protocol_redis_reader_context_reset = (Some ops, ctx')"
    and 2: "Suc (args_left args ctx') = length args"
    and 3: "expects args rest ctx' (drop (ops_read_len ops) (announced m args @ rest))
        (fold (collect_op (announced m args @ rest)) ops [])"
    using reader_read_announced [OF assms] by blast
  show ?thesis
    using read_calls_expects [OF assms(1) 3 refl, of behind] 1 unfolding 2 [symmetric] by simp
qed

theorem argument_count_truncated_witness:
  "\<exists>ctx. read_calls (length [str ''PING'']) [] protocol_redis_reader_context_reset
        (announced 4294967297 [str ''PING''] @ str ''x'') []
      = Some (ctx, str ''x'', [str ''PING''])
    \<and> rc_state ctx = PROTOCOL_REDIS_READER_STATE_COMMAND_PARSED"
  by (rule argument_count_truncated) (simp_all add: request_ok_def str_def LONG_MAX_def)

end
