(* ===== verification/Simulation.thy ===== *)
theory Simulation
  imports Main
begin

text \<open>
  Components that are driven by a sequence of commands: running a sequence, and the contract
  between a component and its abstract counterpart. A command returns no result where its
  preconditions do not hold; what the specification allows, the component does with the same
  reply.
\<close>

fun run :: "('c \<Rightarrow> 's \<Rightarrow> ('r \<times> 's) option) \<Rightarrow> 'c list \<Rightarrow> 's \<Rightarrow> ('r list \<times> 's) option" where
  "run f [] s = Some ([], s)"
| "run f (c # cs) s =
     (case f c s of
        None \<Rightarrow> None
      | Some (r, s1) \<Rightarrow> (case run f cs s1 of None \<Rightarrow> None | Some (rs, s2) \<Rightarrow> Some (r # rs, s2)))"

lemma run_cons_iff:
  "run f (c # cs) s = Some (rs, s2)
    \<longleftrightarrow> (\<exists>r rs' s1. f c s = Some (r, s1) \<and> run f cs s1 = Some (rs', s2) \<and> rs = r # rs')"
  by (auto split: option.splits)

locale simulation =
  fixes abs_rel :: "'s \<Rightarrow> 'a \<Rightarrow> bool"
    and impl :: "'c \<Rightarrow> 's \<Rightarrow> ('r \<times> 's) option"
    and spec :: "'c \<Rightarrow> 'a \<Rightarrow> ('r \<times> 'a) option"
  assumes step_law: "abs_rel s a \<Longrightarrow> spec c a = Some (r, a')
    \<Longrightarrow> \<exists>s'. impl c s = Some (r, s') \<and> abs_rel s' a'"
begin

lemma run_refines:
  "abs_rel s a \<Longrightarrow> run spec cs a = Some (rs, a')
    \<Longrightarrow> \<exists>s'. run impl cs s = Some (rs, s') \<and> abs_rel s' a'"
proof (induction cs arbitrary: s a rs)
  case Nil
  then show ?case by simp
next
  case (Cons c cs)
  then obtain r rs' a1 where a1: "spec c a = Some (r, a1)" and rest: "run spec cs a1 = Some (rs', a')"
    and rs: "rs = r # rs'"
    unfolding run_cons_iff by blast
  obtain s1 where s1: "impl c s = Some (r, s1)" "abs_rel s1 a1"
    using step_law [OF Cons.prems(1) a1] by blast
  obtain s' where "run impl cs s1 = Some (rs', s')" "abs_rel s' a'"
    using Cons.IH [OF s1(2) rest] by blast
  with s1 rs show ?case by auto
qed

end

end
