(* ===== verification/Double_Linked_List.thy ===== *)
theory Double_Linked_List
  imports Prelude Simulation
begin

text \<open>
  The double linked list of \<open>data_structures/double_linked_list\<close>. Items live in a store from
  addresses to items, \<open>NULL\<close> is \<open>None\<close>; every operation is the sequence of loads and stores of
  the code, and an assertion that fails is \<open>None\<close>. The list refines a sequence of addresses:
  every operation is the obvious one on sequences, whatever the order in which the items lie in
  memory, and walks in both directions visit the sequence.
\<close>

type_synonym addr = nat

record double_linked_list_item =
  prev :: "addr option"
  "next" :: "addr option"
  data :: addr

record double_linked_list =
  count :: u32
  head :: "addr option"
  tail :: "addr option"

type_synonym items = "addr \<Rightarrow> double_linked_list_item"
type_synonym dll_state = "items \<times> double_linked_list"

definition set_prev :: "addr \<Rightarrow> addr option \<Rightarrow> items \<Rightarrow> items" where
  "set_prev a p h = h(a := (h a)\<lparr>prev := p\<rparr>)"

definition set_next :: "addr \<Rightarrow> addr option \<Rightarrow> items \<Rightarrow> items" where
  "set_next a n h = h(a := (h a)\<lparr>next := n\<rparr>)"

definition double_linked_list_init :: double_linked_list where
  "double_linked_list_init = \<lparr>count = 0, head = None, tail = None\<rparr>"

definition double_linked_list_iter_next :: "dll_state \<Rightarrow> addr option \<Rightarrow> addr option" where
  "double_linked_list_iter_next st current_item =
     (case current_item of None \<Rightarrow> head (snd st) | Some a \<Rightarrow> next (fst st a))"

definition double_linked_list_iter_prev :: "dll_state \<Rightarrow> addr option \<Rightarrow> addr option" where
  "double_linked_list_iter_prev st current_item =
     (case current_item of None \<Rightarrow> tail (snd st) | Some a \<Rightarrow> prev (fst st a))"

text \<open>The end of both insertions: an item without a neighbour becomes the head or the tail.\<close>

definition update_ends :: "addr \<Rightarrow> items \<Rightarrow> double_linked_list \<Rightarrow> double_linked_list" where
  "update_ends item h l =
     (let l = (if prev (h item) = None then l\<lparr>head := Some item\<rparr> else l);
          l = (if next (h item) = None then l\<lparr>tail := Some item\<rparr> else l)
      in l\<lparr>count := count l + 1\<rparr>)"

definition double_linked_list_insert_item_before ::
  "addr \<Rightarrow> addr option \<Rightarrow> dll_state \<Rightarrow> dll_state option" where
  "double_linked_list_insert_item_before item before_item st =
     (let (h, l) = st in
      if before_item = None \<and> head l \<noteq> None then None
      else
        let h = set_next item None (set_prev item None h);
            h = (case before_item of
                   None \<Rightarrow> h
                 | Some b \<Rightarrow>
                     let h = set_prev item (prev (h b)) h;
                         h = set_next item (Some b) h;
                         h = set_prev b (Some item) h
                     in case prev (h item) of
                          None \<Rightarrow> h
                        | Some p \<Rightarrow> if next (h p) \<noteq> None then set_next p (Some item) h else h)
        in Some (h, update_ends item h l))"

definition double_linked_list_insert_item_after ::
  "addr \<Rightarrow> addr option \<Rightarrow> dll_state \<Rightarrow> dll_state option" where
  "double_linked_list_insert_item_after item after_item st =
     (let (h, l) = st in
      if after_item = None \<and> head l \<noteq> None then None
      else
        let h = set_next item None (set_prev item None h);
            h = (case after_item of
                   None \<Rightarrow> h
                 | Some a \<Rightarrow>
                     let h = set_prev item (Some a) h;
                         h = set_next item (next (h a)) h;
                         h = set_next a (Some item) h
                     in case next (h item) of
                          None \<Rightarrow> h
                        | Some n \<Rightarrow> if prev (h n) \<noteq> None then set_prev n (Some item) h else h)
        in Some (h, update_ends item h l))"

definition double_linked_list_push_item :: "addr \<Rightarrow> dll_state \<Rightarrow> dll_state option" where
  "double_linked_list_push_item item st =
     double_linked_list_insert_item_after item (tail (snd st)) st"

definition double_linked_list_unshift_item :: "addr \<Rightarrow> dll_state \<Rightarrow> dll_state option" where
  "double_linked_list_unshift_item item st =
     double_linked_list_insert_item_before item (head (snd st)) st"

definition double_linked_list_remove_item :: "addr \<Rightarrow> dll_state \<Rightarrow> dll_state" where
  "double_linked_list_remove_item item st =
     (let (h, l) = st;
          h = (case next (h item) of None \<Rightarrow> h | Some n \<Rightarrow> set_prev n (prev (h item)) h);
          h = (case prev (h item) of None \<Rightarrow> h | Some p \<Rightarrow> set_next p (next (h item)) h);
          l = (if head l = Some item then l\<lparr>head := next (h item)\<rparr> else l);
          l = (if tail l = Some item then l\<lparr>tail := prev (h item)\<rparr> else l);
          h = set_prev item None (set_next item None h)
      in (h, l\<lparr>count := count l - 1\<rparr>))"

definition double_linked_list_pop_item :: "dll_state \<Rightarrow> addr option \<times> dll_state" where
  "double_linked_list_pop_item st =
     (case tail (snd st) of
        None \<Rightarrow> (None, st)
      | Some item \<Rightarrow> (Some item, double_linked_list_remove_item item st))"

definition double_linked_list_shift_item :: "dll_state \<Rightarrow> addr option \<times> dll_state" where
  "double_linked_list_shift_item st =
     (case head (snd st) of
        None \<Rightarrow> (None, st)
      | Some item \<Rightarrow> (Some item, double_linked_list_remove_item item st))"

text \<open>
  The end of both moves: the neighbours the item had are linked to each other.
\<close>

definition link_neighbours :: "addr option \<Rightarrow> addr option \<Rightarrow> items \<Rightarrow> items" where
  "link_neighbours item_prev item_next h =
     (let h = (case item_prev of None \<Rightarrow> h | Some p \<Rightarrow> set_next p item_next h)
      in case item_next of None \<Rightarrow> h | Some n \<Rightarrow> set_prev n item_prev h)"

definition double_linked_list_move_item_to_head :: "addr \<Rightarrow> dll_state \<Rightarrow> dll_state option" where
  "double_linked_list_move_item_to_head item st =
     (let (h, l) = st in
      case head l of
        None \<Rightarrow> None
      | Some old_head \<Rightarrow>
          if tail l = None then None
          else if old_head = item then Some st
          else
            let item_prev = prev (h item); item_next = next (h item);
                l = l\<lparr>head := Some item\<rparr>;
                l = (if tail l = Some item then l\<lparr>tail := item_prev\<rparr> else l);
                h = set_prev item None (set_next item (Some old_head) h);
                h = set_prev old_head (Some item) h
            in Some (link_neighbours item_prev item_next h, l))"

definition double_linked_list_move_item_to_tail :: "addr \<Rightarrow> dll_state \<Rightarrow> dll_state option" where
  "double_linked_list_move_item_to_tail item st =
     (let (h, l) = st in
      case tail l of
        None \<Rightarrow> None
      | Some old_tail \<Rightarrow>
          if head l = None then None
          else if old_tail = item then Some st
          else
            let item_prev = prev (h item); item_next = next (h item);
                l = l\<lparr>tail := Some item\<rparr>;
                l = (if head l = Some item then l\<lparr>head := item_next\<rparr> else l);
                h = set_prev item (Some old_tail) (set_next item None h);
                h = set_next old_tail (Some item) h
            in Some (link_neighbours item_prev item_next h, l))"

text \<open>
  The loops \<open>DOUBLE_LINKED_LIST_ITER_FORWARD\<close> and \<open>DOUBLE_LINKED_LIST_ITER_BACKWARD\<close>, with the
  addresses they visit as their result; without fuel they have none.
\<close>

fun iter_forward :: "nat \<Rightarrow> items \<Rightarrow> addr option \<Rightarrow> addr list option" where
  "iter_forward fuel h None = Some []"
| "iter_forward 0 h (Some a) = None"
| "iter_forward (Suc fuel) h (Some a) = map_option (Cons a) (iter_forward fuel h (next (h a)))"

fun iter_backward :: "nat \<Rightarrow> items \<Rightarrow> addr option \<Rightarrow> addr list option" where
  "iter_backward fuel h None = Some []"
| "iter_backward 0 h (Some a) = None"
| "iter_backward (Suc fuel) h (Some a) = map_option (Cons a) (iter_backward fuel h (prev (h a)))"

definition DOUBLE_LINKED_LIST_ITER_FORWARD :: "nat \<Rightarrow> dll_state \<Rightarrow> addr list option" where
  "DOUBLE_LINKED_LIST_ITER_FORWARD fuel st = iter_forward fuel (fst st) (head (snd st))"

definition DOUBLE_LINKED_LIST_ITER_BACKWARD :: "nat \<Rightarrow> dll_state \<Rightarrow> addr list option" where
  "DOUBLE_LINKED_LIST_ITER_BACKWARD fuel st = iter_backward fuel (fst st) (tail (snd st))"

section \<open>Segments\<close>

text \<open>
  The addresses \<open>xs\<close> are linked in both directions, with \<open>p\<close> before the first and \<open>n\<close> after the
  last of them.
\<close>

fun first :: "addr list \<Rightarrow> addr option \<Rightarrow> addr option" where
  "first [] n = n"
| "first (x # xs) n = Some x"

fun final :: "addr list \<Rightarrow> addr option \<Rightarrow> addr option" where
  "final [] p = p"
| "final (x # xs) p = final xs (Some x)"

fun segment :: "items \<Rightarrow> addr option \<Rightarrow> addr list \<Rightarrow> addr option \<Rightarrow> bool" where
  "segment h p [] n = True"
| "segment h p (x # xs) n
    \<longleftrightarrow> prev (h x) = p \<and> next (h x) = first xs n \<and> segment h (Some x) xs n"

definition is_list :: "dll_state \<Rightarrow> addr list \<Rightarrow> bool" where
  "is_list st xs \<longleftrightarrow> distinct xs \<and> segment (fst st) None xs None \<and> head (snd st) = first xs None
     \<and> tail (snd st) = final xs None \<and> count (snd st) = of_nat (length xs)"

lemma first_append [simp]: "first (xs @ ys) n = first xs (first ys n)"
  by (cases xs) auto

lemma final_append [simp]: "final (xs @ ys) p = final ys (final xs p)"
  by (induction xs arbitrary: p) auto

lemma segment_append [simp]:
  "segment h p (xs @ ys) n \<longleftrightarrow> segment h p xs (first ys n) \<and> segment h (final xs p) ys n"
  by (induction xs arbitrary: p) auto

lemma final_neq [simp]: "a \<notin> set xs \<Longrightarrow> p \<noteq> Some a \<Longrightarrow> final xs p \<noteq> Some a"
  by (induction xs arbitrary: p) auto

lemma first_neq [simp]: "a \<notin> set xs \<Longrightarrow> n \<noteq> Some a \<Longrightarrow> first xs n \<noteq> Some a"
  by (cases xs) auto

lemma first_None_iff [simp]: "first xs n = None \<longleftrightarrow> xs = [] \<and> n = None"
  by (cases xs) auto

lemma final_None_iff [simp]: "final xs p = None \<longleftrightarrow> xs = [] \<and> p = None"
  by (cases xs rule: rev_cases) auto

lemma segment_cong:
  "(\<And>a. a \<in> set xs \<Longrightarrow> h' a = h a) \<Longrightarrow> segment h p xs n \<Longrightarrow> segment h' p xs n"
  by (induction xs arbitrary: p) auto

lemma segment_frame [simp]:
  "a \<notin> set xs \<Longrightarrow> segment (h(a := v)) p xs n \<longleftrightarrow> segment h p xs n"
  by (induction xs arbitrary: p) auto


section \<open>Each operation on sequences\<close>

lemmas dll_defs = is_list_def set_prev_def set_next_def update_ends_def link_neighbours_def Let_def

lemma is_list_init: "is_list (h, double_linked_list_init) []"
  by (simp add: is_list_def double_linked_list_init_def)

lemma insert_before_list:
  assumes "is_list st (xs @ b # ys)" and "a \<notin> set (xs @ b # ys)"
  shows "\<exists>st'. double_linked_list_insert_item_before a (Some b) st = Some st'
    \<and> is_list st' (xs @ a # b # ys)"
proof (cases st)
  case (Pair h l)
  with assms show ?thesis
    unfolding double_linked_list_insert_item_before_def
    by (cases xs rule: rev_cases) (auto simp: dll_defs)
qed

lemma insert_after_list:
  assumes "is_list st (xs @ b # ys)" and "a \<notin> set (xs @ b # ys)"
  shows "\<exists>st'. double_linked_list_insert_item_after a (Some b) st = Some st'
    \<and> is_list st' (xs @ b # a # ys)"
proof (cases st)
  case (Pair h l)
  with assms show ?thesis
    unfolding double_linked_list_insert_item_after_def
    by (cases ys) (auto simp: dll_defs)
qed

lemma remove_list:
  assumes "is_list st (xs @ a # ys)"
  shows "is_list (double_linked_list_remove_item a st) (xs @ ys)"
proof (cases st)
  case (Pair h l)
  with assms show ?thesis
    unfolding double_linked_list_remove_item_def
    by (cases xs rule: rev_cases; cases ys) (auto simp: dll_defs)
qed

lemma push_list:
  assumes "is_list st xs" and "a \<notin> set xs"
  shows "\<exists>st'. double_linked_list_push_item a st = Some st' \<and> is_list st' (xs @ [a])"
proof (cases xs rule: rev_cases)
  case Nil
  with assms show ?thesis
    by (cases st) (auto simp: double_linked_list_push_item_def
        double_linked_list_insert_item_after_def dll_defs)
next
  case (snoc ys b)
  with assms have "tail (snd st) = Some b" by (simp add: is_list_def)
  with insert_after_list [of st ys b "[]" a] assms snoc show ?thesis
    by (simp add: double_linked_list_push_item_def)
qed

lemma unshift_list:
  assumes "is_list st xs" and "a \<notin> set xs"
  shows "\<exists>st'. double_linked_list_unshift_item a st = Some st' \<and> is_list st' (a # xs)"
proof (cases xs)
  case Nil
  with assms show ?thesis
    by (cases st) (auto simp: double_linked_list_unshift_item_def
        double_linked_list_insert_item_before_def dll_defs)
next
  case (Cons b ys)
  with assms have "head (snd st) = Some b" by (simp add: is_list_def)
  with insert_before_list [of st "[]" b ys a] assms Cons show ?thesis
    by (simp add: double_linked_list_unshift_item_def)
qed

lemma move_to_head_list:
  assumes "is_list st (xs @ a # ys)"
  shows "\<exists>st'. double_linked_list_move_item_to_head a st = Some st' \<and> is_list st' (a # xs @ ys)"
proof (cases xs)
  case Nil
  with assms show ?thesis
    by (cases st) (auto simp: double_linked_list_move_item_to_head_def is_list_def)
next
  case (Cons x zs)
  obtain h l where st: "st = (h, l)" by (cases st)
  show ?thesis
    using assms unfolding double_linked_list_move_item_to_head_def st Cons
    by (cases zs rule: rev_cases; cases ys) (auto simp: dll_defs)
qed

lemma move_to_tail_list:
  assumes "is_list st (xs @ a # ys)"
  shows "\<exists>st'. double_linked_list_move_item_to_tail a st = Some st' \<and> is_list st' (xs @ ys @ [a])"
proof (cases ys rule: rev_cases)
  case Nil
  with assms show ?thesis
    by (cases st) (auto simp: double_linked_list_move_item_to_tail_def is_list_def)
next
  case (snoc zs y)
  obtain h l where st: "st = (h, l)" by (cases st)
  show ?thesis
    using assms unfolding double_linked_list_move_item_to_tail_def st snoc
    by (cases zs; cases xs rule: rev_cases) (auto simp: dll_defs)
qed


lemma pop_list:
  assumes "is_list st xs"
  shows "\<exists>st'. double_linked_list_pop_item st = (final xs None, st') \<and> is_list st' (butlast xs)"
proof (cases xs rule: rev_cases)
  case Nil
  with assms show ?thesis by (simp add: double_linked_list_pop_item_def is_list_def)
next
  case (snoc ys a)
  with assms remove_list [of st ys a "[]"] show ?thesis
    by (simp add: double_linked_list_pop_item_def is_list_def)
qed

lemma shift_list:
  assumes "is_list st xs"
  shows "\<exists>st'. double_linked_list_shift_item st = (first xs None, st') \<and> is_list st' (tl xs)"
proof (cases xs)
  case Nil
  with assms show ?thesis by (simp add: double_linked_list_shift_item_def is_list_def)
next
  case (Cons a ys)
  with assms remove_list [of st "[]" a ys] show ?thesis
    by (simp add: double_linked_list_shift_item_def is_list_def)
qed

lemma iter_forward_segment: "segment h p xs None \<Longrightarrow> length xs \<le> fuel \<Longrightarrow> iter_forward fuel h (first xs None) = Some xs"
  by (induction fuel arbitrary: p xs) (case_tac [!] xs, auto)

lemma iter_backward_segment: "segment h None xs n \<Longrightarrow> length xs \<le> fuel \<Longrightarrow> iter_backward fuel h (final xs None) = Some (rev xs)"
  by (induction fuel arbitrary: n xs) (case_tac [!] xs rule: rev_cases, auto)

section \<open>The list refines a sequence\<close>

datatype dll_cmd = Push addr | Unshift addr | Pop | Shift | Remove addr
  | Move_to_head addr | Move_to_tail addr | Insert_before addr addr | Insert_after addr addr

fun dll_exec :: "dll_cmd \<Rightarrow> dll_state \<Rightarrow> (addr option \<times> dll_state) option" where
  "dll_exec (Push a) st = map_option (Pair None) (double_linked_list_push_item a st)"
| "dll_exec (Unshift a) st = map_option (Pair None) (double_linked_list_unshift_item a st)"
| "dll_exec Pop st = Some (double_linked_list_pop_item st)"
| "dll_exec Shift st = Some (double_linked_list_shift_item st)"
| "dll_exec (Remove a) st = Some (None, double_linked_list_remove_item a st)"
| "dll_exec (Move_to_head a) st = map_option (Pair None) (double_linked_list_move_item_to_head a st)"
| "dll_exec (Move_to_tail a) st = map_option (Pair None) (double_linked_list_move_item_to_tail a st)"
| "dll_exec (Insert_before a b) st =
     map_option (Pair None) (double_linked_list_insert_item_before a (Some b) st)"
| "dll_exec (Insert_after a b) st =
     map_option (Pair None) (double_linked_list_insert_item_after a (Some b) st)"

text \<open>
  The same commands on a sequence of distinct addresses. An item is inserted only where it is not
  in the list and removed or moved only where it is, which is the contract of the callers.
\<close>

definition before :: "addr \<Rightarrow> addr list \<Rightarrow> addr list" where
  "before b xs = takeWhile (\<lambda>x. x \<noteq> b) xs"

definition behind :: "addr \<Rightarrow> addr list \<Rightarrow> addr list" where
  "behind b xs = tl (dropWhile (\<lambda>x. x \<noteq> b) xs)"

fun seq_exec :: "dll_cmd \<Rightarrow> addr list \<Rightarrow> (addr option \<times> addr list) option" where
  "seq_exec (Push a) xs = (if a \<in> set xs then None else Some (None, xs @ [a]))"
| "seq_exec (Unshift a) xs = (if a \<in> set xs then None else Some (None, a # xs))"
| "seq_exec Pop xs = Some (if xs = [] then None else Some (last xs), butlast xs)"
| "seq_exec Shift xs = Some (if xs = [] then None else Some (hd xs), tl xs)"
| "seq_exec (Remove a) xs = (if a \<in> set xs then Some (None, remove1 a xs) else None)"
| "seq_exec (Move_to_head a) xs = (if a \<in> set xs then Some (None, a # remove1 a xs) else None)"
| "seq_exec (Move_to_tail a) xs = (if a \<in> set xs then Some (None, remove1 a xs @ [a]) else None)"
| "seq_exec (Insert_before a b) xs =
     (if a \<notin> set xs \<and> b \<in> set xs then Some (None, before b xs @ a # b # behind b xs) else None)"
| "seq_exec (Insert_after a b) xs =
     (if a \<notin> set xs \<and> b \<in> set xs then Some (None, before b xs @ b # a # behind b xs) else None)"

lemma split_at: "b \<in> set xs \<Longrightarrow> xs = before b xs @ b # behind b xs"
  by (induction xs) (auto simp: before_def behind_def)

lemma notin_before [simp]: "a \<notin> set xs \<Longrightarrow> a \<notin> set (before b xs)"
  by (auto simp: before_def dest: set_takeWhileD)

lemma notin_behind [simp]: "a \<notin> set xs \<Longrightarrow> a \<notin> set (behind b xs)"
  by (induction xs) (auto simp: behind_def)

lemma remove1_split: "b \<in> set xs \<Longrightarrow> remove1 b xs = before b xs @ behind b xs"
  by (induction xs) (auto simp: before_def behind_def)

lemma final_last: "final xs None = (if xs = [] then None else Some (last xs))"
  by (cases xs rule: rev_cases) auto

lemma first_hd: "first xs None = (if xs = [] then None else Some (hd xs))"
  by (cases xs) auto

interpretation dll: simulation is_list dll_exec seq_exec
proof
  fix st xs c r xs'
  assume st: "is_list st xs" and spec: "seq_exec c xs = Some (r, xs')"
  show "\<exists>st'. dll_exec c st = Some (r, st') \<and> is_list st' xs'"
  proof (cases c)
    case (Push a)
    with st spec push_list [of st xs a] show ?thesis by (auto split: if_splits)
  next
    case (Unshift a)
    with st spec unshift_list [of st xs a] show ?thesis by (auto split: if_splits)
  next
    case Pop
    with st spec pop_list [of st xs] show ?thesis by (auto simp: final_last)
  next
    case Shift
    with st spec shift_list [of st xs] show ?thesis by (auto simp: first_hd)
  next
    case (Remove a)
    with st spec remove_list [of st "before a xs" a "behind a xs"] show ?thesis
      by (auto simp: remove1_split simp flip: split_at split: if_splits)
  next
    case (Move_to_head a)
    with st spec move_to_head_list [of st "before a xs" a "behind a xs"] show ?thesis
      by (auto simp: remove1_split simp flip: split_at split: if_splits)
  next
    case (Move_to_tail a)
    with st spec move_to_tail_list [of st "before a xs" a "behind a xs"] show ?thesis
      by (auto simp: remove1_split simp flip: split_at split: if_splits)
  next
    case (Insert_before a b)
    with st spec insert_before_list [of st "before b xs" b "behind b xs" a] show ?thesis
      by (auto simp flip: split_at split: if_splits)
  next
    case (Insert_after a b)
    with st spec insert_after_list [of st "before b xs" b "behind b xs" a] show ?thesis
      by (auto simp flip: split_at split: if_splits)
  qed
qed

text \<open>
  C19: Whatever commands the double linked list executes from the empty list on (insertions at both
  ends and next to an item, removals, moves to an end), it gives the replies of a sequence, ends
  as the linked form of that sequence with its length as count, and the loops in both directions
  terminate and visit the items of the sequence in order and in reverse order.
\<close>

theorem list_is_sequence:
  assumes "run seq_exec cs [] = Some (rs, xs)"
  shows "\<exists>st. run dll_exec cs (h, double_linked_list_init) = Some (rs, st)
    \<and> count (snd st) = of_nat (length xs)
    \<and> (\<forall>fuel \<ge> length xs. DOUBLE_LINKED_LIST_ITER_FORWARD fuel st = Some xs
        \<and> DOUBLE_LINKED_LIST_ITER_BACKWARD fuel st = Some (rev xs))"
proof -
  obtain st where st: "run dll_exec cs (h, double_linked_list_init) = Some (rs, st)" "is_list st xs"
    using dll.run_refines [OF is_list_init assms] by blast
  then show ?thesis
    by (auto simp: is_list_def DOUBLE_LINKED_LIST_ITER_FORWARD_def DOUBLE_LINKED_LIST_ITER_BACKWARD_def
        iter_forward_segment iter_backward_segment)
qed

theorem list_is_sequence_witness:
  "\<exists>st. run dll_exec [Push 7, Push 3, Unshift 9, Insert_after 4 7, Move_to_head 3, Remove 7, Pop]
      (\<lambda>a. \<lparr>prev = None, next = None, data = a\<rparr>, double_linked_list_init)
      = Some ([None, None, None, None, None, None, Some 4], st)
    \<and> count (snd st) = 2 \<and> DOUBLE_LINKED_LIST_ITER_FORWARD 2 st = Some [3, 9]
    \<and> DOUBLE_LINKED_LIST_ITER_BACKWARD 2 st = Some [9, 3]"
  using list_is_sequence [of "[Push 7, Push 3, Unshift 9, Insert_after 4 7, Move_to_head 3, Remove 7, Pop]"
      "[None, None, None, None, None, None, Some 4]" "[3, 9]" "\<lambda>a. \<lparr>prev = None, next = None, data = a\<rparr>"]
  by (fastforce simp: before_def behind_def)

end
