(* ===== verification/Ring_Queue.thy ===== *)
theory Ring_Queue
  imports Prelude Pow2 Simulation
begin

text \<open>
  The bounded ring queue of \<open>data_structures/ring_bounded_queue_spsc\<close>, for any type of items. Head
  and tail are 32 bit counters that only grow and wrap around; the mask makes them indices. The
  sequential operations refine a bounded queue. For one producer and one consumer in different
  threads every load and store of the shared fields is a step of its own, in program order as
  the fences of the code demand.
\<close>

record 'a ring_bounded_queue_spsc =
  rb_size :: u32
  rb_mask :: u32
  head :: u32
  tail :: u32
  items :: "'a list"

definition ring_bounded_queue_spsc_init :: "u32 \<Rightarrow> 'a::zero ring_bounded_queue_spsc" where
  "ring_bounded_queue_spsc_init sz =
     (let sz = ucast (pow2_next (ucast sz))
      in \<lparr>rb_size = sz, rb_mask = sz - 1, head = 0, tail = 0, items = replicate (unat sz) 0\<rparr>)"

definition ring_bounded_queue_spsc_get_length :: "'a ring_bounded_queue_spsc \<Rightarrow> u32" where
  "ring_bounded_queue_spsc_get_length rb = tail rb - head rb"

definition ring_bounded_queue_spsc_is_empty :: "'a ring_bounded_queue_spsc \<Rightarrow> bool" where
  "ring_bounded_queue_spsc_is_empty rb \<longleftrightarrow> ring_bounded_queue_spsc_get_length rb = 0"

definition ring_bounded_queue_spsc_is_full :: "'a ring_bounded_queue_spsc \<Rightarrow> bool" where
  "ring_bounded_queue_spsc_is_full rb \<longleftrightarrow> ring_bounded_queue_spsc_get_length rb = rb_size rb"

text \<open>The item at a counter; \<open>found\<close> is whether the result is not \<open>None\<close>.\<close>

definition item_at :: "'a ring_bounded_queue_spsc \<Rightarrow> u32 \<Rightarrow> 'a" where
  "item_at rb c = items rb ! unat (c AND rb_mask rb)"

definition ring_bounded_queue_spsc_peek :: "'a ring_bounded_queue_spsc \<Rightarrow> 'a option" where
  "ring_bounded_queue_spsc_peek rb =
     (if head rb = tail rb then None else Some (item_at rb (head rb)))"

definition store_item :: "'a \<Rightarrow> 'a ring_bounded_queue_spsc \<Rightarrow> 'a ring_bounded_queue_spsc" where
  "store_item value rb = rb\<lparr>items := (items rb)[unat (tail rb AND rb_mask rb) := value]\<rparr>"

definition advance_tail :: "'a ring_bounded_queue_spsc \<Rightarrow> 'a ring_bounded_queue_spsc" where
  "advance_tail rb = rb\<lparr>tail := tail rb + 1\<rparr>"

definition advance_head :: "'a ring_bounded_queue_spsc \<Rightarrow> 'a ring_bounded_queue_spsc" where
  "advance_head rb = rb\<lparr>head := head rb + 1\<rparr>"

definition ring_bounded_queue_spsc_enqueue ::
  "'a \<Rightarrow> 'a ring_bounded_queue_spsc \<Rightarrow> bool \<times> 'a ring_bounded_queue_spsc" where
  "ring_bounded_queue_spsc_enqueue value rb =
     (if ring_bounded_queue_spsc_is_full rb then (False, rb)
      else (True, advance_tail (store_item value rb)))"

text \<open>The result of \<open>enqueue_ptr\<close> is the index of the item, the pointer into the array.\<close>

definition ring_bounded_queue_spsc_enqueue_ptr ::
  "'a \<Rightarrow> 'a ring_bounded_queue_spsc \<Rightarrow> nat option \<times> 'a ring_bounded_queue_spsc" where
  "ring_bounded_queue_spsc_enqueue_ptr value rb =
     (if ring_bounded_queue_spsc_is_full rb then (None, rb)
      else (Some (unat (tail rb AND rb_mask rb)), advance_tail (store_item value rb)))"

definition ring_bounded_queue_spsc_dequeue ::
  "'a ring_bounded_queue_spsc \<Rightarrow> 'a option \<times> 'a ring_bounded_queue_spsc" where
  "ring_bounded_queue_spsc_dequeue rb =
     (if head rb = tail rb then (None, rb) else (Some (item_at rb (head rb)), advance_head rb))"

section \<open>The queue in the ring\<close>

definition ring_ok :: "nat \<Rightarrow> 'a ring_bounded_queue_spsc \<Rightarrow> bool" where
  "ring_ok n rb \<longleftrightarrow> n < 32 \<and> rb_size rb = 2 ^ n \<and> rb_mask rb = 2 ^ n - 1 \<and> length (items rb) = 2 ^ n
     \<and> unat (tail rb - head rb) \<le> 2 ^ n"

definition contents :: "'a ring_bounded_queue_spsc \<Rightarrow> 'a list" where
  "contents rb = map (\<lambda>i. item_at rb (head rb + of_nat i)) [0..<unat (tail rb - head rb)]"

lemma length_contents: "length (contents rb) = unat (ring_bounded_queue_spsc_get_length rb)"
  by (simp add: contents_def ring_bounded_queue_spsc_get_length_def)

lemma ring_index:
  assumes "n < 32"
  shows "unat ((c + of_nat i) AND (2 ^ n - 1) :: u32) = (unat c + i) mod 2 ^ n"
proof -
  have "(2 :: nat) ^ n dvd 2 ^ 32"
    using assms by (intro le_imp_power_dvd) simp
  then have "(unat c + i) mod 2 ^ 32 mod 2 ^ n = (unat c + i) mod 2 ^ n"
    by (rule mod_mod_cancel)
  moreover have "unat (c + of_nat i) = (unat c + i) mod 2 ^ 32"
    by (simp add: unat_word_ariths unat_of_nat take_bit_eq_mod mod_add_right_eq)
  ultimately show ?thesis
    using assms by (simp add: and_pow2_minus_1)
qed

lemma mod_window:
  fixes a i j m :: nat
  assumes "(a + i) mod m = (a + j) mod m" and "i < j" and "j < i + m"
  shows False
proof -
  have "m dvd (a + j) - (a + i)"
    using assms(1,2) by (subst mod_eq_dvd_iff_nat [symmetric]) auto
  with assms(2,3) show False by (auto dest: dvd_imp_le)
qed

lemma tail_is: "tail rb = head rb + of_nat (unat (tail rb - head rb))"
  by simp

lemma store_frame:
  assumes "ring_ok n rb" and "unat (tail rb - head rb) < 2 ^ n" and "i < unat (tail rb - head rb)"
  shows "item_at (store_item v rb) (head rb + of_nat i) = item_at rb (head rb + of_nat i)"
proof -
  have n: "n < 32" "rb_mask rb = 2 ^ n - 1" using assms(1) by (simp_all add: ring_ok_def)
  have "unat ((head rb + of_nat i) AND rb_mask rb) \<noteq> unat (tail rb AND rb_mask rb)"
    using ring_index [OF n(1), of "head rb" i] assms(2,3) n(2)
      ring_index [OF n(1), of "head rb" "unat (tail rb - head rb)"]
      mod_window [of "unat (head rb)" i "2 ^ n" "unat (tail rb - head rb)"]
    by (auto simp flip: tail_is)
  then show ?thesis by (simp add: item_at_def store_item_def)
qed

lemma store_last:
  assumes "ring_ok n rb"
  shows "item_at (store_item v rb) (tail rb) = v"
proof -
  have n: "n < 32" "rb_mask rb = 2 ^ n - 1" "length (items rb) = 2 ^ n"
    using assms by (simp_all add: ring_ok_def)
  have "unat (tail rb AND rb_mask rb) < length (items rb)"
    using n by (simp add: and_pow2_minus_1)
  then show ?thesis by (simp add: item_at_def store_item_def)
qed


lemma contents_enqueued:
  assumes "ring_ok n rb" and "\<not> ring_bounded_queue_spsc_is_full rb"
  shows "ring_ok n (advance_tail (store_item v rb))"
    and "contents (advance_tail (store_item v rb)) = contents rb @ [v]"
proof -
  let ?l = "unat (tail rb - head rb)"
  have n: "n < 32" "rb_size rb = 2 ^ n" using assms(1) by (simp_all add: ring_ok_def)
  have lt: "?l < 2 ^ n"
  proof -
    have "unat (rb_size rb) = 2 ^ n" using n by (simp add: unat_power2)
    with assms show ?thesis
      by (auto simp: ring_ok_def ring_bounded_queue_spsc_is_full_def
          ring_bounded_queue_spsc_get_length_def le_less word_unat_eq_iff)
  qed
  also have "(2::nat) ^ n \<le> 2 ^ 31" using n(1) by (intro power_increasing) auto
  finally have len: "unat (tail rb - head rb + 1) = Suc ?l"
    by (intro unat_add_one) simp
  have comm: "tail rb + 1 - head rb = tail rb - head rb + 1" by simp
  show "ring_ok n (advance_tail (store_item v rb))"
    using assms(1) lt len unfolding ring_ok_def advance_tail_def store_item_def by (simp add: comm)
  have adv: "item_at (advance_tail (store_item v rb)) c = item_at (store_item v rb) c" for c
    by (simp add: item_at_def advance_tail_def)
  have "head (advance_tail (store_item v rb)) = head rb"
    "tail (advance_tail (store_item v rb)) = tail rb + 1"
    by (simp_all add: advance_tail_def store_item_def)
  then show "contents (advance_tail (store_item v rb)) = contents rb @ [v]"
    using store_frame [OF assms(1) lt] store_last [OF assms(1)]
    unfolding contents_def adv by (simp add: comm len)
qed

lemma contents_dequeued:
  assumes "ring_ok n rb" and "head rb \<noteq> tail rb"
  shows "ring_ok n (advance_head rb)"
    and "contents rb = item_at rb (head rb) # contents (advance_head rb)"
proof -
  let ?l = "unat (tail rb - head rb)"
  have pos: "0 < ?l" using assms(2) by (simp add: unat_gt_0)
  have comm: "tail rb - (head rb + 1) = tail rb - head rb - 1" by simp
  have len: "unat (tail rb - (head rb + 1)) = ?l - 1"
    unfolding comm using pos by (rule unat_sub_one)
  show "ring_ok n (advance_head rb)"
    using assms(1) len unfolding ring_ok_def advance_head_def by auto
  have "[0..<?l] = 0 # map Suc [0..<?l - 1]"
    using pos by (simp add: map_Suc_upt upt_conv_Cons)
  then show "contents rb = item_at rb (head rb) # contents (advance_head rb)"
    unfolding contents_def using len by (simp add: advance_head_def item_at_def o_def add_ac)
qed

lemma contents_empty: "head rb = tail rb \<longleftrightarrow> contents rb = []"
  by (auto simp: contents_def unat_eq_zero)

lemma full_length:
  "ring_ok n rb \<Longrightarrow> ring_bounded_queue_spsc_is_full rb \<longleftrightarrow> length (contents rb) = 2 ^ n"
  by (auto simp: ring_ok_def ring_bounded_queue_spsc_is_full_def length_contents
      word_unat_eq_iff unat_power2)

lemma init_ok:
  assumes "0 < unat sz" and "unat sz \<le> 2 ^ 31"
  obtains n where "ring_ok n (ring_bounded_queue_spsc_init sz :: 'a::zero ring_bounded_queue_spsc)"
    and "contents (ring_bounded_queue_spsc_init sz :: 'a ring_bounded_queue_spsc) = []"
    and "unat sz \<le> 2 ^ n" and "2 ^ n < 2 * unat sz"
proof -
  have c: "unat (ucast sz :: u64) = unat sz"
    by (rule unat_ucast_small) (use unsigned_less [of sz, where 'a = nat] in simp)
  obtain n where n: "n < 32" "pow2_next (ucast sz) = 2 ^ n" "unat sz \<le> 2 ^ n" "2 ^ n < 2 * unat sz"
  proof (cases "unat sz = 1")
    case True
    then have "sz = 1" by (simp add: word_unat_eq_iff)
    then have "pow2_next (ucast sz) = 2 ^ 0" by (simp add: pow2_next_def pow2_next_pow2m1_def)
    with that [of 0] True show ?thesis by simp
  next
    case False
    obtain m where m: "pow2_next (ucast sz) = 2 ^ Suc m" "2 ^ m < unat sz" "unat sz \<le> 2 ^ Suc m"
      using pow2_next_exp [of "ucast sz"] c False assms by auto
    have "(2 :: nat) ^ m < 2 ^ 31" using m(2) assms(2) by linarith
    then have "m < 31" by (rule power_less_imp_less_exp [rotated]) simp
    with that [of "Suc m"] m show ?thesis by simp
  qed
  have "(2::nat) ^ n < 2 ^ 32" using n(1) by (intro power_strict_increasing) simp_all
  then have "unat (ucast (2 ^ n :: u64) :: u32) = 2 ^ n"
    using n(1) by (subst unat_ucast_small) (simp_all add: unat_power2)
  then have s: "(ucast (pow2_next (ucast sz)) :: u32) = 2 ^ n"
    using n(1) unfolding n(2) by (simp add: word_unat_eq_iff unat_power2)
  show ?thesis
    by (rule that [of n]) (use n s in \<open>simp_all add: ring_ok_def contents_def
        ring_bounded_queue_spsc_init_def unat_power2 Let_def\<close>)
qed

section \<open>The ring refines a bounded queue\<close>

datatype 'a queue_cmd = Enqueue 'a | Enqueue_ptr 'a | Dequeue | Peek | Get_length

datatype 'a queue_reply = Stored bool | Item "'a option" | Length nat

fun ring_exec :: "'a queue_cmd \<Rightarrow> 'a ring_bounded_queue_spsc
    \<Rightarrow> ('a queue_reply \<times> 'a ring_bounded_queue_spsc) option" where
  "ring_exec (Enqueue v) rb = Some (apfst Stored (ring_bounded_queue_spsc_enqueue v rb))"
| "ring_exec (Enqueue_ptr v) rb =
     Some (apfst (\<lambda>p. Stored (p \<noteq> None)) (ring_bounded_queue_spsc_enqueue_ptr v rb))"
| "ring_exec Dequeue rb = Some (apfst Item (ring_bounded_queue_spsc_dequeue rb))"
| "ring_exec Peek rb = Some (Item (ring_bounded_queue_spsc_peek rb), rb)"
| "ring_exec Get_length rb = Some (Length (unat (ring_bounded_queue_spsc_get_length rb)), rb)"

definition bounded_put :: "nat \<Rightarrow> 'a \<Rightarrow> 'a list \<Rightarrow> 'a queue_reply \<times> 'a list" where
  "bounded_put cap v q = (if length q < cap then (Stored True, q @ [v]) else (Stored False, q))"

fun queue_exec :: "nat \<Rightarrow> 'a queue_cmd \<Rightarrow> 'a list \<Rightarrow> ('a queue_reply \<times> 'a list) option" where
  "queue_exec cap (Enqueue v) q = Some (bounded_put cap v q)"
| "queue_exec cap (Enqueue_ptr v) q = Some (bounded_put cap v q)"
| "queue_exec cap Dequeue q = Some (case q of [] \<Rightarrow> (Item None, []) | x # q' \<Rightarrow> (Item (Some x), q'))"
| "queue_exec cap Peek q = Some (Item (case q of [] \<Rightarrow> None | x # q' \<Rightarrow> Some x), q)"
| "queue_exec cap Get_length q = Some (Length (length q), q)"

definition ring_is :: "nat \<Rightarrow> 'a ring_bounded_queue_spsc \<Rightarrow> 'a list \<Rightarrow> bool" where
  "ring_is cap rb q \<longleftrightarrow> (\<exists>n. cap = 2 ^ n \<and> ring_ok n rb) \<and> contents rb = q"

lemma ring_isI: "ring_ok n rb \<Longrightarrow> contents rb = q \<Longrightarrow> ring_is (2 ^ n) rb q"
  by (auto simp: ring_is_def)

lemma ring_length_le: "ring_ok n rb \<Longrightarrow> length (contents rb) \<le> 2 ^ n"
  by (simp add: ring_ok_def contents_def)

interpretation ring: simulation "ring_is cap" ring_exec "queue_exec cap"
proof
  fix rb :: "'a ring_bounded_queue_spsc" and q c r q'
  assume "ring_is cap rb q" and spec: "queue_exec cap c q = Some (r, q')"
  then obtain n where n: "cap = 2 ^ n" "ring_ok n rb" "q = contents rb" by (auto simp: ring_is_def)
  note facts = full_length [OF n(2)] ring_length_le [OF n(2)] contents_enqueued [OF n(2)]
  show "\<exists>rb'. ring_exec c rb = Some (r, rb') \<and> ring_is cap rb' q'"
  proof (cases c)
    case (Enqueue v)
    with spec n facts show ?thesis
      by (auto simp: ring_bounded_queue_spsc_enqueue_def bounded_put_def intro!: ring_isI split: if_splits)
  next
    case (Enqueue_ptr v)
    with spec n facts show ?thesis
      by (auto simp: ring_bounded_queue_spsc_enqueue_ptr_def bounded_put_def intro!: ring_isI split: if_splits)
  next
    case Dequeue
    with spec n contents_dequeued [OF n(2)] contents_empty [of rb] show ?thesis
      by (cases "head rb = tail rb")
        (auto simp: ring_bounded_queue_spsc_dequeue_def intro!: ring_isI)
  next
    case Peek
    with spec n contents_dequeued [OF n(2)] contents_empty [of rb] show ?thesis
      by (cases "head rb = tail rb") (auto simp: ring_bounded_queue_spsc_peek_def intro!: ring_isI)
  next
    case Get_length
    with spec n show ?thesis by (auto simp: length_contents intro!: ring_isI)
  qed
qed


text \<open>
  C21: A new ring answers every sequence of commands of one thread like a bounded first-in
  first-out queue whose capacity is the requested size rounded up to a power of two: insertions
  fail exactly when it is full, and the 32 bit counters may wrap around any number of times.
\<close>

theorem ring_is_bounded_queue:
  assumes "0 < unat sz" and "unat sz \<le> 2 ^ 31"
  shows "\<exists>cap \<ge> unat sz. cap < 2 * unat sz \<and>
    (\<forall>cs rs q. run (queue_exec cap) cs [] = Some (rs, q) \<longrightarrow>
      (\<exists>rb. run ring_exec cs (ring_bounded_queue_spsc_init sz :: 'a::zero ring_bounded_queue_spsc)
        = Some (rs, rb) \<and> contents rb = q))"
proof -
  obtain n where n: "ring_is (2 ^ n) (ring_bounded_queue_spsc_init sz :: 'a ring_bounded_queue_spsc) []"
    "unat sz \<le> 2 ^ n" "2 ^ n < 2 * unat sz"
    using init_ok [OF assms, where 'a = 'a] ring_isI by metis
  show ?thesis
    by (intro exI [of _ "2 ^ n"]) (use n ring.run_refines [OF n(1)] in \<open>fastforce simp: ring_is_def\<close>)
qed

theorem ring_is_bounded_queue_witness:
  "\<exists>cap \<ge> 3. cap < 6 \<and>
    (\<forall>cs rs q. run (queue_exec cap) cs [] = Some (rs, q) \<longrightarrow>
      (\<exists>rb. run ring_exec cs (ring_bounded_queue_spsc_init 3 :: u64 ring_bounded_queue_spsc)
        = Some (rs, rb) \<and> contents rb = q))"
  using ring_is_bounded_queue [of 3, where 'a = u64] by simp

section \<open>One producer and one consumer\<close>

text \<open>
  The program counters of the two threads: the producer between the test for a full ring, the
  store of the item and the store of the tail; the consumer between the test for an empty ring,
  the load of the item and the store of the head. The two logs record what \<open>enqueue\<close> and
  \<open>dequeue\<close> have completed.
\<close>

datatype 'a producer_pc = Producer_idle | Producer_store 'a | Producer_publish 'a

datatype 'a consumer_pc = Consumer_idle | Consumer_load | Consumer_release 'a

record 'a spsc =
  ring :: "'a ring_bounded_queue_spsc"
  producer :: "'a producer_pc"
  consumer :: "'a consumer_pc"
  enqueued :: "'a list"
  dequeued :: "'a list"

inductive spsc_step :: "'a spsc \<Rightarrow> 'a spsc \<Rightarrow> bool" where
  step_enqueue: "producer s = Producer_idle \<Longrightarrow> \<not> ring_bounded_queue_spsc_is_full (ring s)
    \<Longrightarrow> spsc_step s (s\<lparr>producer := Producer_store v\<rparr>)"
| step_store: "producer s = Producer_store v
    \<Longrightarrow> spsc_step s (s\<lparr>ring := store_item v (ring s), producer := Producer_publish v\<rparr>)"
| step_publish: "producer s = Producer_publish v
    \<Longrightarrow> spsc_step s (s\<lparr>ring := advance_tail (ring s), producer := Producer_idle,
          enqueued := enqueued s @ [v]\<rparr>)"
| step_dequeue: "consumer s = Consumer_idle \<Longrightarrow> head (ring s) \<noteq> tail (ring s)
    \<Longrightarrow> spsc_step s (s\<lparr>consumer := Consumer_load\<rparr>)"
| step_load: "consumer s = Consumer_load
    \<Longrightarrow> spsc_step s (s\<lparr>consumer := Consumer_release (item_at (ring s) (head (ring s)))\<rparr>)"
| step_release: "consumer s = Consumer_release v
    \<Longrightarrow> spsc_step s (s\<lparr>ring := advance_head (ring s), consumer := Consumer_idle,
          dequeued := dequeued s @ [v]\<rparr>)"

definition spsc_init :: "nat \<Rightarrow> 'a spsc \<Rightarrow> bool" where
  "spsc_init cap s \<longleftrightarrow> ring_is cap (ring s) [] \<and> producer s = Producer_idle
     \<and> consumer s = Consumer_idle \<and> enqueued s = [] \<and> dequeued s = []"

definition has_space :: "nat \<Rightarrow> 'a spsc \<Rightarrow> bool" where
  "has_space n s \<longleftrightarrow> unat (tail (ring s) - head (ring s)) < 2 ^ n"

definition spsc_inv :: "nat \<Rightarrow> 'a spsc \<Rightarrow> bool" where
  "spsc_inv n s \<longleftrightarrow> ring_ok n (ring s) \<and> enqueued s = dequeued s @ contents (ring s)
     \<and> (producer s \<noteq> Producer_idle \<longrightarrow> has_space n s)
     \<and> (\<forall>v. producer s = Producer_publish v \<longrightarrow> item_at (ring s) (tail (ring s)) = v)
     \<and> (consumer s \<noteq> Consumer_idle \<longrightarrow> contents (ring s) \<noteq> [])
     \<and> (\<forall>v. consumer s = Consumer_release v \<longrightarrow> hd (contents (ring s)) = v)"

lemma contents_store:
  assumes "ring_ok n rb" and "unat (tail rb - head rb) < 2 ^ n"
  shows "contents (store_item v rb) = contents rb"
proof -
  have "head (store_item v rb) = head rb" "tail (store_item v rb) = tail rb"
    by (simp_all add: store_item_def)
  with store_frame [OF assms] show ?thesis by (simp add: contents_def)
qed

lemma ring_ok_store: "ring_ok n rb \<Longrightarrow> ring_ok n (store_item v rb)"
  by (simp add: ring_ok_def store_item_def)

lemma contents_publish:
  assumes "ring_ok n rb" and "unat (tail rb - head rb) < 2 ^ n"
  shows "ring_ok n (advance_tail rb)"
    and "contents (advance_tail rb) = contents rb @ [item_at rb (tail rb)]"
proof -
  have idem: "store_item (item_at rb (tail rb)) rb = rb"
    by (simp add: store_item_def item_at_def)
  have "\<not> ring_bounded_queue_spsc_is_full rb"
    using full_length [OF assms(1)] assms(2) by (simp add: contents_def)
  from contents_enqueued [OF assms(1) this, of "item_at rb (tail rb)"]
  show "ring_ok n (advance_tail rb)"
    "contents (advance_tail rb) = contents rb @ [item_at rb (tail rb)]"
    by (simp_all add: idem)
qed


lemma has_space_contents: "has_space n s \<longleftrightarrow> length (contents (ring s)) < 2 ^ n"
  by (simp add: has_space_def contents_def)

lemma spsc_inv_step:
  assumes "spsc_inv n s" and "spsc_step s t"
  shows "spsc_inv n t"
  using assms(2,1)
proof cases
  case (step_enqueue v)
  then show ?thesis
    using assms(1) full_length [of n "ring s"] ring_length_le [of n "ring s"]
    by (auto simp: spsc_inv_def has_space_contents)
next
  case (step_store v)
  then have ok: "ring_ok n (ring s)" and sp: "unat (tail (ring s) - head (ring s)) < 2 ^ n"
    using assms(1) by (auto simp: spsc_inv_def has_space_def)
  have "tail (store_item v (ring s)) = tail (ring s)" by (simp add: store_item_def)
  then show ?thesis
    using step_store assms(1) contents_store [OF ok sp, of v] ring_ok_store [OF ok, of v]
      store_last [OF ok, of v]
    by (auto simp: spsc_inv_def has_space_contents)
next
  case (step_publish v)
  then have ok: "ring_ok n (ring s)" and sp: "unat (tail (ring s) - head (ring s)) < 2 ^ n"
    using assms(1) by (auto simp: spsc_inv_def has_space_def)
  show ?thesis
    using step_publish assms(1) contents_publish [OF ok sp]
    by (auto simp: spsc_inv_def has_space_contents)
next
  case step_dequeue
  then show ?thesis
    using assms(1) contents_empty [of "ring s"] by (auto simp: spsc_inv_def has_space_contents)
next
  case step_load
  then have ok: "ring_ok n (ring s)" and ne: "head (ring s) \<noteq> tail (ring s)"
    using assms(1) contents_empty [of "ring s"] by (auto simp: spsc_inv_def)
  show ?thesis
    using step_load assms(1) contents_dequeued [OF ok ne]
    by (auto simp: spsc_inv_def has_space_contents)
next
  case (step_release v)
  then have ok: "ring_ok n (ring s)" and ne: "head (ring s) \<noteq> tail (ring s)"
    using assms(1) contents_empty [of "ring s"] by (auto simp: spsc_inv_def)
  have "tail (advance_head (ring s)) = tail (ring s)"
    "item_at (advance_head (ring s)) c = item_at (ring s) c" for c
    by (simp_all add: advance_head_def item_at_def)
  then show ?thesis
    using step_release assms(1) contents_dequeued [OF ok ne]
    by (auto simp: spsc_inv_def has_space_contents)
qed

lemma spsc_inv_init: "spsc_init (2 ^ n) s \<Longrightarrow> spsc_inv n s"
  by (auto simp: spsc_init_def spsc_inv_def ring_is_def)

interpretation spsc: inductive_invariant "spsc_init (2 ^ n)" spsc_step "spsc_inv n"
  by unfold_locales (auto intro: spsc_inv_init spsc_inv_step)

text \<open>
  C20: One producer thread and one consumer thread may run \<open>enqueue\<close> and \<open>dequeue\<close> at the same
  time: in every interleaving of their loads and stores, what has been dequeued together with
  what is in the ring is exactly what has been enqueued, in order. No item is lost, duplicated,
  overwritten before it is read or read before it is written, and the ring never holds more
  items than its capacity.
\<close>

theorem spsc_transfer:
  assumes "reachable (spsc_init cap) spsc_step s"
  shows "enqueued s = dequeued s @ contents (ring s) \<and> length (contents (ring s)) \<le> cap"
proof -
  obtain n where cap: "cap = 2 ^ n"
    using assms by induction (auto simp: spsc_init_def ring_is_def)
  from assms have "spsc_inv n s" unfolding cap by (rule spsc.inv_reachable)
  then show ?thesis by (auto simp: spsc_inv_def cap intro: ring_length_le)
qed


theorem spsc_transfer_witness:
  "\<exists>s :: u64 spsc. reachable (spsc_init 1) spsc_step s \<and> enqueued s = [5]
     \<and> dequeued s @ contents (ring s) = [5] \<and> length (contents (ring s)) \<le> 1"
proof -
  define s0 :: "u64 spsc" where "s0 = \<lparr>ring = ring_bounded_queue_spsc_init 1, producer = Producer_idle,
    consumer = Consumer_idle, enqueued = [], dequeued = []\<rparr>"
  have one: "ring_bounded_queue_spsc_init 1
    = \<lparr>rb_size = 1, rb_mask = 0, head = 0, tail = 0, items = [0 :: u64]\<rparr>"
    by (simp add: ring_bounded_queue_spsc_init_def pow2_next_def pow2_next_pow2m1_def Let_def)
  have "ring_is (2 ^ 0) (ring s0) []"
    by (rule ring_isI) (simp_all add: s0_def one ring_ok_def contents_def)
  then have "reachable (spsc_init 1) spsc_step s0"
    by (intro reachable_init) (simp add: spsc_init_def s0_def)
  moreover have "spsc_step s0 (s0\<lparr>producer := Producer_store 5\<rparr>)" (is "spsc_step _ ?s1")
    by (rule step_enqueue) (simp_all add: s0_def one ring_bounded_queue_spsc_is_full_def
        ring_bounded_queue_spsc_get_length_def)
  moreover have "spsc_step ?s1 (?s1\<lparr>ring := store_item 5 (ring ?s1), producer := Producer_publish 5\<rparr>)"
      (is "spsc_step _ ?s2")
    by (rule step_store) simp
  moreover have "spsc_step ?s2 (?s2\<lparr>ring := advance_tail (ring ?s2), producer := Producer_idle,
      enqueued := enqueued ?s2 @ [5]\<rparr>)" (is "spsc_step _ ?s3")
    by (rule step_publish) simp
  ultimately have r: "reachable (spsc_init 1) spsc_step ?s3" by (blast intro: reachable_step)
  have e: "enqueued ?s3 = [5]" by (simp add: s0_def)
  from spsc_transfer [OF r] e r show ?thesis by (metis (no_types, lifting))
qed

end
