(* ===== verification/Hash_Fnv1.thy ===== *)
theory Hash_Fnv1
  imports Prelude
begin

text \<open>
  The hash function of \<open>hash/hash_fnv1.h\<close>, in its case sensitive and its case insensitive form,
  with the conversion of C's signed \<open>char\<close> to 32 bits, and the comparison of strings without
  regard to case.
\<close>

definition FNV1_32_INIT :: u32 where "FNV1_32_INIT = 0x811c9dc5"

definition fnv_32_step :: "u32 \<Rightarrow> u8 \<Rightarrow> u32" where
  "fnv_32_step hval c =
     (hval + (push_bit 1 hval + push_bit 4 hval + push_bit 7 hval + push_bit 8 hval + push_bit 24 hval))
     XOR scast c"

fun fnv_32_hash_internal :: "bytes \<Rightarrow> u32 \<Rightarrow> u32" where
  "fnv_32_hash_internal [] hval = hval"
| "fnv_32_hash_internal (c # buf) hval = fnv_32_hash_internal buf (fnv_32_step hval c)"

text \<open>The letters A to Z in lower case, \<open>c | 32\<close>.\<close>

definition to_lower :: "u8 \<Rightarrow> u8" where
  "to_lower c = (if 65 \<le> c \<and> c \<le> 90 then c OR 32 else c)"

fun fnv_32_hash_ci_internal :: "bytes \<Rightarrow> u32 \<Rightarrow> u32" where
  "fnv_32_hash_ci_internal [] hval = hval"
| "fnv_32_hash_ci_internal (c # buf) hval = fnv_32_hash_ci_internal buf (fnv_32_step hval (to_lower c))"

definition fnv_32_hash :: "bytes \<Rightarrow> u32" where
  "fnv_32_hash buf = fnv_32_hash_internal buf FNV1_32_INIT"

definition fnv_32_hash_ci :: "bytes \<Rightarrow> u32" where
  "fnv_32_hash_ci buf = fnv_32_hash_ci_internal buf FNV1_32_INIT"

text \<open>\<open>strncasecmp(a, b, n) == 0\<close> with \<open>n\<close> the common length of the strings.\<close>

definition strncasecmp_eq :: "bytes \<Rightarrow> bytes \<Rightarrow> bool" where
  "strncasecmp_eq a b \<longleftrightarrow> strncmp_eq (map to_lower a) (map to_lower b)"

lemma fnv_32_hash_ci_internal_lower:
  "fnv_32_hash_ci_internal buf hval = fnv_32_hash_internal (map to_lower buf) hval"
  by (induction buf arbitrary: hval) simp_all

lemma fnv_32_hash_ci_lower: "fnv_32_hash_ci buf = fnv_32_hash (map to_lower buf)"
  by (simp add: fnv_32_hash_ci_def fnv_32_hash_def fnv_32_hash_ci_internal_lower)

lemma to_lower_zero [simp]: "to_lower c = 0 \<longleftrightarrow> c = 0"
proof -
  have "c OR 32 \<noteq> 0" using or_eq_0_iff [of c 32] by simp
  then show ?thesis by (auto simp: to_lower_def)
qed

lemma strncasecmp_eq_iff:
  "0 \<notin> set a \<Longrightarrow> length a = length b \<Longrightarrow> strncasecmp_eq a b \<longleftrightarrow> map to_lower a = map to_lower b"
  unfolding strncasecmp_eq_def by (rule strncmp_eq_iff) auto

end
