(* ===== verification/Hashtable_Spsc.thy ===== *)
theory Hashtable_Spsc
  imports Prelude Pow2 Hash_Fnv1 Kv_Store
begin

text \<open>
  The single threaded hash table of \<open>data_structures/hashtable/spsc\<close>: open addressing in a window
  of \<open>max_range\<close> buckets behind the home bucket of a key. The model is the table with its arrays
  as lists; a read outside of the array of hashes is a value of its own. Keys are byte strings
  or 32 bit numbers, so the key type is a parameter of the table. The length of a key is a number
  where the code has 16 bits: keys are shorter than \<open>2 ^ 16\<close> bytes. The functions for numbers
  assert that the table does not own its keys (\<open>free_keys_on_deallocation\<close>), which holds for the
  only table with such keys, the one of the counters; this assertion is left out.
\<close>

record ('k, 'v) hashtable_spsc_bucket =
  key_length :: nat
  key :: "'k option"
  "value" :: "'v option"

record hashtable_spsc_hash =
  is_set :: bool
  cmp_hash :: u32

record ('k, 'v) hashtable_spsc =
  buckets_count :: u32
  buckets_count_pow2 :: u32
  buckets_count_real :: u32
  max_range :: u16
  free_keys_on_deallocation :: bool
  hashes :: "hashtable_spsc_hash list"
  buckets :: "('k, 'v) hashtable_spsc_bucket list"

definition HASHTABLE_SPSC_HASH :: "u32 \<Rightarrow> u32" where
  "HASHTABLE_SPSC_HASH hash = hash AND 0x7FFFFFFF"

text \<open>A failed assertion is \<open>None\<close>; the memory of a new table is zeroed.\<close>

definition hashtable_spsc_new :: "u32 \<Rightarrow> u16 \<Rightarrow> bool \<Rightarrow> ('k, 'v) hashtable_spsc option" where
  "hashtable_spsc_new count window free_keys =
     (let pow2 = ucast (pow2_next (ucast count)); real = pow2 + ucast window in
      if count > 0 \<and> window > 0 \<and> count < 0xFFFFFFFF \<and> pow2 \<ge> count \<and> real \<ge> pow2
      then Some \<lparr>buckets_count = count, buckets_count_pow2 = pow2, buckets_count_real = real,
        max_range = window, free_keys_on_deallocation = free_keys,
        hashes = replicate (unat real) \<lparr>is_set = False, cmp_hash = 0\<rparr>,
        buckets = replicate (unat real) \<lparr>key_length = 0, key = None, value = None\<rparr>\<rparr>
      else None)"

definition hashtable_spsc_bucket_index_from_hash :: "('k, 'v) hashtable_spsc \<Rightarrow> u32 \<Rightarrow> nat" where
  "hashtable_spsc_bucket_index_from_hash ht hash = unat (hash AND (buckets_count_pow2 ht - 1))"

text \<open>
  The result of a search: an index, \<open>-1\<close>, or a read behind the array. Both searches test a
  bucket before they compare its index with the bound.
\<close>

datatype probe = Bucket nat | No_bucket | Out_of_bounds

function scan_buckets :: "(hashtable_spsc_hash \<Rightarrow> bool) \<Rightarrow> ('k, 'v) hashtable_spsc \<Rightarrow> nat \<Rightarrow> nat \<Rightarrow> probe" where
  "scan_buckets P ht bucket_index bucket_index_max =
     (if length (hashes ht) \<le> bucket_index then Out_of_bounds
      else if P (hashes ht ! bucket_index) then Bucket bucket_index
      else if Suc bucket_index < bucket_index_max
      then scan_buckets P ht (Suc bucket_index) bucket_index_max
      else No_bucket)"
  by pat_completeness auto
termination
  by (relation "measure (\<lambda>(P, ht, i, m). length (hashes ht) - i)") auto

definition hashtable_spsc_find_empty_bucket :: "('k, 'v) hashtable_spsc \<Rightarrow> nat \<Rightarrow> nat \<Rightarrow> probe" where
  "hashtable_spsc_find_empty_bucket = scan_buckets (\<lambda>h. \<not> is_set h)"

definition hashtable_spsc_find_set_bucket :: "('k, 'v) hashtable_spsc \<Rightarrow> nat \<Rightarrow> nat \<Rightarrow> probe" where
  "hashtable_spsc_find_set_bucket = scan_buckets is_set"

declare scan_buckets.simps [simp del]

lemma scan_buckets_Bucket:
  "scan_buckets P ht i m = Bucket j
    \<Longrightarrow> i \<le> j \<and> j < length (hashes ht) \<and> P (hashes ht ! j) \<and> (j = i \<or> j < m)
      \<and> (\<forall>x. i \<le> x \<and> x < j \<longrightarrow> \<not> P (hashes ht ! x))"
proof (induction P ht i m rule: scan_buckets.induct)
  case (1 P ht i m)
  show ?case
  proof (cases "P (hashes ht ! i) \<or> length (hashes ht) \<le> i")
    case True
    with "1.prems" show ?thesis
      by (subst (asm) scan_buckets.simps) (auto split: if_splits)
  next
    case False
    with "1.prems" have "Suc i < m" "scan_buckets P ht (Suc i) m = Bucket j"
      by (subst (asm) scan_buckets.simps; auto split: if_splits)+
    with "1.IH" False show ?thesis by (auto simp: Suc_le_eq dest!: le_imp_less_or_eq)
  qed
qed

lemma scan_buckets_No_bucket:
  "scan_buckets P ht i m = No_bucket
    \<Longrightarrow> \<not> P (hashes ht ! i) \<and> (\<forall>x. i \<le> x \<and> x < m \<longrightarrow> \<not> P (hashes ht ! x))"
proof (induction P ht i m rule: scan_buckets.induct)
  case (1 P ht i m)
  have i: "\<not> P (hashes ht ! i)" "i < length (hashes ht)"
    using "1.prems" by (subst (asm) scan_buckets.simps; auto split: if_splits)+
  show ?case
  proof (cases "Suc i < m")
    case True
    with i "1.prems" have "scan_buckets P ht (Suc i) m = No_bucket"
      by (subst (asm) scan_buckets.simps) (auto split: if_splits)
    with "1.IH" True i show ?thesis by (auto simp: Suc_le_eq dest!: le_imp_less_or_eq)
  next
    case False
    with i show ?thesis by (metis le_antisym less_Suc_eq_le not_less order_less_le_trans)
  qed
qed

lemma scan_buckets_in_bounds:
  "i < length (hashes ht) \<Longrightarrow> m \<le> length (hashes ht) \<Longrightarrow> scan_buckets P ht i m \<noteq> Out_of_bounds"
  by (induction P ht i m rule: scan_buckets.induct) (subst scan_buckets.simps, auto)


section \<open>Operations\<close>

text \<open>
  The three searches for a key share their loop and differ in the test of the bucket. A bucket
  that is set has a key.
\<close>

definition key_test :: "('k \<Rightarrow> 'k \<Rightarrow> bool) \<Rightarrow> 'k \<Rightarrow> nat \<Rightarrow> ('k, 'v) hashtable_spsc_bucket \<Rightarrow> bool" where
  "key_test key_eq k len b \<longleftrightarrow>
     key_length b = len \<and> (case key b of None \<Rightarrow> False | Some k' \<Rightarrow> key_eq k' k)"

definition uint32_test :: "u32 \<Rightarrow> (u32, 'v) hashtable_spsc_bucket \<Rightarrow> bool" where
  "uint32_test k b \<longleftrightarrow> key b = Some k"

function find_bucket_loop :: "(('k, 'v) hashtable_spsc_bucket \<Rightarrow> bool) \<Rightarrow> ('k, 'v) hashtable_spsc \<Rightarrow> u32
    \<Rightarrow> nat \<Rightarrow> nat \<Rightarrow> probe" where
  "find_bucket_loop test ht cmp bucket_index bucket_index_max =
     (case hashtable_spsc_find_set_bucket ht bucket_index bucket_index_max of
        Out_of_bounds \<Rightarrow> Out_of_bounds
      | No_bucket \<Rightarrow> No_bucket
      | Bucket i \<Rightarrow>
          if cmp_hash (hashes ht ! i) = cmp \<and> test (buckets ht ! i) then Bucket i
          else find_bucket_loop test ht cmp (Suc i) bucket_index_max)"
  by pat_completeness auto
termination
  by (relation "measure (\<lambda>(test, ht, cmp, i, m). length (hashes ht) - i)")
    (auto simp: hashtable_spsc_find_set_bucket_def dest: scan_buckets_Bucket)

declare find_bucket_loop.simps [simp del]

definition find_bucket_index :: "(('k, 'v) hashtable_spsc_bucket \<Rightarrow> bool) \<Rightarrow> ('k, 'v) hashtable_spsc
    \<Rightarrow> u32 \<Rightarrow> probe" where
  "find_bucket_index test ht hash =
     (let bucket_index = hashtable_spsc_bucket_index_from_hash ht hash
      in find_bucket_loop test ht (HASHTABLE_SPSC_HASH hash)
           bucket_index (bucket_index + unat (max_range ht)))"

definition hashtable_spsc_find_bucket_index_by_key_ci ::
  "(bytes, 'v) hashtable_spsc \<Rightarrow> u32 \<Rightarrow> bytes \<Rightarrow> nat \<Rightarrow> probe" where
  "hashtable_spsc_find_bucket_index_by_key_ci ht hash k len =
     find_bucket_index (key_test strncasecmp_eq k len) ht hash"

definition hashtable_spsc_find_bucket_index_by_key_cs ::
  "(bytes, 'v) hashtable_spsc \<Rightarrow> u32 \<Rightarrow> bytes \<Rightarrow> nat \<Rightarrow> probe" where
  "hashtable_spsc_find_bucket_index_by_key_cs ht hash k len =
     find_bucket_index (key_test strncmp_eq k len) ht hash"

definition hashtable_spsc_find_bucket_index_by_key_uint32 ::
  "(u32, 'v) hashtable_spsc \<Rightarrow> u32 \<Rightarrow> u32 \<Rightarrow> probe" where
  "hashtable_spsc_find_bucket_index_by_key_uint32 ht hash k = find_bucket_index (uint32_test k) ht hash"

text \<open>
  Lookup: \<open>NULL\<close> where there is no bucket. Every operation has the outcome \<open>None\<close> where it reads
  outside of the table.
\<close>

definition get_found :: "('k, 'v) hashtable_spsc \<Rightarrow> probe \<Rightarrow> 'v option option" where
  "get_found ht p =
     (case p of
        Out_of_bounds \<Rightarrow> None
      | No_bucket \<Rightarrow> Some None
      | Bucket i \<Rightarrow> Some (value (buckets ht ! i)))"

definition hashtable_spsc_op_get_ci :: "(bytes, 'v) hashtable_spsc \<Rightarrow> bytes \<Rightarrow> 'v option option" where
  "hashtable_spsc_op_get_ci ht k =
     get_found ht (hashtable_spsc_find_bucket_index_by_key_ci ht (fnv_32_hash_ci k) k (length k))"

definition hashtable_spsc_op_get_by_hash ::
  "(bytes, 'v) hashtable_spsc \<Rightarrow> u32 \<Rightarrow> bytes \<Rightarrow> 'v option option" where
  "hashtable_spsc_op_get_by_hash ht hash k =
     get_found ht (hashtable_spsc_find_bucket_index_by_key_cs ht hash k (length k))"

definition hashtable_spsc_op_get_cs :: "(bytes, 'v) hashtable_spsc \<Rightarrow> bytes \<Rightarrow> 'v option option" where
  "hashtable_spsc_op_get_cs ht k = hashtable_spsc_op_get_by_hash ht (fnv_32_hash k) k"

definition hashtable_spsc_op_get_by_hash_and_key_uint32 ::
  "(u32, 'v) hashtable_spsc \<Rightarrow> u32 \<Rightarrow> u32 \<Rightarrow> 'v option option" where
  "hashtable_spsc_op_get_by_hash_and_key_uint32 ht hash k =
     get_found ht (hashtable_spsc_find_bucket_index_by_key_uint32 ht hash k)"

definition mark_bucket :: "nat \<Rightarrow> u32 \<Rightarrow> ('k, 'v) hashtable_spsc \<Rightarrow> ('k, 'v) hashtable_spsc" where
  "mark_bucket i h ht = ht\<lparr>hashes := (hashes ht)[i := \<lparr>is_set = True, cmp_hash = h\<rparr>]\<rparr>"

definition store_bucket ::
  "nat \<Rightarrow> ('k, 'v) hashtable_spsc_bucket \<Rightarrow> ('k, 'v) hashtable_spsc \<Rightarrow> ('k, 'v) hashtable_spsc" where
  "store_bucket i b ht = ht\<lparr>buckets := (buckets ht)[i := b]\<rparr>"

text \<open>The four insertions share everything but the search for the key.\<close>

definition try_set :: "probe \<Rightarrow> u32 \<Rightarrow> 'k \<Rightarrow> nat \<Rightarrow> 'v option \<Rightarrow> ('k, 'v) hashtable_spsc
    \<Rightarrow> (bool \<times> ('k, 'v) hashtable_spsc) option" where
  "try_set found hash k len v ht =
     (let b = \<lparr>key_length = len, key = Some k, value = v\<rparr> in
      case found of
        Out_of_bounds \<Rightarrow> None
      | Bucket i \<Rightarrow> Some (True, store_bucket i b ht)
      | No_bucket \<Rightarrow>
          (let bucket_index = hashtable_spsc_bucket_index_from_hash ht hash
           in case hashtable_spsc_find_empty_bucket ht bucket_index (bucket_index + unat (max_range ht)) of
                Out_of_bounds \<Rightarrow> None
              | No_bucket \<Rightarrow> Some (False, ht)
              | Bucket i \<Rightarrow> Some (True, store_bucket i b (mark_bucket i (HASHTABLE_SPSC_HASH hash) ht))))"

definition hashtable_spsc_op_try_set_ci ::
  "bytes \<Rightarrow> 'v option \<Rightarrow> (bytes, 'v) hashtable_spsc \<Rightarrow> (bool \<times> (bytes, 'v) hashtable_spsc) option" where
  "hashtable_spsc_op_try_set_ci k v ht =
     (let hash = fnv_32_hash_ci k
      in try_set (hashtable_spsc_find_bucket_index_by_key_ci ht hash k (length k)) hash k (length k) v ht)"

definition hashtable_spsc_op_try_set_by_hash ::
  "u32 \<Rightarrow> bytes \<Rightarrow> 'v option \<Rightarrow> (bytes, 'v) hashtable_spsc \<Rightarrow> (bool \<times> (bytes, 'v) hashtable_spsc) option" where
  "hashtable_spsc_op_try_set_by_hash hash k v ht =
     try_set (hashtable_spsc_find_bucket_index_by_key_cs ht hash k (length k)) hash k (length k) v ht"

definition hashtable_spsc_op_try_set_cs ::
  "bytes \<Rightarrow> 'v option \<Rightarrow> (bytes, 'v) hashtable_spsc \<Rightarrow> (bool \<times> (bytes, 'v) hashtable_spsc) option" where
  "hashtable_spsc_op_try_set_cs k v ht = hashtable_spsc_op_try_set_by_hash (fnv_32_hash k) k v ht"

definition hashtable_spsc_op_try_set_by_hash_and_key_uint32 ::
  "u32 \<Rightarrow> u32 \<Rightarrow> 'v option \<Rightarrow> (u32, 'v) hashtable_spsc \<Rightarrow> (bool \<times> (u32, 'v) hashtable_spsc) option" where
  "hashtable_spsc_op_try_set_by_hash_and_key_uint32 hash k v ht =
     try_set (hashtable_spsc_find_bucket_index_by_key_uint32 ht hash k) hash k 0 v ht"

text \<open>Removal; the second part of the result is the list of the keys that are freed.\<close>

definition hashtable_spsc_op_delete_by_bucket_index ::
  "nat \<Rightarrow> ('k, 'v) hashtable_spsc \<Rightarrow> 'k list \<times> ('k, 'v) hashtable_spsc" where
  "hashtable_spsc_op_delete_by_bucket_index i ht =
     (if free_keys_on_deallocation ht then (case key (buckets ht ! i) of None \<Rightarrow> [] | Some k \<Rightarrow> [k]) else [],
      ht\<lparr>hashes := (hashes ht)[i := (hashes ht ! i)\<lparr>is_set := False\<rparr>]\<rparr>)"

definition delete_found :: "probe \<Rightarrow> ('k, 'v) hashtable_spsc
    \<Rightarrow> (bool \<times> 'k list \<times> ('k, 'v) hashtable_spsc) option" where
  "delete_found found ht =
     (case found of
        Out_of_bounds \<Rightarrow> None
      | No_bucket \<Rightarrow> Some (False, [], ht)
      | Bucket i \<Rightarrow> Some (True, hashtable_spsc_op_delete_by_bucket_index i ht))"

definition hashtable_spsc_op_delete_ci ::
  "bytes \<Rightarrow> (bytes, 'v) hashtable_spsc \<Rightarrow> (bool \<times> bytes list \<times> (bytes, 'v) hashtable_spsc) option" where
  "hashtable_spsc_op_delete_ci k ht =
     delete_found (hashtable_spsc_find_bucket_index_by_key_ci ht (fnv_32_hash_ci k) k (length k)) ht"

definition hashtable_spsc_op_delete_by_hash ::
  "u32 \<Rightarrow> bytes \<Rightarrow> (bytes, 'v) hashtable_spsc \<Rightarrow> (bool \<times> bytes list \<times> (bytes, 'v) hashtable_spsc) option" where
  "hashtable_spsc_op_delete_by_hash hash k ht =
     delete_found (hashtable_spsc_find_bucket_index_by_key_cs ht hash k (length k)) ht"

definition hashtable_spsc_op_delete_cs ::
  "bytes \<Rightarrow> (bytes, 'v) hashtable_spsc \<Rightarrow> (bool \<times> bytes list \<times> (bytes, 'v) hashtable_spsc) option" where
  "hashtable_spsc_op_delete_cs k ht = hashtable_spsc_op_delete_by_hash (fnv_32_hash k) k ht"

text \<open>One step of an iteration: the index it has reached and the value there.\<close>

definition hashtable_spsc_op_iter :: "('k, 'v) hashtable_spsc \<Rightarrow> nat \<Rightarrow> (nat \<times> 'v option) option option" where
  "hashtable_spsc_op_iter ht bucket_index =
     (case hashtable_spsc_find_set_bucket ht bucket_index (unat (buckets_count_real ht)) of
        Out_of_bounds \<Rightarrow> None
      | No_bucket \<Rightarrow> Some None
      | Bucket i \<Rightarrow> Some (Some (i, value (buckets ht ! i))))"

text \<open>The keys that are freed with the table.\<close>

definition hashtable_spsc_free :: "('k, 'v) hashtable_spsc \<Rightarrow> 'k list" where
  "hashtable_spsc_free ht =
     (if free_keys_on_deallocation ht
      then List.map_filter (\<lambda>i. if is_set (hashes ht ! i) then key (buckets ht ! i) else None)
        [0..<unat (buckets_count_real ht)]
      else [])"

text \<open>
  One bucket of the old table is copied to the new one: \<open>None\<close> is the fatal error of a full
  window.
\<close>

definition upsize_bucket :: "('k, 'v) hashtable_spsc \<Rightarrow> nat \<Rightarrow> ('k, 'v) hashtable_spsc
    \<Rightarrow> ('k, 'v) hashtable_spsc option" where
  "upsize_bucket current i upsized =
     (if \<not> is_set (hashes current ! i) then Some upsized
      else
        let hash = cmp_hash (hashes current ! i);
            bucket_index = hashtable_spsc_bucket_index_from_hash upsized hash
        in case hashtable_spsc_find_empty_bucket upsized bucket_index (bucket_index + unat (max_range upsized)) of
             Bucket j \<Rightarrow> Some (store_bucket j (buckets current ! i) (mark_bucket j hash upsized))
           | _ \<Rightarrow> None)"

fun upsize_buckets :: "('k, 'v) hashtable_spsc \<Rightarrow> nat list \<Rightarrow> ('k, 'v) hashtable_spsc
    \<Rightarrow> ('k, 'v) hashtable_spsc option" where
  "upsize_buckets current [] upsized = Some upsized"
| "upsize_buckets current (i # is) upsized =
     (case upsize_bucket current i upsized of None \<Rightarrow> None | Some u \<Rightarrow> upsize_buckets current is u)"

text \<open>The result is the new table and the keys freed with the old one.\<close>

definition hashtable_spsc_upsize :: "('k, 'v) hashtable_spsc
    \<Rightarrow> (('k, 'v) hashtable_spsc \<times> 'k list) option" where
  "hashtable_spsc_upsize current =
     (case hashtable_spsc_new (buckets_count current * 2) (max_range current)
        (free_keys_on_deallocation current) of
        None \<Rightarrow> None
      | Some upsized \<Rightarrow>
          (case upsize_buckets current [0..<unat (buckets_count_real current)] upsized of
             None \<Rightarrow> None
           | Some u \<Rightarrow> Some (u, hashtable_spsc_free (current\<lparr>free_keys_on_deallocation := False\<rparr>))))"


section \<open>Well-formed tables\<close>

lemma index_from_hash:
  assumes "buckets_count_pow2 ht = 2 ^ n" and "n < 32"
  shows "hashtable_spsc_bucket_index_from_hash ht h = unat h mod 2 ^ n"
  using assms by (simp add: hashtable_spsc_bucket_index_from_hash_def and_pow2_minus_1)

lemma index_from_cmp_hash:
  assumes "buckets_count_pow2 ht = 2 ^ n" and "n < 32"
  shows "hashtable_spsc_bucket_index_from_hash ht (HASHTABLE_SPSC_HASH h)
    = hashtable_spsc_bucket_index_from_hash ht h"
proof -
  have "unat (HASHTABLE_SPSC_HASH h) = unat h mod 2 ^ 31"
    using and_pow2_minus_1 [of 31 h] by (simp add: HASHTABLE_SPSC_HASH_def)
  moreover have "(2 :: nat) ^ n dvd 2 ^ 31"
    using assms(2) by (intro le_imp_power_dvd) simp
  ultimately show ?thesis
    by (simp add: index_from_hash [OF assms] mod_mod_cancel)
qed

definition shape_ok :: "nat \<Rightarrow> ('k, 'v) hashtable_spsc \<Rightarrow> bool" where
  "shape_ok n ht \<longleftrightarrow> n < 32 \<and> buckets_count_pow2 ht = 2 ^ n \<and> 0 < unat (max_range ht)
     \<and> unat (buckets_count_real ht) = 2 ^ n + unat (max_range ht)
     \<and> length (hashes ht) = unat (buckets_count_real ht)
     \<and> length (buckets ht) = unat (buckets_count_real ht)"

lemma new_shape:
  assumes "hashtable_spsc_new count window free_keys = Some ht"
  shows "\<exists>n. shape_ok n ht"
proof -
  let ?p = "ucast (pow2_next (ucast count)) :: u32"
  have c: "0 < unat count" "unat count \<le> unat ?p" "window > 0" "?p + ucast window \<ge> ?p"
    and ht: "buckets_count_pow2 ht = ?p" "max_range ht = window" "buckets_count_real ht = ?p + ucast window"
      "length (hashes ht) = unat (?p + ucast window)" "length (buckets ht) = unat (?p + ucast window)"
    using assms by (auto simp: hashtable_spsc_new_def Let_def word_le_nat_alt word_less_nat_alt split: if_splits)
  have lt: "unat count < 2 ^ 32" using unsigned_less [of count, where 'a = nat] by simp
  have u: "unat (ucast count :: u64) = unat count"
    by (rule unat_ucast_small) (use lt in simp)
  obtain n where n: "n < 32" "?p = 2 ^ n"
  proof (cases "unat count = 1")
    case True
    then have "count = 1" by (simp add: word_unat_eq_iff)
    then have "?p = 2 ^ 0" by (simp add: pow2_next_def pow2_next_pow2m1_def)
    with that [of 0] show ?thesis by simp
  next
    case False
    then obtain m where m: "m < 63" "pow2_next (ucast count) = 2 ^ Suc m" "2 ^ m < unat count"
      using pow2_next_exp [of "ucast count"] c(1) u lt by auto
    have "(2 :: nat) ^ m < 2 ^ 32" using m(3) lt by linarith
    then have "m < 32" by (rule power_less_imp_less_exp [rotated]) simp
    have "unat (2 ^ Suc m :: u64) = 2 ^ Suc m" by (rule unat_power2) (use m(1) in simp)
    then have p: "unat ?p = 2 ^ Suc m mod 2 ^ 32"
      unfolding m(2) unsigned_ucast_eq by (simp add: take_bit_eq_mod del: power_Suc)
    have "Suc m \<noteq> 32" using p c(1,2) by auto
    with \<open>m < 32\<close> have "Suc m < 32" by simp
    then have "(2 :: nat) ^ Suc m < 2 ^ 32" "unat (2 ^ Suc m :: u32) = 2 ^ Suc m"
      by (intro power_strict_increasing unat_power2; simp)+
    then have "?p = 2 ^ Suc m" using p by (simp only: word_unat_eq_iff mod_less)
    with that [of "Suc m"] \<open>Suc m < 32\<close> show ?thesis by simp
  qed
  have "unat (ucast window :: u32) = unat window"
    by (rule unat_ucast_small) (use unsigned_less [of window, where 'a = nat] in simp)
  then have "unat (?p + ucast window) = unat ?p + unat window"
    using c(4) by (metis no_olen_add_nat unat_add_lem)
  with n c(3) ht have "shape_ok n ht"
    by (auto simp: shape_ok_def unat_power2 word_less_nat_alt)
  then show ?thesis ..
qed

end
