(* ===== verification/Spsc_Table.thy ===== *)
theory Spsc_Table
  imports Hashtable_Spsc
begin

text \<open>
  Correctness of the single threaded hash table: its invariant, that no operation reads outside of
  its arrays, and that it is a map. What the searches rely on of keys (a hash that respects the
  equality of keys, and a test of buckets that decides it) is an interface with three
  interpretations: strings, strings without regard to case, and numbers.
\<close>

definition hit :: "(('k, 'v) hashtable_spsc_bucket \<Rightarrow> bool) \<Rightarrow> ('k, 'v) hashtable_spsc \<Rightarrow> u32 \<Rightarrow> nat \<Rightarrow> bool" where
  "hit test ht cmp i \<longleftrightarrow> is_set (hashes ht ! i) \<and> cmp_hash (hashes ht ! i) = cmp \<and> test (buckets ht ! i)"

lemma find_bucket_loop_spec:
  assumes "\<not> is_set (hashes ht ! (length (hashes ht) - 1))" and "m \<le> length (hashes ht)"
  shows "i < length (hashes ht) \<Longrightarrow>
    (case find_bucket_loop test ht cmp i m of
       Out_of_bounds \<Rightarrow> False
     | Bucket j \<Rightarrow> j < length (hashes ht) \<and> hit test ht cmp j
     | No_bucket \<Rightarrow> \<forall>x. i \<le> x \<and> x < m \<longrightarrow> \<not> hit test ht cmp x)"
  using assms
proof (induction test ht cmp i m rule: find_bucket_loop.induct)
  case (1 test ht cmp i m)
  show ?case
  proof (cases "scan_buckets is_set ht i m")
    case (Bucket j)
    note j = scan_buckets_Bucket [OF Bucket]
    have skip: "i \<le> x \<Longrightarrow> \<not> hit test ht cmp j \<Longrightarrow> hit test ht cmp x \<Longrightarrow> Suc j \<le> x" for x
      using j by (metis hit_def not_less_eq_eq le_neq_implies_less)
    have "j \<noteq> length (hashes ht) - 1" using j "1.prems" by auto
    then have "Suc j < length (hashes ht)" using j by linarith
    have eq: "find_bucket_loop test ht cmp i m
      = (if hit test ht cmp j then Bucket j else find_bucket_loop test ht cmp (Suc j) m)"
      using Bucket j by (subst find_bucket_loop.simps) (simp add: hit_def hashtable_spsc_find_set_bucket_def)
    show ?thesis
    proof (cases "hit test ht cmp j")
      case True
      with eq j show ?thesis by simp
    next
      case False
      then have "\<not> (cmp_hash (hashes ht ! j) = cmp \<and> test (buckets ht ! j))"
        using j by (simp add: hit_def)
      with Bucket have ih: "case find_bucket_loop test ht cmp (Suc j) m of
          Out_of_bounds \<Rightarrow> False
        | Bucket j \<Rightarrow> j < length (hashes ht) \<and> hit test ht cmp j
        | No_bucket \<Rightarrow> \<forall>x. Suc j \<le> x \<and> x < m \<longrightarrow> \<not> hit test ht cmp x"
        by (intro "1.IH") (use \<open>Suc j < length (hashes ht)\<close> "1.prems" in
            \<open>simp_all add: hashtable_spsc_find_set_bucket_def\<close>)
      have "find_bucket_loop test ht cmp i m = find_bucket_loop test ht cmp (Suc j) m"
        using eq False by simp
      with ih skip [OF _ False] show ?thesis
        by (cases "find_bucket_loop test ht cmp (Suc j) m") (simp_all, blast)
    qed
  next
    case No_bucket
    then show ?thesis
      by (subst find_bucket_loop.simps)
        (auto simp: hit_def hashtable_spsc_find_set_bucket_def dest: scan_buckets_No_bucket)
  next
    case Out_of_bounds
    with scan_buckets_in_bounds "1.prems" show ?thesis by blast
  qed
qed

section \<open>The invariant and the map of a table\<close>

definition entry :: "('k \<Rightarrow> 'c) \<Rightarrow> ('k, 'v) hashtable_spsc \<Rightarrow> nat \<Rightarrow> 'c \<Rightarrow> bool" where
  "entry norm ht i c \<longleftrightarrow> i < length (hashes ht) \<and> is_set (hashes ht ! i)
     \<and> map_option norm (key (buckets ht ! i)) = Some c"

definition in_window :: "('k, 'v) hashtable_spsc \<Rightarrow> u32 \<Rightarrow> nat \<Rightarrow> bool" where
  "in_window ht h i \<longleftrightarrow> hashtable_spsc_bucket_index_from_hash ht h \<le> i
     \<and> i < hashtable_spsc_bucket_index_from_hash ht h + unat (max_range ht)"

definition bucket_ok :: "('k \<Rightarrow> u32) \<Rightarrow> ('k \<Rightarrow> bool) \<Rightarrow> ('k \<Rightarrow> nat) \<Rightarrow> ('k, 'v) hashtable_spsc \<Rightarrow> nat \<Rightarrow> 'k \<Rightarrow> bool" where
  "bucket_ok hash valid len ht i k \<longleftrightarrow> valid k \<and> key (buckets ht ! i) = Some k
     \<and> key_length (buckets ht ! i) = len k
     \<and> cmp_hash (hashes ht ! i) = HASHTABLE_SPSC_HASH (hash k) \<and> in_window ht (hash k) i"

definition table_ok :: "('k \<Rightarrow> u32) \<Rightarrow> ('k \<Rightarrow> bool) \<Rightarrow> ('k \<Rightarrow> nat) \<Rightarrow> ('k \<Rightarrow> 'c) \<Rightarrow> ('k, 'v) hashtable_spsc \<Rightarrow> bool" where
  "table_ok hash valid len norm ht \<longleftrightarrow> (\<exists>n. shape_ok n ht)
     \<and> (\<forall>i < length (hashes ht). is_set (hashes ht ! i) \<longrightarrow> (\<exists>k. bucket_ok hash valid len ht i k))
     \<and> (\<forall>i j c. entry norm ht i c \<longrightarrow> entry norm ht j c \<longrightarrow> i = j)"

definition lookup :: "('k \<Rightarrow> 'c) \<Rightarrow> ('k, 'v) hashtable_spsc \<Rightarrow> 'c \<Rightarrow> 'v option option" where
  "lookup norm ht c = map_option (\<lambda>i. value (buckets ht ! i))
     (List.find (\<lambda>i. entry norm ht i c) [0..<length (hashes ht)])"

lemma lookup_None: "(\<And>i. \<not> entry norm ht i c) \<Longrightarrow> lookup norm ht c = None"
  by (simp add: lookup_def find_None_iff)

lemma lookup_entry:
  assumes "\<And>j. entry norm ht j c \<Longrightarrow> j = i" and "entry norm ht i c"
  shows "lookup norm ht c = Some (value (buckets ht ! i))"
proof (cases "List.find (\<lambda>i. entry norm ht i c) [0..<length (hashes ht)]")
  case None
  with assms(2) show ?thesis by (auto simp: find_None_iff entry_def)
next
  case (Some j)
  then have "entry norm ht j c" by (auto simp: find_Some_iff)
  with assms(1) have "j = i" by blast
  with Some show ?thesis by (simp add: lookup_def)
qed

lemma lookup_unchanged:
  assumes "\<And>i. entry norm ht' i c \<longleftrightarrow> entry norm ht i c"
    and "\<And>i. entry norm ht i c \<Longrightarrow> value (buckets ht' ! i) = value (buckets ht ! i)"
    and "length (hashes ht') = length (hashes ht)"
  shows "lookup norm ht' c = lookup norm ht c"
  unfolding lookup_def assms(1,3)
  by (rule option.map_cong) (auto simp: find_Some_iff assms(2))

text \<open>The window of a hash lies inside the arrays, in front of the last bucket.\<close>

lemma window_bound:
  assumes "shape_ok n ht"
  shows "hashtable_spsc_bucket_index_from_hash ht h + unat (max_range ht) < length (hashes ht)"
proof -
  have "hashtable_spsc_bucket_index_from_hash ht h < 2 ^ n"
    using assms by (simp add: shape_ok_def index_from_hash)
  with assms show ?thesis by (simp add: shape_ok_def)
qed

lemma last_unset:
  assumes "table_ok hash valid len norm ht"
  shows "\<not> is_set (hashes ht ! (length (hashes ht) - 1))"
proof
  assume set: "is_set (hashes ht ! (length (hashes ht) - 1))"
  obtain n where n: "shape_ok n ht" using assms by (auto simp: table_ok_def)
  then have "length (hashes ht) - 1 < length (hashes ht)" by (simp add: shape_ok_def)
  with set assms obtain k where "in_window ht (hash k) (length (hashes ht) - 1)"
    by (auto simp: table_ok_def bucket_ok_def)
  with window_bound [OF n, of "hash k"] show False
    unfolding in_window_def by linarith
qed


definition put_bucket :: "nat \<Rightarrow> u32 \<Rightarrow> ('k, 'v) hashtable_spsc_bucket \<Rightarrow> ('k, 'v) hashtable_spsc
    \<Rightarrow> ('k, 'v) hashtable_spsc" where
  "put_bucket i h b ht = store_bucket i b (mark_bucket i h ht)"

lemma put_bucket_sel [simp]:
  "length (hashes (put_bucket i h b ht)) = length (hashes ht)"
  "length (buckets (put_bucket i h b ht)) = length (buckets ht)"
  "i < length (hashes ht) \<Longrightarrow> hashes (put_bucket i h b ht) ! j
    = (if j = i then \<lparr>is_set = True, cmp_hash = h\<rparr> else hashes ht ! j)"
  "i < length (buckets ht) \<Longrightarrow> buckets (put_bucket i h b ht) ! j = (if j = i then b else buckets ht ! j)"
  "shape_ok n (put_bucket i h b ht) = shape_ok n ht"
  "in_window (put_bucket i h b ht) g j = in_window ht g j"
  by (auto simp: put_bucket_def store_bucket_def mark_bucket_def shape_ok_def in_window_def
      hashtable_spsc_bucket_index_from_hash_def)

lemma shape_lengths: "shape_ok n ht \<Longrightarrow> length (buckets ht) = length (hashes ht)"
  by (simp add: shape_ok_def)

lemma entry_put_bucket:
  assumes "shape_ok n ht" and "i < length (hashes ht)" and "key b = Some k"
  shows "entry norm (put_bucket i h b ht) j c \<longleftrightarrow> (if j = i then c = norm k else entry norm ht j c)"
  using assms shape_lengths [OF assms(1)] by (auto simp: entry_def)

section \<open>Keys\<close>

text \<open>
  What an insertion may do: store the value under the key, or refuse it because all buckets of
  the window are in use.
\<close>

definition set_result :: "('k \<Rightarrow> u32) \<Rightarrow> ('k \<Rightarrow> bool) \<Rightarrow> ('k \<Rightarrow> nat) \<Rightarrow> ('k \<Rightarrow> 'c) \<Rightarrow> ('k, 'v) hashtable_spsc
    \<Rightarrow> 'k \<Rightarrow> 'v option \<Rightarrow> (bool \<times> ('k, 'v) hashtable_spsc) option \<Rightarrow> bool" where
  "set_result hash valid len norm ht k v res \<longleftrightarrow>
     (\<exists>b ht'. res = Some (b, ht') \<and> table_ok hash valid len norm ht'
      \<and> (if b then lookup norm ht' = (lookup norm ht)(norm k \<mapsto> v)
         else ht' = ht \<and> (\<forall>i. in_window ht (hash k) i \<longrightarrow> is_set (hashes ht ! i))))"

locale probing =
  fixes hash :: "'k \<Rightarrow> u32"
    and valid :: "'k \<Rightarrow> bool"
    and len :: "'k \<Rightarrow> nat"
    and norm :: "'k \<Rightarrow> 'c"
    and test :: "'k \<Rightarrow> ('k, 'v) hashtable_spsc_bucket \<Rightarrow> bool"
  assumes hash_law: "norm k = norm k' \<Longrightarrow> hash k = hash k'"
    and test_law: "valid k \<Longrightarrow> valid k' \<Longrightarrow> key b = Some k' \<Longrightarrow> key_length b = len k'
      \<Longrightarrow> test k b \<longleftrightarrow> norm k' = norm k"
begin

lemma entry_bucket_ok:
  assumes "table_ok hash valid len norm ht" and "entry norm ht i c"
  obtains k where "bucket_ok hash valid len ht i k" and "norm k = c"
proof -
  obtain k where k: "bucket_ok hash valid len ht i k"
    using assms by (auto simp: table_ok_def entry_def)
  with assms(2) have "norm k = c" by (auto simp: bucket_ok_def entry_def)
  with k that show ?thesis by blast
qed

lemma hit_iff_entry:
  assumes "table_ok hash valid len norm ht" and "valid k" and "i < length (hashes ht)"
  shows "hit (test k) ht (HASHTABLE_SPSC_HASH (hash k)) i \<longleftrightarrow> entry norm ht i (norm k)"
proof (cases "is_set (hashes ht ! i)")
  case True
  with assms obtain k' where k': "bucket_ok hash valid len ht i k'"
    by (auto simp: table_ok_def)
  then have "test k (buckets ht ! i) \<longleftrightarrow> norm k' = norm k"
    using test_law [OF assms(2), of k' "buckets ht ! i"] by (auto simp: bucket_ok_def)
  with k' True assms(3) show ?thesis
    using hash_law [of k' k] by (auto simp: hit_def entry_def bucket_ok_def)
qed (simp add: hit_def entry_def)

lemma find_spec:
  assumes ok: "table_ok hash valid len norm ht" and k: "valid k"
  shows "case find_bucket_index (test k) ht (hash k) of
      Out_of_bounds \<Rightarrow> False
    | Bucket i \<Rightarrow> entry norm ht i (norm k)
    | No_bucket \<Rightarrow> \<forall>i. \<not> entry norm ht i (norm k)"
proof -
  obtain n where n: "shape_ok n ht" using ok by (auto simp: table_ok_def)
  let ?i = "hashtable_spsc_bucket_index_from_hash ht (hash k)"
  have bound: "?i + unat (max_range ht) < length (hashes ht)" by (rule window_bound [OF n])
  have win: "?i \<le> i \<and> i < ?i + unat (max_range ht)" if e: "entry norm ht i (norm k)" for i
  proof -
    obtain k' where "bucket_ok hash valid len ht i k'" "norm k' = norm k"
      using entry_bucket_ok [OF ok e] by blast
    with hash_law [of k' k] show ?thesis by (auto simp: bucket_ok_def in_window_def)
  qed
  let ?p = "find_bucket_loop (test k) ht (HASHTABLE_SPSC_HASH (hash k)) ?i (?i + unat (max_range ht))"
  have p: "find_bucket_index (test k) ht (hash k) = ?p"
    by (simp add: find_bucket_index_def Let_def)
  have spec: "case ?p of
      Out_of_bounds \<Rightarrow> False
    | Bucket j \<Rightarrow> j < length (hashes ht) \<and> hit (test k) ht (HASHTABLE_SPSC_HASH (hash k)) j
    | No_bucket \<Rightarrow> \<forall>x. ?i \<le> x \<and> x < ?i + unat (max_range ht)
        \<longrightarrow> \<not> hit (test k) ht (HASHTABLE_SPSC_HASH (hash k)) x"
    by (rule find_bucket_loop_spec [OF last_unset [OF ok]]) (use bound in linarith)+
  show ?thesis
  proof (cases ?p)
    case (Bucket j)
    with spec p hit_iff_entry [OF ok k, of j] show ?thesis by simp
  next
    case No_bucket
    have "\<not> entry norm ht i (norm k)" for i
    proof
      assume e: "entry norm ht i (norm k)"
      then have "i < length (hashes ht)" by (simp add: entry_def)
      with hit_iff_entry [OF ok k, of i] e win [OF e] spec No_bucket show False by simp
    qed
    with No_bucket p show ?thesis by simp
  next
    case Out_of_bounds
    with spec show ?thesis by simp
  qed
qed

lemma lookup_at:
  assumes "table_ok hash valid len norm ht" and "entry norm ht i c"
  shows "lookup norm ht c = Some (value (buckets ht ! i))"
  using assms by (intro lookup_entry) (auto simp: table_ok_def)

lemma get_correct:
  assumes "table_ok hash valid len norm ht" and "valid k"
  shows "get_found ht (find_bucket_index (test k) ht (hash k))
    = Some (case lookup norm ht (norm k) of None \<Rightarrow> None | Some v \<Rightarrow> v)"
  using find_spec [OF assms] lookup_at [OF assms(1)] lookup_None [of norm ht "norm k"]
  by (auto simp: get_found_def split: probe.splits)

lemma put_bucket_correct:
  assumes ok: "table_ok hash valid len norm ht" and k: "valid k"
    and b: "key b = Some k" "key_length b = len k"
    and i: "in_window ht (hash k) i"
    and other: "\<And>c. entry norm ht i c \<Longrightarrow> c = norm k" "\<And>j. entry norm ht j (norm k) \<Longrightarrow> j = i"
  defines "ht' \<equiv> put_bucket i (HASHTABLE_SPSC_HASH (hash k)) b ht"
  shows "table_ok hash valid len norm ht'" and "lookup norm ht' = (lookup norm ht)(norm k \<mapsto> value b)"
proof -
  obtain n where n: "shape_ok n ht" using ok by (auto simp: table_ok_def)
  have lt: "i < length (hashes ht)" "i < length (buckets ht)"
    using i window_bound [OF n, of "hash k"] shape_lengths [OF n] by (auto simp: in_window_def)
  note ent = entry_put_bucket [OF n lt(1) b(1), where norm = norm and h = "HASHTABLE_SPSC_HASH (hash k)"]
  have "\<exists>k. bucket_ok hash valid len ht' j k" if "j < length (hashes ht')" "is_set (hashes ht' ! j)" for j
    using that ok k b i lt by (auto simp: table_ok_def bucket_ok_def ht'_def split: if_splits)
  moreover have "j = j'" if "entry norm ht' j c" "entry norm ht' j' c" for j j' c
    using that other(2) ok by (auto simp: ent ht'_def table_ok_def split: if_splits)
  ultimately show ok': "table_ok hash valid len norm ht'"
    using n unfolding table_ok_def ht'_def by auto
  show "lookup norm ht' = (lookup norm ht)(norm k \<mapsto> value b)"
  proof
    fix c
    show "lookup norm ht' c = ((lookup norm ht)(norm k \<mapsto> value b)) c"
    proof (cases "c = norm k")
      case True
      then have "entry norm ht' i c" by (simp add: ent ht'_def)
      from lookup_at [OF ok' this] True lt show ?thesis by (simp add: ht'_def)
    next
      case False
      have "lookup norm ht' c = lookup norm ht c"
        by (rule lookup_unchanged) (use False other(1) lt in \<open>auto simp: ent ht'_def\<close>)
      with False show ?thesis by simp
    qed
  qed
qed

lemma set_existing:
  assumes ok: "table_ok hash valid len norm ht" and k: "valid k" and e: "entry norm ht i (norm k)"
  shows "set_result hash valid len norm ht k v (try_set (Bucket i) (hash k) k (len k) v ht)"
proof -
  define b where "b = \<lparr>key_length = len k, key = Some k, value = v\<rparr>"
  define h where "h = HASHTABLE_SPSC_HASH (hash k)"
  obtain k' where k': "bucket_ok hash valid len ht i k'" "norm k' = norm k"
    using entry_bucket_ok [OF ok e] by blast
  have same: "hashes ht ! i = \<lparr>is_set = True, cmp_hash = h\<rparr>"
    using k' e hash_law [OF k'(2)] by (cases "hashes ht ! i") (auto simp: bucket_ok_def entry_def h_def)
  have "(hashes ht)[i := \<lparr>is_set = True, cmp_hash = h\<rparr>] = hashes ht"
    unfolding same [symmetric] by simp
  then have eq: "put_bucket i h b ht = store_bucket i b ht"
    by (simp add: put_bucket_def mark_bucket_def)
  have w: "in_window ht (hash k) i"
    using k' hash_law [OF k'(2)] by (simp add: bucket_ok_def)
  have c: "c = norm k" if "entry norm ht i c" for c using that e by (auto simp: entry_def)
  have u: "j = i" if "entry norm ht j (norm k)" for j using that e ok by (auto simp: table_ok_def)
  have "table_ok hash valid len norm (put_bucket i h b ht)"
    "lookup norm (put_bucket i h b ht) = (lookup norm ht)(norm k \<mapsto> v)"
    using put_bucket_correct [OF ok k _ _ w c u, of b] by (simp_all add: b_def h_def)
  then show ?thesis unfolding eq set_result_def by (auto simp: try_set_def b_def)
qed

lemma set_new:
  assumes ok: "table_ok hash valid len norm ht" and k: "valid k" and none: "\<And>j. \<not> entry norm ht j (norm k)"
  shows "set_result hash valid len norm ht k v (try_set No_bucket (hash k) k (len k) v ht)"
proof -
  obtain n where n: "shape_ok n ht" using ok by (auto simp: table_ok_def)
  let ?i = "hashtable_spsc_bucket_index_from_hash ht (hash k)"
  let ?scan = "scan_buckets (\<lambda>h. \<not> is_set h) ht ?i (?i + unat (max_range ht))"
  have scan: "hashtable_spsc_find_empty_bucket ht ?i (?i + unat (max_range ht)) = ?scan"
    by (simp add: hashtable_spsc_find_empty_bucket_def)
  show ?thesis
  proof (cases ?scan)
    case (Bucket i)
    note i = scan_buckets_Bucket [OF Bucket]
    define b where "b = \<lparr>key_length = len k, key = Some k, value = v\<rparr>"
    define h where "h = HASHTABLE_SPSC_HASH (hash k)"
    have w: "in_window ht (hash k) i" using i n by (auto simp: in_window_def shape_ok_def)
    have c: "c = norm k" if "entry norm ht i c" for c using that i by (simp add: entry_def)
    have u: "j = i" if "entry norm ht j (norm k)" for j using that none by simp
    have "table_ok hash valid len norm (put_bucket i h b ht)"
      "lookup norm (put_bucket i h b ht) = (lookup norm ht)(norm k \<mapsto> v)"
      using put_bucket_correct [OF ok k _ _ w c u, of b] by (simp_all add: b_def h_def)
    moreover have "try_set No_bucket (hash k) k (len k) v ht = Some (True, put_bucket i h b ht)"
      using Bucket by (simp add: try_set_def Let_def scan b_def h_def put_bucket_def)
    ultimately show ?thesis by (auto simp: set_result_def)
  next
    case No_bucket
    have "\<forall>i. in_window ht (hash k) i \<longrightarrow> is_set (hashes ht ! i)"
      using scan_buckets_No_bucket [OF No_bucket] by (simp add: in_window_def)
    moreover have "try_set No_bucket (hash k) k (len k) v ht = Some (False, ht)"
      using No_bucket by (simp add: try_set_def Let_def scan)
    ultimately show ?thesis using ok by (auto simp: set_result_def)
  next
    case Out_of_bounds
    have "?scan \<noteq> Out_of_bounds"
      by (rule scan_buckets_in_bounds) (use window_bound [OF n, of "hash k"] in linarith)+
    with Out_of_bounds show ?thesis by simp
  qed
qed

lemma set_correct:
  assumes ok: "table_ok hash valid len norm ht" and k: "valid k"
  shows "set_result hash valid len norm ht k v (try_set (find_bucket_index (test k) ht (hash k)) (hash k) k (len k) v ht)"
  using find_spec [OF ok k] set_existing [OF ok k] set_new [OF ok k]
  by (cases "find_bucket_index (test k) ht (hash k)") simp_all

lemma delete_correct:
  assumes ok: "table_ok hash valid len norm ht" and k: "valid k"
  shows "\<exists>b fs ht'. delete_found (find_bucket_index (test k) ht (hash k)) ht = Some (b, fs, ht')
    \<and> table_ok hash valid len norm ht' \<and> b = (lookup norm ht (norm k) \<noteq> None)
    \<and> lookup norm ht' = (lookup norm ht)(norm k := None)"
proof (cases "find_bucket_index (test k) ht (hash k)")
  case (Bucket i)
  with find_spec [OF assms] have e: "entry norm ht i (norm k)" by simp
  define ht' where "ht' = snd (hashtable_spsc_op_delete_by_bucket_index i ht)"
  have h: "j < length (hashes ht) \<Longrightarrow> is_set (hashes ht' ! j) \<longleftrightarrow> j \<noteq> i \<and> is_set (hashes ht ! j)"
      "cmp_hash (hashes ht' ! j) = cmp_hash (hashes ht ! j)" for j
    using e by (auto simp: ht'_def hashtable_spsc_op_delete_by_bucket_index_def nth_list_update_if entry_def)
  have l: "length (hashes ht') = length (hashes ht)" "buckets ht' = buckets ht"
      "shape_ok n ht' = shape_ok n ht" "in_window ht' g j = in_window ht g j" for n g j
    by (simp_all add: ht'_def hashtable_spsc_op_delete_by_bucket_index_def shape_ok_def in_window_def
        hashtable_spsc_bucket_index_from_hash_def)
  have ent: "entry norm ht' j c \<longleftrightarrow> j \<noteq> i \<and> entry norm ht j c" for j c
    using h l by (auto simp: entry_def)
  have "bucket_ok hash valid len ht' j = bucket_ok hash valid len ht j" for j
    by (rule ext) (simp add: bucket_ok_def h l)
  then have ok': "table_ok hash valid len norm ht'"
    using ok unfolding table_ok_def ent by (auto simp: h l)
  have "lookup norm ht' c = ((lookup norm ht)(norm k := None)) c" for c
  proof (cases "c = norm k")
    case True
    have "\<not> entry norm ht' j c" for j
      using e ok True unfolding ent by (auto simp: table_ok_def)
    with True show ?thesis by (simp add: lookup_None)
  next
    case False
    then have "\<not> entry norm ht i c" using e by (auto simp: entry_def)
    then have "lookup norm ht' c = lookup norm ht c"
      by (intro lookup_unchanged) (auto simp: ent l)
    with False show ?thesis by simp
  qed
  then have "lookup norm ht' = (lookup norm ht)(norm k := None)" by blast
  moreover have "delete_found (Bucket i) ht = Some (True, fst (hashtable_spsc_op_delete_by_bucket_index i ht), ht')"
    by (simp add: delete_found_def ht'_def)
  ultimately show ?thesis
    unfolding Bucket using ok' lookup_at [OF ok e] by auto
next
  case No_bucket
  with find_spec [OF assms] have "lookup norm ht (norm k) = None" by (simp add: lookup_None)
  with No_bucket ok show ?thesis by (auto simp: delete_found_def fun_upd_idem)
next
  case Out_of_bounds
  with find_spec [OF assms] show ?thesis by simp
qed

lemma new_correct:
  assumes "hashtable_spsc_new count window free_keys = Some ht"
  shows "table_ok hash valid len norm ht" and "lookup norm ht = Map.empty"
proof -
  have u: "\<not> is_set (hashes ht ! i)" if "i < length (hashes ht)" for i
    using assms that by (auto simp: hashtable_spsc_new_def Let_def split: if_splits)
  have ent: "\<not> entry norm ht i c" for i c using u by (auto simp: entry_def)
  then show "lookup norm ht = Map.empty" by (intro ext) (simp add: lookup_None)
  show "table_ok hash valid len norm ht"
    using new_shape [OF assms] u ent by (auto simp: table_ok_def)
qed

text \<open>Growing: one bucket of the old table at a time.\<close>

lemma upsize_bucket_correct:
  assumes cur: "table_ok hash valid len norm current" and ok: "table_ok hash valid len norm u"
    and i: "i < length (hashes current)"
    and fresh: "\<And>c. entry norm current i c \<Longrightarrow> lookup norm u c = None"
    and up: "upsize_bucket current i u = Some u'"
  shows "table_ok hash valid len norm u'
    \<and> lookup norm u' = (\<lambda>c. if entry norm current i c then lookup norm current c else lookup norm u c)"
proof (cases "is_set (hashes current ! i)")
  case False
  with up ok show ?thesis by (auto simp: upsize_bucket_def entry_def)
next
  case True
  then obtain k where k: "bucket_ok hash valid len current i k" using cur i by (auto simp: table_ok_def)
  then have e: "entry norm current i c \<longleftrightarrow> c = norm k" for c
    using True i by (auto simp: entry_def bucket_ok_def)
  obtain n where n: "shape_ok n u" using ok by (auto simp: table_ok_def)
  let ?h = "HASHTABLE_SPSC_HASH (hash k)"
  have home: "hashtable_spsc_bucket_index_from_hash u ?h = hashtable_spsc_bucket_index_from_hash u (hash k)"
    using n by (intro index_from_cmp_hash) (auto simp: shape_ok_def)
  have cmp: "cmp_hash (hashes current ! i) = ?h" using k by (simp add: bucket_ok_def)
  obtain j where j: "hashtable_spsc_find_empty_bucket u (hashtable_spsc_bucket_index_from_hash u (hash k))
      (hashtable_spsc_bucket_index_from_hash u (hash k) + unat (max_range u)) = Bucket j"
    and u': "u' = put_bucket j ?h (buckets current ! i) u"
    using up True cmp home by (auto simp: upsize_bucket_def Let_def put_bucket_def split: probe.splits)
  note scan = scan_buckets_Bucket [OF j [unfolded hashtable_spsc_find_empty_bucket_def]]
  have w: "in_window u (hash k) j" using scan n by (auto simp: in_window_def shape_ok_def)
  have c: "c = norm k" if "entry norm u j c" for c using that scan by (simp add: entry_def)
  have un: "x = j" if "entry norm u x (norm k)" for x
    using that fresh [of "norm k"] lookup_at [OF ok that] e by simp
  have b: "valid k" "key (buckets current ! i) = Some k" "key_length (buckets current ! i) = len k"
    using k by (auto simp: bucket_ok_def)
  have "lookup norm current (norm k) = Some (value (buckets current ! i))"
    by (rule lookup_at [OF cur]) (simp add: e)
  with put_bucket_correct [OF ok b w c un] show ?thesis
    unfolding u' e by auto
qed

lemma upsize_buckets_correct:
  assumes cur: "table_ok hash valid len norm current"
  shows "table_ok hash valid len norm u \<Longrightarrow> distinct is \<Longrightarrow> \<forall>i\<in>set is. i < length (hashes current)
    \<Longrightarrow> (\<And>i c. i \<in> set is \<Longrightarrow> entry norm current i c \<Longrightarrow> lookup norm u c = None)
    \<Longrightarrow> upsize_buckets current is u = Some u'
    \<Longrightarrow> table_ok hash valid len norm u' \<and> lookup norm u'
      = (\<lambda>c. if \<exists>i\<in>set is. entry norm current i c then lookup norm current c else lookup norm u c)"
proof (induction "is" arbitrary: u)
  case Nil
  then show ?case by simp
next
  case (Cons i "is")
  obtain u1 where u1: "upsize_bucket current i u = Some u1" and rest: "upsize_buckets current is u1 = Some u'"
    using Cons.prems(5) by (auto split: option.splits)
  have 1: "table_ok hash valid len norm u1"
    "lookup norm u1 = (\<lambda>c. if entry norm current i c then lookup norm current c else lookup norm u c)"
    using upsize_bucket_correct [OF cur Cons.prems(1) _ _ u1] Cons.prems(3,4) by auto
  have "lookup norm u1 c = None" if "j \<in> set is" "entry norm current j c" for j c
  proof -
    have "\<not> entry norm current i c" using that Cons.prems(2) cur by (auto simp: table_ok_def)
    with that Cons.prems(4) [of j c] show ?thesis by (simp add: 1)
  qed
  then have "table_ok hash valid len norm u' \<and> lookup norm u'
      = (\<lambda>c. if \<exists>i\<in>set is. entry norm current i c then lookup norm current c else lookup norm u1 c)"
    using Cons.IH [OF 1(1) _ _ _ rest] Cons.prems(2,3) by auto
  then show ?case by (auto simp: 1(2) fun_eq_iff)
qed

lemma upsize_correct:
  assumes cur: "table_ok hash valid len norm ht" and up: "hashtable_spsc_upsize ht = Some (ht', fs)"
  shows "table_ok hash valid len norm ht' \<and> lookup norm ht' = lookup norm ht \<and> fs = []"
proof -
  obtain u where u: "hashtable_spsc_new (buckets_count ht * 2) (max_range ht) (free_keys_on_deallocation ht)
      = Some u" and rest: "upsize_buckets ht [0..<unat (buckets_count_real ht)] u = Some ht'"
    and fs: "fs = hashtable_spsc_free (ht\<lparr>free_keys_on_deallocation := False\<rparr>)"
    using up by (auto simp: hashtable_spsc_upsize_def split: option.splits)
  have len: "length (hashes ht) = unat (buckets_count_real ht)"
    using cur by (auto simp: table_ok_def shape_ok_def)
  have new: "table_ok hash valid len norm u" "lookup norm u = Map.empty"
    using new_correct [OF u] by auto
  have "table_ok hash valid len norm ht' \<and> lookup norm ht'
      = (\<lambda>c. if \<exists>i\<in>set [0..<unat (buckets_count_real ht)]. entry norm ht i c
            then lookup norm ht c else lookup norm u c)"
    by (rule upsize_buckets_correct [OF cur new(1) _ _ _ rest]) (simp_all add: len new)
  moreover have "lookup norm ht c = None"
    if "\<not> (\<exists>i\<in>set [0..<unat (buckets_count_real ht)]. entry norm ht i c)" for c
    using that by (intro lookup_None) (auto simp: entry_def len)
  ultimately show ?thesis
    by (auto simp: new fun_eq_iff fs hashtable_spsc_free_def)
qed

end


section \<open>The three kinds of keys\<close>

definition plain :: "bytes \<Rightarrow> bool" where
  "plain k \<longleftrightarrow> 0 \<notin> set k"

definition string_test :: "bytes \<Rightarrow> (bytes, 'v) hashtable_spsc_bucket \<Rightarrow> bool" where
  "string_test k = key_test strncmp_eq k (length k)"

definition case_test :: "bytes \<Rightarrow> (bytes, 'v) hashtable_spsc_bucket \<Rightarrow> bool" where
  "case_test k = key_test strncasecmp_eq k (length k)"

interpretation strings: probing hf plain length id string_test
proof
  fix k k' :: bytes and b :: "(bytes, 'v) hashtable_spsc_bucket"
  assume "plain k" "plain k'" "key b = Some k'" "key_length b = length k'"
  then show "string_test k b = (id k' = id k)"
    using strncmp_eq_iff [of k' k] by (auto simp: string_test_def key_test_def plain_def)
qed simp

interpretation words: probing fnv_32_hash_ci plain length "map to_lower" case_test
proof
  fix k k' :: bytes
  show "map to_lower k = map to_lower k' \<Longrightarrow> fnv_32_hash_ci k = fnv_32_hash_ci k'"
    by (simp add: fnv_32_hash_ci_lower)
next
  fix k k' :: bytes and b :: "(bytes, 'v) hashtable_spsc_bucket"
  assume a: "plain k" "plain k'" "key b = Some k'" "key_length b = length k'"
  show "case_test k b = (map to_lower k' = map to_lower k)"
    using a strncasecmp_eq_iff [of k' k] map_eq_imp_length_eq [of to_lower k' to_lower k]
    by (auto simp: case_test_def key_test_def plain_def)
qed

interpretation numbers: probing hf "\<lambda>_. True" "\<lambda>_. 0" id uint32_test
  by unfold_locales (auto simp: uint32_test_def)

lemmas string_ops = hashtable_spsc_op_get_by_hash_def hashtable_spsc_op_try_set_by_hash_def
  hashtable_spsc_op_delete_by_hash_def hashtable_spsc_find_bucket_index_by_key_cs_def string_test_def [symmetric]

lemmas word_ops = hashtable_spsc_op_get_ci_def hashtable_spsc_op_try_set_ci_def
  hashtable_spsc_op_delete_ci_def hashtable_spsc_find_bucket_index_by_key_ci_def case_test_def [symmetric]
  Let_def

section \<open>The table as a key-value store\<close>

text \<open>
  The operations on strings as a client sees them that only stores values other than \<open>NULL\<close>.
\<close>

definition spsc_get :: "bytes \<Rightarrow> (bytes, 'v) hashtable_spsc \<Rightarrow> 'v option \<times> (bytes, 'v) hashtable_spsc" where
  "spsc_get k ht = (the (hashtable_spsc_op_get_cs ht k), ht)"

definition spsc_put :: "bytes \<Rightarrow> 'v \<Rightarrow> (bytes, 'v) hashtable_spsc \<Rightarrow> bool \<times> (bytes, 'v) hashtable_spsc" where
  "spsc_put k v ht = the (hashtable_spsc_op_try_set_cs k (Some v) ht)"

definition spsc_del :: "bytes \<Rightarrow> (bytes, 'v) hashtable_spsc \<Rightarrow> bool \<times> (bytes, 'v) hashtable_spsc" where
  "spsc_del k ht = (case the (hashtable_spsc_op_delete_cs k ht) of (b, fs, ht') \<Rightarrow> (b, ht'))"

definition spsc_view :: "(bytes, 'v) hashtable_spsc \<Rightarrow> bytes \<Rightarrow> 'v option" where
  "spsc_view ht k = (case lookup id ht k of None \<Rightarrow> None | Some v \<Rightarrow> v)"

definition spsc_ok :: "(bytes, 'v) hashtable_spsc \<Rightarrow> bool" where
  "spsc_ok ht \<longleftrightarrow> table_ok fnv_32_hash plain length id ht \<and> (\<forall>k. lookup id ht k \<noteq> Some None)"

interpretation spsc_store: kv_store spsc_ok spsc_view plain spsc_get spsc_put spsc_del
proof
  fix s s' :: "(bytes, 'v) hashtable_spsc" and k r
  assume "spsc_ok s" "plain k" "spsc_get k s = (r, s')"
  then show "spsc_ok s' \<and> spsc_view s' = spsc_view s \<and> r = spsc_view s k"
    using strings.get_correct [of fnv_32_hash s k]
    by (auto simp: spsc_ok_def spsc_get_def spsc_view_def hashtable_spsc_op_get_cs_def string_ops)
next
  fix s s' :: "(bytes, 'v) hashtable_spsc" and k v ok
  assume a: "spsc_ok s" "plain k" "spsc_put k v s = (ok, s')"
  then have "set_result fnv_32_hash plain length id s k (Some v) (Some (ok, s'))"
    using strings.set_correct [of fnv_32_hash s k "Some v"]
    by (auto simp: spsc_ok_def spsc_put_def hashtable_spsc_op_try_set_cs_def string_ops set_result_def)
  then have ok: "table_ok fnv_32_hash plain length id s'"
    and view: "if ok then lookup id s' = (lookup id s)(k \<mapsto> Some v) else s' = s"
    by (simp_all add: set_result_def)
  show "spsc_ok s' \<and> spsc_view s' = (if ok then (spsc_view s)(k \<mapsto> v) else spsc_view s)"
  proof (cases ok)
    case True
    with ok view a(1) show ?thesis by (simp add: spsc_ok_def spsc_view_def fun_eq_iff)
  next
    case False
    with view a(1) show ?thesis by simp
  qed
next
  fix s s' :: "(bytes, 'v) hashtable_spsc" and k ok
  assume a: "spsc_ok s" "plain k" "spsc_del k s = (ok, s')"
  then have "table_ok fnv_32_hash plain length id s" by (simp add: spsc_ok_def)
  from strings.delete_correct [OF this a(2)] obtain b fs ht1 where
    d: "delete_found (find_bucket_index (string_test k) s (fnv_32_hash k)) s = Some (b, fs, ht1)"
    and t: "table_ok fnv_32_hash plain length id ht1" and b: "b = (lookup id s k \<noteq> None)"
    and l: "lookup id ht1 = (lookup id s)(k := None)"
    unfolding id_apply by blast
  have "ok = b" "s' = ht1"
    using a(3) d by (simp_all add: spsc_del_def hashtable_spsc_op_delete_cs_def string_ops)
  moreover have "lookup id s k \<noteq> Some None" using a(1) by (simp add: spsc_ok_def)
  then have "spsc_view s k \<noteq> None \<longleftrightarrow> lookup id s k \<noteq> None"
    by (auto simp: spsc_view_def split: option.split)
  ultimately show "spsc_ok s' \<and> ok = (spsc_view s k \<noteq> None) \<and> spsc_view s' = (spsc_view s)(k := None)"
    using a(1) t b by (simp add: spsc_ok_def l) (simp add: spsc_view_def l fun_eq_iff)
qed

text \<open>
  C22: A new single threaded hash table that is used through the case sensitive operations with
  keys without NUL bytes replies like a map that starts empty: every sequence of lookups,
  insertions and removals is a history of that map, where only an insertion may fail, and the
  table ends with the contents of the map.
\<close>

theorem spsc_commands_are_map_history:
  assumes "hashtable_spsc_new count window free_keys = Some ht"
    and "\<forall>c\<in>set cs. plain (cmd_key c)"
    and "exec_cmds spsc_get spsc_put spsc_del cs ht = (h, ht')"
  shows "map fst h = cs \<and> map_history Map.empty h (spsc_view ht')"
proof -
  have "lookup id ht = Map.empty" "table_ok fnv_32_hash plain length id ht"
    using strings.new_correct [OF assms(1)] by auto
  then have "spsc_ok ht" "spsc_view ht = Map.empty"
    by (auto simp: spsc_ok_def spsc_view_def)
  with spsc_store.exec_all_history [OF _ assms(2,3)] show ?thesis by simp
qed

lemma replicate_small: "replicate 2 x = [x, x]" "replicate 3 x = [x, x, x]"
  by (simp_all add: numeral_2_eq_2 numeral_3_eq_3)

lemma one_less_max: "(1 :: u32) < 4294967295"
  by (simp add: word_less_nat_alt)

lemma new_small: "hashtable_spsc_new 1 1 free_keys = Some \<lparr>buckets_count = 1, buckets_count_pow2 = 1,
    buckets_count_real = 2, max_range = 1, free_keys_on_deallocation = free_keys,
    hashes = [\<lparr>is_set = False, cmp_hash = 0\<rparr>, \<lparr>is_set = False, cmp_hash = 0\<rparr>],
    buckets = [\<lparr>key_length = 0, key = None, value = None\<rparr>, \<lparr>key_length = 0, key = None, value = None\<rparr>]\<rparr>"
  by (simp add: hashtable_spsc_new_def pow2_next_def pow2_next_pow2m1_def Let_def replicate_small one_less_max)

theorem spsc_commands_are_map_history_witness:
  "\<exists>h ht'. exec_cmds spsc_get spsc_put spsc_del [Cmd_put [97] 5, Cmd_get [97], Cmd_del [98 :: u8]]
      (the (hashtable_spsc_new 1 1 True)) = (h, ht' :: (bytes, nat) hashtable_spsc)
    \<and> map fst h = [Cmd_put [97] 5, Cmd_get [97], Cmd_del [98]] \<and> map_history Map.empty h (spsc_view ht')"
proof -
  let ?cs = "[Cmd_put [97] (5 :: nat), Cmd_get [97], Cmd_del [98 :: u8]]"
  let ?ht = "the (hashtable_spsc_new 1 1 True) :: (bytes, nat) hashtable_spsc"
  have new: "hashtable_spsc_new 1 1 True = Some ?ht" by (simp add: new_small)
  obtain h ht' where ex: "exec_cmds spsc_get spsc_put spsc_del ?cs ?ht = (h, ht')"
    by (cases "exec_cmds spsc_get spsc_put spsc_del ?cs ?ht")
  have "\<forall>c\<in>set ?cs. plain (cmd_key c)" by (simp add: plain_def)
  note result = spsc_commands_are_map_history [OF new this ex]
  show ?thesis
    by (intro exI conjI, rule ex, rule conjunct1 [OF result], rule conjunct2 [OF result])
qed

text \<open>A table with one entry, whose hash function sends every key to 0.\<close>

definition one_entry :: "(bytes, nat) hashtable_spsc" where
  "one_entry = \<lparr>buckets_count = 1, buckets_count_pow2 = 1,
    buckets_count_real = 2, max_range = 1, free_keys_on_deallocation = True,
    hashes = [\<lparr>is_set = True, cmp_hash = 0\<rparr>, \<lparr>is_set = False, cmp_hash = 0\<rparr>],
    buckets = [\<lparr>key_length = 1, key = Some [97], value = Some 5\<rparr>,
      \<lparr>key_length = 0, key = None, value = None\<rparr>]\<rparr>"

lemma one_entry_ok: "table_ok (\<lambda>_. 0) plain length id one_entry"
proof -
  have "shape_ok 0 one_entry" by (simp add: shape_ok_def one_entry_def)
  moreover have "bucket_ok (\<lambda>_. 0) plain length one_entry 0 [97]"
    by (simp add: bucket_ok_def one_entry_def plain_def HASHTABLE_SPSC_HASH_def in_window_def
        hashtable_spsc_bucket_index_from_hash_def)
  moreover have "is_set (hashes one_entry ! i) \<longleftrightarrow> i = 0" if "i < length (hashes one_entry)" for i
    using that by (auto simp: one_entry_def less_Suc_eq)
  ultimately show ?thesis unfolding table_ok_def entry_def by blast
qed

text \<open>
  C23: The case insensitive operations on a well-formed table never read outside of it. A lookup
  returns the value stored under any spelling of the key; an insertion keeps the table
  well-formed and replaces that value, or fails because the window of the key is full; a removal
  succeeds exactly where the key is present and takes away it alone.
\<close>

theorem case_insensitive_operations:
  assumes "table_ok fnv_32_hash_ci plain length (map to_lower) ht" and "plain k"
  shows "hashtable_spsc_op_get_ci ht k
        = Some (case lookup (map to_lower) ht (map to_lower k) of None \<Rightarrow> None | Some v \<Rightarrow> v)
    \<and> set_result fnv_32_hash_ci plain length (map to_lower) ht k v (hashtable_spsc_op_try_set_ci k v ht)
    \<and> (\<exists>b fs ht'. hashtable_spsc_op_delete_ci k ht = Some (b, fs, ht')
        \<and> table_ok fnv_32_hash_ci plain length (map to_lower) ht'
        \<and> b = (lookup (map to_lower) ht (map to_lower k) \<noteq> None)
        \<and> lookup (map to_lower) ht' = (lookup (map to_lower) ht)(map to_lower k := None))"
  using words.get_correct [OF assms] words.set_correct [OF assms, of v] words.delete_correct [OF assms]
  unfolding word_ops by blast

theorem case_insensitive_operations_witness:
  "\<exists>ht :: (bytes, nat) hashtable_spsc. hashtable_spsc_new 1 1 False = Some ht
    \<and> hashtable_spsc_op_get_ci ht [71, 101, 84] = Some None
    \<and> set_result fnv_32_hash_ci plain length (map to_lower) ht [71, 101, 84] (Some 5)
        (hashtable_spsc_op_try_set_ci [71, 101, 84] (Some 5) ht)"
proof -
  obtain ht :: "(bytes, nat) hashtable_spsc" where new: "hashtable_spsc_new 1 1 False = Some ht"
    using new_small by blast
  with case_insensitive_operations [OF words.new_correct(1) [OF new], of "[71, 101, 84]" "Some 5"]
    words.new_correct(2) [OF new]
  show ?thesis by (auto simp: plain_def)
qed

text \<open>
  C24: A table of strings that grows keeps its contents: where \<open>hashtable_spsc_upsize\<close> returns a
  table, it is well-formed, every key has the value it had, no other key is present, and no key
  is freed.
\<close>

theorem upsize_keeps_contents:
  assumes "table_ok hf plain length id ht" and "hashtable_spsc_upsize ht = Some (ht', fs)"
  shows "table_ok hf plain length id ht' \<and> lookup id ht' = lookup id ht \<and> fs = []"
  by (rule strings.upsize_correct [OF assms])


theorem upsize_keeps_contents_witness:
  "\<exists>ht'. hashtable_spsc_upsize one_entry = Some (ht', []) \<and> lookup id ht' [97] = Some (Some 5)
    \<and> table_ok (\<lambda>_. 0) plain length id ht'"
proof -
  have new: "hashtable_spsc_new 2 1 True = Some \<lparr>buckets_count = 2, buckets_count_pow2 = 2, buckets_count_real = 3, max_range = 1,
        free_keys_on_deallocation = True,
        hashes = [\<lparr>is_set = False, cmp_hash = 0\<rparr>, \<lparr>is_set = False, cmp_hash = 0\<rparr>, \<lparr>is_set = False, cmp_hash = 0\<rparr>],
        buckets = [\<lparr>key_length = 0, key = None, value = None\<rparr>, \<lparr>key_length = 0, key = None, value = None\<rparr>,
          \<lparr>key_length = 0, key = None, value = None\<rparr>]\<rparr>"
    by (simp add: hashtable_spsc_new_def pow2_next_def pow2_next_pow2m1_def Let_def replicate_small)
  have "\<exists>ht'. hashtable_spsc_upsize one_entry = Some (ht', [])"
    by (simp add: hashtable_spsc_upsize_def one_entry_def new upt_conv_Cons upsize_bucket_def Let_def
        hashtable_spsc_find_empty_bucket_def scan_buckets.simps hashtable_spsc_bucket_index_from_hash_def
        hashtable_spsc_free_def)
  then obtain ht' where up: "hashtable_spsc_upsize one_entry = Some (ht', [])" by blast
  have "lookup id one_entry [97] = Some (Some 5)"
    by (simp add: lookup_def one_entry_def entry_def upt_conv_Cons)
  with up upsize_keeps_contents [OF one_entry_ok up] show ?thesis by auto
qed

section \<open>Iteration\<close>

text \<open>
  The loop over \<open>hashtable_spsc_op_iter\<close> of \<open>module_redis_commands.c\<close>, which ends at a value that
  is \<open>NULL\<close>: the values it sees, or \<open>None\<close> where it reads outside of the table.
\<close>

function iterate_values :: "('k, 'v) hashtable_spsc \<Rightarrow> nat \<Rightarrow> 'v list option" where
  "iterate_values ht bucket_index =
     (case hashtable_spsc_op_iter ht bucket_index of
        None \<Rightarrow> None
      | Some None \<Rightarrow> Some []
      | Some (Some (i, None)) \<Rightarrow> Some []
      | Some (Some (i, Some v)) \<Rightarrow> map_option (Cons v) (iterate_values ht (Suc i)))"
  by pat_completeness auto
termination
  by (relation "measure (\<lambda>(ht, i). length (hashes ht) - i)")
    (auto simp: hashtable_spsc_op_iter_def hashtable_spsc_find_set_bucket_def
      dest: scan_buckets_Bucket split: probe.splits)

declare iterate_values.simps [simp del]

definition set_indices :: "('k, 'v) hashtable_spsc \<Rightarrow> nat \<Rightarrow> nat list" where
  "set_indices ht i = filter (\<lambda>j. is_set (hashes ht ! j)) [i..<length (hashes ht)]"

lemma set_indices_first:
  assumes "scan_buckets is_set ht i m = Bucket j"
  shows "set_indices ht i = j # set_indices ht (Suc j)"
proof -
  note j = scan_buckets_Bucket [OF assms]
  have "[i..<length (hashes ht)] = [i..<j] @ j # [Suc j..<length (hashes ht)]"
    using j upt_add_eq_append [of i j "length (hashes ht) - j"] by (simp add: upt_conv_Cons)
  moreover have "filter (\<lambda>j. is_set (hashes ht ! j)) [i..<j] = []"
    using j by (simp add: filter_empty_conv)
  ultimately show ?thesis using j by (simp add: set_indices_def)
qed

text \<open>The values of the buckets in use, in the order of the buckets.\<close>

definition table_values :: "('k, 'v) hashtable_spsc \<Rightarrow> nat \<Rightarrow> 'v option list" where
  "table_values ht i = map (\<lambda>j. value (buckets ht ! j)) (set_indices ht i)"

lemma iterate_values_all:
  assumes "\<not> is_set (hashes ht ! (length (hashes ht) - 1))" and "length (hashes ht) = unat (buckets_count_real ht)"
  shows "i < length (hashes ht)
    \<Longrightarrow> iterate_values ht i = Some (map the (takeWhile (\<lambda>v. v \<noteq> None) (table_values ht i)))"
  using assms
proof (induction ht i rule: iterate_values.induct)
  case (1 ht i)
  show ?case
  proof (cases "scan_buckets is_set ht i (unat (buckets_count_real ht))")
    case (Bucket j)
    note j = scan_buckets_Bucket [OF Bucket]
    have it: "hashtable_spsc_op_iter ht i = Some (Some (j, value (buckets ht ! j)))"
      using Bucket by (simp add: hashtable_spsc_op_iter_def hashtable_spsc_find_set_bucket_def)
    have vs: "table_values ht i = value (buckets ht ! j) # table_values ht (Suc j)"
      by (simp add: table_values_def set_indices_first [OF Bucket])
    have "j \<noteq> length (hashes ht) - 1" using j "1.prems" by auto
    then have "Suc j < length (hashes ht)" using j by linarith
    then show ?thesis
      using "1.IH" [OF it] "1.prems"
      by (subst iterate_values.simps) (auto simp: it vs split: option.split)
  next
    case No_bucket
    then have "set_indices ht i = []"
      using scan_buckets_No_bucket [OF No_bucket] "1.prems" by (simp add: set_indices_def filter_empty_conv)
    with No_bucket show ?thesis
      by (subst iterate_values.simps)
        (simp add: hashtable_spsc_op_iter_def hashtable_spsc_find_set_bucket_def table_values_def)
  next
    case Out_of_bounds
    with scan_buckets_in_bounds [of i ht "unat (buckets_count_real ht)" is_set] "1.prems"
    show ?thesis by simp
  qed
qed

text \<open>
  C25: Iterating over a well-formed table ends and stays inside of it. The loop sees the values of
  the buckets in use in the order of the buckets, up to the first \<open>NULL\<close>; when no value is
  \<open>NULL\<close> (the tables of the tokens hold none), it sees the value of every bucket in use exactly
  once.
\<close>

theorem iteration_ends:
  assumes "table_ok hash valid len norm ht"
  shows "iterate_values ht 0 = Some (map the (takeWhile (\<lambda>v. v \<noteq> None) (table_values ht 0)))
    \<and> (None \<notin> set (table_values ht 0) \<longrightarrow> map_option (map Some) (iterate_values ht 0) = Some (table_values ht 0))"
proof -
  obtain n where "shape_ok n ht" using assms by (auto simp: table_ok_def)
  then have "0 < length (hashes ht)" "length (hashes ht) = unat (buckets_count_real ht)"
    by (auto simp: shape_ok_def)
  with iterate_values_all [OF last_unset [OF assms]]
  have *: "iterate_values ht 0 = Some (map the (takeWhile (\<lambda>v. v \<noteq> None) (table_values ht 0)))" by blast
  have "map_option (map Some) (iterate_values ht 0) = Some (table_values ht 0)"
    if "None \<notin> set (table_values ht 0)"
  proof -
    have "takeWhile (\<lambda>v. v \<noteq> None) (table_values ht 0) = table_values ht 0"
      using that by (subst takeWhile_eq_all_conv) metis
    moreover have "map Some (map the (table_values ht 0)) = table_values ht 0"
      unfolding map_map using that by (intro map_idI) (metis comp_apply option.collapse)
    ultimately show ?thesis using * by (simp only: option.map)
  qed
  with * show ?thesis by blast
qed

theorem iteration_ends_witness:
  "iterate_values one_entry 0 = Some [5]
    \<and> map_option (map Some) (iterate_values one_entry 0) = Some (table_values one_entry 0)"
proof -
  have "table_values one_entry 0 = [Some 5]"
    by (simp add: table_values_def set_indices_def one_entry_def upt_conv_Cons)
  with iteration_ends [OF one_entry_ok] show ?thesis by simp
qed

end
