(* ===== verification/Slots_Bitmap.thy ===== *)
theory Slots_Bitmap
  imports Prelude Simulation
begin

text \<open>
  The bitmaps that hand out slots, \<open>data_structures/slots_bitmap_mpmc\<close> and
  \<open>data_structures/slots_bitmap_spsc\<close>: shards of 64 bits, a count of the used slots per shard, and
  for the second one a bit per full shard. This theory has the search for the first free bit of
  a shard, which is the same in both, and what changing one bit does to the count of a shard.

  The table of 65536 entries that both headers contain gives for each 16 bit number the place of
  its lowest zero bit, and 255 where there is none; it is modelled by that function.
\<close>

definition SHARD_SIZE :: nat where "SHARD_SIZE = 64"

definition first_free_bit_table :: "u16 \<Rightarrow> u8" where
  "first_free_bit_table x = (if x = -1 then 255 else of_nat (ctz (NOT x)))"

text \<open>The two bytes of a shard from byte \<open>k\<close> on.\<close>

definition chunk :: "u64 \<Rightarrow> nat \<Rightarrow> u16" where
  "chunk shard k = ucast (drop_bit (k * 8) shard AND 0xFFFF)"

fun find_first_zero_loop :: "u64 \<Rightarrow> nat list \<Rightarrow> u8" where
  "find_first_zero_loop shard [] = 255"
| "find_first_zero_loop shard (uint16_bytes_index # ks) =
     (let first_free_zero_bit_index = first_free_bit_table (chunk shard uint16_bytes_index)
      in if first_free_zero_bit_index = 255 then find_first_zero_loop shard ks
         else first_free_zero_bit_index + of_nat (uint16_bytes_index * 8))"

definition shard_find_first_zero :: "u64 \<Rightarrow> u8" where
  "shard_find_first_zero shard = find_first_zero_loop shard [0, 2, 4, 6]"

lemma ctz_eqI: "bit w n \<Longrightarrow> (\<And>j. j < n \<Longrightarrow> \<not> bit w j) \<Longrightarrow> ctz w = n"
  by (metis bit_ctz ctz_least bit_0_eq bot_apply bot_bool_def linorder_neqE_nat)

lemma table_full: "first_free_bit_table x = 255 \<longleftrightarrow> x = -1"
proof -
  have "(of_nat (ctz (NOT x)) :: u8) \<noteq> 255" if "x \<noteq> -1"
  proof -
    have "NOT x \<noteq> 0" using that by (metis bit.compl_zero bit.double_compl)
    from ctz_less [OF this] have "unat (of_nat (ctz (NOT x)) :: u8) < 16"
      by (simp add: unat_of_nat_small)
    then show ?thesis by auto
  qed
  then show ?thesis by (auto simp: first_free_bit_table_def)
qed

lemma table_free:
  assumes "x \<noteq> -1"
  shows "unat (first_free_bit_table x) < 16" and "\<not> bit x (unat (first_free_bit_table x))"
    and "j < unat (first_free_bit_table x) \<Longrightarrow> bit x j"
proof -
  have nz: "NOT x \<noteq> 0" using assms by (metis bit.compl_zero bit.double_compl)
  have lt: "ctz (NOT x) < 16" using ctz_less [OF nz] by simp
  then have u: "unat (first_free_bit_table x) = ctz (NOT x)"
    using assms by (simp add: first_free_bit_table_def unat_of_nat_small)
  show "unat (first_free_bit_table x) < 16" using u lt by simp
  show "\<not> bit x (unat (first_free_bit_table x))"
    using bit_ctz [OF nz] by (simp add: u bit_not_iff)
  show "bit x j" if "j < unat (first_free_bit_table x)"
    using ctz_least [of j "NOT x"] that lt by (simp add: u bit_not_iff)
qed

lemma bit_chunk: "bit (chunk shard k) j \<longleftrightarrow> j < 16 \<and> bit shard (k * 8 + j)"
proof -
  have "x AND 0xFFFF = take_bit 16 x" for x :: u64
    by (simp add: take_bit_eq_mask mask_eq_exp_minus_1)
  then show ?thesis unfolding chunk_def by (auto simp: bit_simps)
qed

lemma find_first_zero_step:
  assumes "\<forall>j < k * 8. bit shard j" and "k * 8 + 16 \<le> 64"
  shows "if chunk shard k = -1 then \<forall>j < k * 8 + 16. bit shard j
    else unat (first_free_bit_table (chunk shard k) + of_nat (k * 8)) = ctz (NOT shard)"
proof (cases "chunk shard k = -1")
  case True
  have "bit shard j" if "j < k * 8 + 16" for j
  proof (cases "j < k * 8")
    case False
    have "bit (chunk shard k) (j - k * 8)" using True that False by simp
    with False show ?thesis by (simp add: bit_chunk)
  qed (use assms in simp)
  with True show ?thesis by simp
next
  case False
  note t = table_free [OF False]
  let ?t = "unat (first_free_bit_table (chunk shard k))"
  have "ctz (NOT shard) = k * 8 + ?t"
  proof (rule ctz_eqI)
    show "bit (NOT shard) (k * 8 + ?t)" using t assms(2) by (simp add: bit_not_iff bit_chunk)
    fix j assume "j < k * 8 + ?t"
    then have "bit shard j"
      using assms(1) t(3) [of "j - k * 8"] by (cases "j < k * 8") (auto simp: bit_chunk)
    then show "\<not> bit (NOT shard) j" by (simp add: bit_not_iff)
  qed
  moreover have "unat (of_nat (k * 8) :: u8) = k * 8" using assms(2) by (intro unat_of_nat_small) simp
  ultimately show ?thesis
    using False t(1) assms(2) by (simp add: unat_word_ariths)
qed

lemma all_bits_minus_1: "(\<forall>j < 64. bit shard j) \<Longrightarrow> shard = (-1 :: u64)"
  by (rule bit_word_eqI) simp

lemma find_first_zero_full: "shard_find_first_zero (-1) = 255"
proof -
  have "chunk (-1) k = -1" if "k * 8 + 16 \<le> 64" for k
    by (rule bit_word_eqI) (use that in \<open>auto simp: bit_chunk\<close>)
  then show ?thesis
    by (simp add: shard_find_first_zero_def Let_def table_full)
qed

fun even_from :: "nat \<Rightarrow> nat \<Rightarrow> nat list" where
  "even_from k 0 = []"
| "even_from k (Suc n) = k # even_from (k + 2) n"

lemma find_first_zero_loop_free:
  assumes "shard \<noteq> -1"
  shows "\<forall>j < k * 8. bit shard j \<Longrightarrow> k * 8 + n * 16 = 64
    \<Longrightarrow> unat (find_first_zero_loop shard (even_from k n)) = ctz (NOT shard)"
proof (induction n arbitrary: k)
  case 0
  with assms all_bits_minus_1 show ?case by auto
next
  case (Suc n)
  have "k * 8 + 16 \<le> 64" using Suc.prems by simp
  note step = find_first_zero_step [OF Suc.prems(1) this]
  show ?case
  proof (cases "chunk shard k = -1")
    case True
    with step have "\<forall>j < (k + 2) * 8. bit shard j" by (simp add: algebra_simps)
    from Suc.IH [OF this] Suc.prems True show ?thesis by (simp add: table_full)
  next
    case False
    with step show ?thesis by (simp add: table_full Let_def)
  qed
qed

lemma find_first_zero_free:
  assumes "shard \<noteq> -1"
  shows "unat (shard_find_first_zero shard) = ctz (NOT shard)"
proof -
  have "[0, 2, 4, 6] = even_from 0 4" by (simp add: numeral_eq_Suc)
  with find_first_zero_loop_free [OF assms, of 0 4] show ?thesis
    by (simp add: shard_find_first_zero_def)
qed

lemma find_first_zero_less: "shard \<noteq> -1 \<Longrightarrow> unat (shard_find_first_zero shard) < 64"
proof -
  assume "shard \<noteq> -1"
  then have "NOT shard \<noteq> 0" by (metis bit.compl_zero bit.double_compl)
  from ctz_less [OF this] \<open>shard \<noteq> -1\<close> show ?thesis by (simp add: find_first_zero_free)
qed

lemma find_first_zero_bit:
  assumes "shard \<noteq> -1"
  shows "\<not> bit shard (unat (shard_find_first_zero shard))"
    and "j < unat (shard_find_first_zero shard) \<Longrightarrow> bit shard j"
proof -
  have nz: "NOT shard \<noteq> 0" using assms by (metis bit.compl_zero bit.double_compl)
  show "\<not> bit shard (unat (shard_find_first_zero shard))"
    using bit_ctz [OF nz] by (simp add: find_first_zero_free [OF assms] bit_not_iff)
  show "j < unat (shard_find_first_zero shard) \<Longrightarrow> bit shard j"
    using ctz_least [of j "NOT shard"] find_first_zero_less [OF assms]
    by (simp add: find_first_zero_free [OF assms] bit_not_iff)
qed

section \<open>The used slots of a shard\<close>

definition used_bits :: "u64 \<Rightarrow> nat set" where
  "used_bits shard = {j. bit shard j}"

lemma used_bits_bound: "used_bits shard \<subseteq> {..<64}"
  using bit_imp_le_length [of shard] by (auto simp: used_bits_def)

lemma finite_used_bits [simp]: "finite (used_bits shard)"
  using used_bits_bound finite_subset by blast

lemma card_used_bits_le: "card (used_bits shard) \<le> 64"
  using card_mono [OF _ used_bits_bound, of shard] by simp

lemma card_used_bits_full: "card (used_bits shard) = 64 \<longleftrightarrow> shard = -1"
proof
  assume "card (used_bits shard) = 64"
  then have "used_bits shard = {..<64}"
    by (intro card_subset_eq) (simp_all add: used_bits_bound)
  then show "shard = -1" by (intro all_bits_minus_1) (auto simp: used_bits_def)
next
  assume "shard = -1"
  then have "used_bits shard = {..<64}" by (auto simp: used_bits_def)
  then show "card (used_bits shard) = 64" by simp
qed

definition set_slot :: "u64 \<Rightarrow> nat \<Rightarrow> u64" where
  "set_slot shard b = shard OR push_bit b 1"

definition clear_slot :: "u64 \<Rightarrow> nat \<Rightarrow> u64" where
  "clear_slot shard b = shard - push_bit b 1"

lemma used_bits_set: "b < 64 \<Longrightarrow> used_bits (set_slot shard b) = insert b (used_bits shard)"
  by (auto simp: used_bits_def set_slot_def bit_simps dest: bit_imp_le_length)

text \<open>The subtraction of a bit that is set clears it and nothing else.\<close>

lemma clear_slot_and: 
  assumes "bit shard b"
  shows "clear_slot shard b = shard AND NOT (push_bit b 1)"
  unfolding clear_slot_def by (rule disjunctive_diff) (use assms in \<open>auto simp: bit_simps\<close>)

lemma used_bits_clear: "b \<in> used_bits shard \<Longrightarrow> used_bits (clear_slot shard b) = used_bits shard - {b}"
  by (auto simp: used_bits_def clear_slot_and bit_simps dest: bit_imp_le_length)


section \<open>The used slots of a bitmap\<close>

definition used_slots :: "u64 list \<Rightarrow> nat set" where
  "used_slots ss = {i. i div 64 < length ss \<and> bit (ss ! (i div 64)) (i mod 64)}"

lemma slot_eq: "b < 64 \<Longrightarrow> x = i * 64 + b \<longleftrightarrow> x div 64 = i \<and> x mod 64 = (b :: nat)"
  using div_mult_mod_eq [of x 64] by auto

lemma used_bits_zero [simp]: "used_bits 0 = {}"
  by (simp add: used_bits_def)

lemma used_slots_set:
  assumes "i < length ss" and "b < 64"
  shows "used_slots (ss[i := set_slot (ss ! i) b]) = insert (i * 64 + b) (used_slots ss)"
proof -
  have key: "bit (ss[i := set_slot (ss ! i) b] ! (x div 64)) (x mod 64)
    \<longleftrightarrow> x = i * 64 + b \<or> bit (ss ! (x div 64)) (x mod 64)" if "x div 64 < length ss" for x
  proof (cases "x div 64 = i")
    case True
    moreover have "bit (set_slot (ss ! i) b) (x mod 64) \<longleftrightarrow> x mod 64 = b \<or> bit (ss ! i) (x mod 64)"
      using used_bits_set [OF assms(2), of "ss ! i"] by (auto simp: used_bits_def)
    ultimately show ?thesis using assms by (auto simp: slot_eq)
  next
    case False
    then show ?thesis using assms by (auto simp: slot_eq)
  qed
  show ?thesis
  proof (rule set_eqI)
    fix x
    have "x = i * 64 + b \<Longrightarrow> x div 64 < length ss" using assms by simp
    with key [of x] show "x \<in> used_slots (ss[i := set_slot (ss ! i) b]) \<longleftrightarrow> x \<in> insert (i * 64 + b) (used_slots ss)"
      unfolding used_slots_def mem_Collect_eq insert_iff length_list_update by blast
  qed
qed

lemma used_slots_clear:
  assumes "i < length ss" and "bit (ss ! i) b"
  shows "used_slots (ss[i := clear_slot (ss ! i) b]) = used_slots ss - {i * 64 + b}"
proof -
  have b: "b < 64" using bit_imp_le_length [OF assms(2)] by simp
  have key: "bit (ss[i := clear_slot (ss ! i) b] ! (x div 64)) (x mod 64)
    \<longleftrightarrow> x \<noteq> i * 64 + b \<and> bit (ss ! (x div 64)) (x mod 64)" if "x div 64 < length ss" for x
  proof (cases "x div 64 = i")
    case True
    moreover have "bit (clear_slot (ss ! i) b) (x mod 64) \<longleftrightarrow> x mod 64 \<noteq> b \<and> bit (ss ! i) (x mod 64)"
      using used_bits_clear [of b "ss ! i"] assms(2) by (auto simp: used_bits_def)
    ultimately show ?thesis using assms(1) slot_eq [OF b, of x i] by simp
  next
    case False
    then show ?thesis using slot_eq [OF b, of x i] by simp
  qed
  show ?thesis
  proof (rule set_eqI)
    fix x
    show "x \<in> used_slots (ss[i := clear_slot (ss ! i) b]) \<longleftrightarrow> x \<in> used_slots ss - {i * 64 + b}"
      using key [of x]
      unfolding used_slots_def mem_Collect_eq Diff_iff singleton_iff length_list_update by blast
  qed
qed


lemma mem_used_slots:
  "i < length ss \<Longrightarrow> b < 64 \<Longrightarrow> i * 64 + b \<in> used_slots ss \<longleftrightarrow> bit (ss ! i) b"
  by (simp add: used_slots_def)

lemma find_first:
  assumes "P m" and "lo \<le> m" and "m < hi" and "\<And>j. lo \<le> j \<Longrightarrow> j < m \<Longrightarrow> \<not> P j"
  shows "List.find P [lo..<hi] = Some m"
  unfolding find_Some_iff by (rule exI [of _ "m - lo"]) (use assms in auto)

definition lowest_free :: "nat \<Rightarrow> nat set \<Rightarrow> nat option" where
  "lowest_free n S = List.find (\<lambda>i. i \<notin> S) [0..<64 * n]"

lemma lowest_free_in_shard:
  assumes i: "i < length ss" "i < n" and b: "b < 64" "\<not> bit (ss ! i) b" "\<And>j. j < b \<Longrightarrow> bit (ss ! i) j"
    and below: "\<And>j. j < i * 64 \<Longrightarrow> j \<in> used_slots ss"
  shows "lowest_free n (used_slots ss) = Some (i * 64 + b)"
proof -
  have "j \<in> used_slots ss" if "j < i * 64 + b" for j
  proof (cases "j < i * 64")
    case False
    then obtain x where x: "j = i * 64 + x" by (metis le_Suc_ex not_less)
    with that b i show ?thesis by (simp add: mem_used_slots)
  qed (use below in simp)
  then show ?thesis
    unfolding lowest_free_def using b i by (intro find_first) (auto simp: mem_used_slots)
qed

datatype slots_cmd = Acquire | Release nat | Next_used nat

datatype slots_reply = Slot "nat option" | Released

text \<open>The same commands on a set of slots; a slot that is released lies in the bitmap.\<close>

fun slots_exec :: "nat \<Rightarrow> slots_cmd \<Rightarrow> nat set \<Rightarrow> (slots_reply \<times> nat set) option" where
  "slots_exec n Acquire S =
     Some (Slot (lowest_free n S), case lowest_free n S of None \<Rightarrow> S | Some m \<Rightarrow> insert m S)"
| "slots_exec n (Release i) S = (if i < 64 * n then Some (Released, S - {i}) else None)"
| "slots_exec n (Next_used i) S = Some (Slot (List.find (\<lambda>x. x \<in> S) [i..<n * 64]), S)"

end
