(* ===== verification/Slots_Bitmap_Mpmc.thy ===== *)
theory Slots_Bitmap_Mpmc
  imports Slots_Bitmap
begin

text \<open>
  The bitmap of \<open>data_structures/slots_bitmap_mpmc\<close>. First its operations run by one thread, where
  every compare-and-swap succeeds: it refines a set of slots, always hands out the lowest free
  slot, and the iteration finds the used slots. Then the loads and the compare-and-swap of the
  operations on one shard as steps of concurrent threads.
\<close>

record slots_bitmap_mpmc =
  bm_size :: nat
  shards_count :: nat
  shards :: "u64 list"
  shards_used_slots :: "u8 list"

text \<open>
  The division in double precision, rounded up: exact for sizes below \<open>2 ^ 53\<close>.
\<close>

definition slots_bitmap_mpmc_calculate_shard_count :: "nat \<Rightarrow> nat" where
  "slots_bitmap_mpmc_calculate_shard_count sz = (sz + (SHARD_SIZE - 1)) div SHARD_SIZE"

definition slots_bitmap_mpmc_init :: "nat \<Rightarrow> slots_bitmap_mpmc option" where
  "slots_bitmap_mpmc_init sz =
     (if sz = 0 then None
      else let n = slots_bitmap_mpmc_calculate_shard_count sz
           in Some \<lparr>bm_size = n * SHARD_SIZE, shards_count = n, shards = replicate n 0,
                shards_used_slots = replicate n 0\<rparr>)"

definition slots_bitmap_mpmc_shard_is_full :: "slots_bitmap_mpmc \<Rightarrow> nat \<Rightarrow> bool" where
  "slots_bitmap_mpmc_shard_is_full bm shard_index \<longleftrightarrow>
     unat (shards_used_slots bm ! shard_index) = SHARD_SIZE"

definition slots_bitmap_mpmc_shard_increase_used_count :: "nat \<Rightarrow> slots_bitmap_mpmc \<Rightarrow> slots_bitmap_mpmc" where
  "slots_bitmap_mpmc_shard_increase_used_count i bm =
     bm\<lparr>shards_used_slots := (shards_used_slots bm)[i := shards_used_slots bm ! i + 1]\<rparr>"

definition slots_bitmap_mpmc_shard_decrease_used_count :: "nat \<Rightarrow> slots_bitmap_mpmc \<Rightarrow> slots_bitmap_mpmc" where
  "slots_bitmap_mpmc_shard_decrease_used_count i bm =
     bm\<lparr>shards_used_slots := (shards_used_slots bm)[i := shards_used_slots bm ! i - 1]\<rparr>"

text \<open>The index of the shard is converted to 16 bits.\<close>

definition slots_bitmap_mpmc_shard_is_bit_set :: "slots_bitmap_mpmc \<Rightarrow> nat \<Rightarrow> nat \<Rightarrow> bool" where
  "slots_bitmap_mpmc_shard_is_bit_set bm shard_index bit_index \<longleftrightarrow>
     (shards bm ! (shard_index mod 2 ^ 16)) AND push_bit bit_index 1 \<noteq> 0"

text \<open>
  The two loops of the iteration: over the bits of a shard, which either finds a slot or has
  counted \<open>from\<close> up, and over the shards.
\<close>

function iter_bits :: "slots_bitmap_mpmc \<Rightarrow> nat \<Rightarrow> nat \<Rightarrow> nat \<Rightarrow> nat + nat" where
  "iter_bits bm shard_index bit_index from =
     (if bit_index < SHARD_SIZE
      then if slots_bitmap_mpmc_shard_is_bit_set bm shard_index bit_index then Inl from
           else iter_bits bm shard_index (Suc bit_index) (Suc from)
      else Inr from)"
  by pat_completeness auto
termination
  by (relation "measure (\<lambda>(bm, s, b, f). SHARD_SIZE - b)") auto

function iter_shards :: "slots_bitmap_mpmc \<Rightarrow> nat \<Rightarrow> nat \<Rightarrow> nat \<Rightarrow> nat option" where
  "iter_shards bm shard_index bit_index from =
     (if shard_index < shards_count bm
      then case iter_bits bm shard_index bit_index from of
             Inl found \<Rightarrow> Some found
           | Inr from' \<Rightarrow> iter_shards bm (Suc shard_index) 0 from'
      else None)"
  by pat_completeness auto
termination
  by (relation "measure (\<lambda>(bm, s, b, f). shards_count bm - s)") auto

declare iter_bits.simps [simp del] iter_shards.simps [simp del]

definition slots_bitmap_mpmc_iter :: "slots_bitmap_mpmc \<Rightarrow> nat \<Rightarrow> nat option" where
  "slots_bitmap_mpmc_iter bm from = iter_shards bm (from div SHARD_SIZE) (from mod SHARD_SIZE) from"

text \<open>
  The search of a free slot, \<open>None\<close> where it does not end: with step 0 it stays at a full shard.
\<close>

partial_function (option) next_available_mpmc ::
  "slots_bitmap_mpmc \<Rightarrow> nat \<Rightarrow> nat \<Rightarrow> (nat option \<times> slots_bitmap_mpmc) option" where
  "next_available_mpmc bm shard_index shard_index_step =
     (if shard_index < shards_count bm then
        if slots_bitmap_mpmc_shard_is_full bm shard_index
        then next_available_mpmc bm (shard_index + shard_index_step) shard_index_step
        else
          let b = shard_find_first_zero (shards bm ! shard_index) in
          if b = 255 then next_available_mpmc bm (shard_index + shard_index_step) shard_index_step
          else
            let bm' = bm\<lparr>shards := (shards bm)[shard_index := set_slot (shards bm ! shard_index) (unat b)]\<rparr>
            in Some (Some (shard_index * SHARD_SIZE + unat b),
                 slots_bitmap_mpmc_shard_increase_used_count shard_index bm')
      else Some (None, bm))"

definition slots_bitmap_mpmc_get_next_available_ptr_with_step ::
  "u16 \<Rightarrow> u16 \<Rightarrow> slots_bitmap_mpmc \<Rightarrow> (nat option \<times> slots_bitmap_mpmc) option" where
  "slots_bitmap_mpmc_get_next_available_ptr_with_step start step bm =
     next_available_mpmc bm (unat start) (unat step)"

definition slots_bitmap_mpmc_get_next_available ::
  "slots_bitmap_mpmc \<Rightarrow> (nat option \<times> slots_bitmap_mpmc) option" where
  "slots_bitmap_mpmc_get_next_available bm = slots_bitmap_mpmc_get_next_available_ptr_with_step 0 1 bm"

definition slots_bitmap_mpmc_release :: "nat \<Rightarrow> slots_bitmap_mpmc \<Rightarrow> slots_bitmap_mpmc" where
  "slots_bitmap_mpmc_release index bm =
     (let shard_index = (index div SHARD_SIZE) mod 2 ^ 16; b = index mod SHARD_SIZE;
          shard_value = shards bm ! shard_index
      in if drop_bit b shard_value AND 1 = 0 then bm
         else slots_bitmap_mpmc_shard_decrease_used_count shard_index
                (bm\<lparr>shards := (shards bm)[shard_index := clear_slot shard_value b]\<rparr>))"

section \<open>The bitmap refines a set of slots\<close>

definition mpmc_is :: "nat \<Rightarrow> slots_bitmap_mpmc \<Rightarrow> nat set \<Rightarrow> bool" where
  "mpmc_is n bm S \<longleftrightarrow> shards_count bm = n \<and> n \<le> 2 ^ 16 \<and> length (shards bm) = n
     \<and> length (shards_used_slots bm) = n
     \<and> (\<forall>i < n. unat (shards_used_slots bm ! i) = card (used_bits (shards bm ! i)))
     \<and> S = used_slots (shards bm)"

lemma init_is:
  assumes "slots_bitmap_mpmc_init sz = Some bm" and "sz \<le> 2 ^ 22"
  shows "mpmc_is (slots_bitmap_mpmc_calculate_shard_count sz) bm {}"
proof -
  have "slots_bitmap_mpmc_calculate_shard_count sz \<le> 2 ^ 16"
    using assms(2) by (simp add: slots_bitmap_mpmc_calculate_shard_count_def SHARD_SIZE_def)
  with assms(1) show ?thesis
    by (auto simp: slots_bitmap_mpmc_init_def mpmc_is_def used_slots_def Let_def split: if_splits)
qed

lemma shard_full_iff:
  "mpmc_is n bm S \<Longrightarrow> i < n \<Longrightarrow> slots_bitmap_mpmc_shard_is_full bm i \<longleftrightarrow> shards bm ! i = -1"
  by (simp add: mpmc_is_def slots_bitmap_mpmc_shard_is_full_def SHARD_SIZE_def flip: card_used_bits_full)

lemma acquire_is:
  assumes bm: "mpmc_is n bm S" and i: "i < n" and b: "b < 64" "\<not> bit (shards bm ! i) b"
  shows "mpmc_is n (slots_bitmap_mpmc_shard_increase_used_count i
    (bm\<lparr>shards := (shards bm)[i := set_slot (shards bm ! i) b]\<rparr>)) (insert (i * 64 + b) S)"
proof -
  have nm: "b \<notin> used_bits (shards bm ! i)" using b by (simp add: used_bits_def)
  then have c: "card (used_bits (set_slot (shards bm ! i) b)) = Suc (card (used_bits (shards bm ! i)))"
    using b by (simp add: used_bits_set)
  then have "card (used_bits (shards bm ! i)) < 64"
    using card_used_bits_le [of "set_slot (shards bm ! i) b"] by simp
  then have "unat (shards_used_slots bm ! i + 1) = Suc (card (used_bits (shards bm ! i)))"
    using bm i by (subst unat_add_one) (auto simp: mpmc_is_def)
  then show ?thesis
    using bm i c b used_slots_set [of i "shards bm" b]
    by (auto simp: mpmc_is_def slots_bitmap_mpmc_shard_increase_used_count_def nth_list_update)
qed

lemma next_available_mpmc_spec:
  assumes bm: "mpmc_is n bm S" and below: "\<And>j. j < i * 64 \<Longrightarrow> j \<in> S" and "i \<le> n"
  shows "\<exists>bm'. next_available_mpmc bm i 1 = Some (lowest_free n S, bm')
    \<and> mpmc_is n bm' (case lowest_free n S of None \<Rightarrow> S | Some m \<Rightarrow> insert m S)"
  using below assms(3)
proof (induction "n - i" arbitrary: i)
  case 0
  then have "i = n" by simp
  then have "lowest_free n S = None"
    using 0 by (auto simp: lowest_free_def find_None_iff)
  moreover have "next_available_mpmc bm i 1 = Some (None, bm)"
    using \<open>i = n\<close> bm by (subst next_available_mpmc.simps) (simp add: mpmc_is_def)
  ultimately show ?case using bm by simp
next
  case (Suc d)
  then have i: "i < n" "i < shards_count bm" "i < length (shards bm)" using bm by (auto simp: mpmc_is_def)
  let ?v = "shards bm ! i"
  show ?case
  proof (cases "?v = -1")
    case True
    have "j \<in> S" if "j < Suc i * 64" for j
    proof (cases "j < i * 64")
      case False
      then have "j div 64 = i" using that by simp
      moreover have "bit ?v (j mod 64)" using True by simp
      ultimately show ?thesis using bm i by (simp add: mpmc_is_def used_slots_def)
    qed (use Suc.prems in simp)
    moreover have "next_available_mpmc bm i 1 = next_available_mpmc bm (Suc i) 1"
      using True i bm by (subst next_available_mpmc.simps) (simp add: shard_full_iff)
    ultimately show ?thesis using Suc.hyps(1) [of "Suc i"] Suc.hyps(2) i by simp
  next
    case False
    let ?b = "unat (shard_find_first_zero ?v)"
    have b: "?b < 64" "\<not> bit ?v ?b" "\<And>j. j < ?b \<Longrightarrow> bit ?v j"
      using find_first_zero_less [OF False] find_first_zero_bit [OF False] by auto
    then have n255: "shard_find_first_zero ?v \<noteq> 255" by auto
    have S: "S = used_slots (shards bm)" using bm by (simp add: mpmc_is_def)
    have low: "lowest_free n S = Some (i * 64 + ?b)"
      unfolding S using i(3) b Suc.prems(1) i(1) by (intro lowest_free_in_shard) (auto simp: S)
    have "next_available_mpmc bm i 1 = Some (Some (i * 64 + ?b), slots_bitmap_mpmc_shard_increase_used_count i
        (bm\<lparr>shards := (shards bm)[i := set_slot ?v ?b]\<rparr>))"
      using False i bm n255
      by (subst next_available_mpmc.simps) (simp add: shard_full_iff Let_def SHARD_SIZE_def)
    with low acquire_is [OF bm i(1) b(1,2)] show ?thesis by simp
  qed
qed

lemma release_is:
  assumes bm: "mpmc_is n bm S" and x: "x < 64 * n"
  shows "mpmc_is n (slots_bitmap_mpmc_release x bm) (S - {x})"
proof -
  define i where "i = x div 64"
  define b where "b = x mod 64"
  have i: "i < n" "i < 2 ^ 16" "i < length (shards bm)" and xi: "x = i * 64 + b" and b: "b < 64"
    using x bm by (auto simp: i_def b_def mpmc_is_def)
  let ?v = "shards bm ! i"
  have bit: "drop_bit b ?v AND 1 = 0 \<longleftrightarrow> \<not> bit ?v b"
    by (simp add: bit_iff_odd_drop_bit and_one_eq even_iff_mod_2_eq_zero)
  show ?thesis
  proof (cases "bit ?v b")
    case False
    then have "x \<notin> S" using bm i b by (simp add: mpmc_is_def xi mem_used_slots)
    moreover have "slots_bitmap_mpmc_release x bm = bm"
      using False bit i unfolding slots_bitmap_mpmc_release_def SHARD_SIZE_def
      by (simp add: Let_def flip: i_def b_def)
    ultimately show ?thesis using bm by simp
  next
    case True
    then have u: "b \<in> used_bits ?v" by (simp add: used_bits_def)
    have c: "card (used_bits (clear_slot ?v b)) = card (used_bits ?v) - 1"
      using u by (simp add: used_bits_clear)
    have "card (used_bits ?v) > 0" using u by (auto simp: card_gt_0_iff)
    then have "unat (shards_used_slots bm ! i - 1) = card (used_bits ?v) - 1"
      using bm i by (subst unat_sub_one) (auto simp: mpmc_is_def)
    moreover have "slots_bitmap_mpmc_release x bm = slots_bitmap_mpmc_shard_decrease_used_count i
        (bm\<lparr>shards := (shards bm)[i := clear_slot ?v b]\<rparr>)"
      using True bit i unfolding slots_bitmap_mpmc_release_def SHARD_SIZE_def
      by (simp add: Let_def flip: i_def b_def)
    ultimately show ?thesis
      using bm i c used_slots_clear [OF i(3) True]
      by (auto simp: mpmc_is_def slots_bitmap_mpmc_shard_decrease_used_count_def nth_list_update xi)
  qed
qed


lemma is_bit_set_iff:
  assumes "mpmc_is n bm S" and "i < n" and "b < 64"
  shows "slots_bitmap_mpmc_shard_is_bit_set bm i b \<longleftrightarrow> i * 64 + b \<in> S"
  unfolding slots_bitmap_mpmc_shard_is_bit_set_def bit_iff_and_push_bit_not_eq_0 [symmetric]
  using assms by (simp add: mpmc_is_def mem_used_slots)

lemma find_upt_split:
  "lo \<le> mid \<Longrightarrow> mid \<le> hi \<Longrightarrow> List.find P [lo..<hi] =
    (case List.find P [lo..<mid] of None \<Rightarrow> List.find P [mid..<hi] | Some x \<Rightarrow> Some x)"
proof -
  assume "lo \<le> mid" "mid \<le> hi"
  then have "[lo..<hi] = [lo..<mid] @ [mid..<hi]"
    using upt_add_eq_append [of lo mid "hi - mid"] by simp
  moreover have "List.find P (xs @ ys) = (case List.find P xs of None \<Rightarrow> List.find P ys | Some x \<Rightarrow> Some x)" for xs ys
    by (induction xs) auto
  ultimately show ?thesis by simp
qed

lemma iter_bits_spec:
  assumes "mpmc_is n bm S" and "i < n"
  shows "b \<le> 64 \<Longrightarrow> iter_bits bm i b (i * 64 + b) =
    (case List.find (\<lambda>x. x \<in> S) [i * 64 + b..<Suc i * 64] of None \<Rightarrow> Inr (Suc i * 64) | Some x \<Rightarrow> Inl x)"
proof (induction "64 - b" arbitrary: b)
  case 0
  then show ?case by (subst iter_bits.simps) (simp add: SHARD_SIZE_def)
next
  case (Suc d)
  then have b: "b < 64" by simp
  have "[i * 64 + b..<Suc i * 64] = (i * 64 + b) # [i * 64 + Suc b..<Suc i * 64]"
    using b by (subst upt_conv_Cons) simp_all
  moreover have "iter_bits bm i (Suc b) (i * 64 + Suc b) =
    (case List.find (\<lambda>x. x \<in> S) [i * 64 + Suc b..<Suc i * 64] of None \<Rightarrow> Inr (Suc i * 64) | Some x \<Rightarrow> Inl x)"
    using Suc.hyps(2) b by (intro Suc.hyps(1)) simp_all
  ultimately show ?case
    using b is_bit_set_iff [OF assms b] by (subst iter_bits.simps) (simp add: SHARD_SIZE_def)
qed

lemma iter_shards_spec:
  assumes "mpmc_is n bm S"
  shows "i \<le> n \<Longrightarrow> b \<le> 64 \<Longrightarrow> i < n \<or> b = 0
    \<Longrightarrow> iter_shards bm i b (i * 64 + b) = List.find (\<lambda>x. x \<in> S) [i * 64 + b..<n * 64]"
proof (induction "n - i" arbitrary: i b)
  case 0
  then show ?case using assms by (subst iter_shards.simps) (simp add: mpmc_is_def)
next
  case (Suc d)
  then have i: "i < n" by simp
  have "iter_shards bm (Suc i) 0 (Suc i * 64 + 0) = List.find (\<lambda>x. x \<in> S) [Suc i * 64 + 0..<n * 64]"
    using Suc.hyps(2) i by (intro Suc.hyps(1)) simp_all
  moreover have "List.find (\<lambda>x. x \<in> S) [i * 64 + b..<n * 64] =
      (case List.find (\<lambda>x. x \<in> S) [i * 64 + b..<Suc i * 64] of None \<Rightarrow> List.find (\<lambda>x. x \<in> S) [Suc i * 64..<n * 64]
       | Some x \<Rightarrow> Some x)"
    using Suc.prems i by (intro find_upt_split) simp_all
  ultimately show ?case
    using i assms iter_bits_spec [OF assms i Suc.prems(2)]
    by (subst iter_shards.simps) (auto simp: mpmc_is_def split: option.splits)
qed

lemma iter_is:
  assumes "mpmc_is n bm S"
  shows "slots_bitmap_mpmc_iter bm x = List.find (\<lambda>x. x \<in> S) [x..<n * 64]"
proof (cases "x div 64 < n")
  case True
  have "(x div 64) * 64 + x mod 64 = x" by (rule div_mult_mod_eq)
  with iter_shards_spec [OF assms, of "x div 64" "x mod 64"] True show ?thesis
    by (simp add: slots_bitmap_mpmc_iter_def SHARD_SIZE_def)
next
  case False
  then have "n * 64 \<le> x" by (simp add: less_mult_imp_div_less not_le [symmetric])
  with False assms show ?thesis
    by (simp add: slots_bitmap_mpmc_iter_def SHARD_SIZE_def iter_shards.simps mpmc_is_def)
qed

fun mpmc_exec :: "slots_cmd \<Rightarrow> slots_bitmap_mpmc \<Rightarrow> (slots_reply \<times> slots_bitmap_mpmc) option" where
  "mpmc_exec Acquire bm = map_option (apfst Slot) (slots_bitmap_mpmc_get_next_available bm)"
| "mpmc_exec (Release i) bm = Some (Released, slots_bitmap_mpmc_release i bm)"
| "mpmc_exec (Next_used i) bm = Some (Slot (slots_bitmap_mpmc_iter bm i), bm)"

interpretation mpmc: simulation "mpmc_is n" mpmc_exec "slots_exec n"
proof
  fix bm S c r S'
  assume bm: "mpmc_is n bm S" and spec: "slots_exec n c S = Some (r, S')"
  show "\<exists>bm'. mpmc_exec c bm = Some (r, bm') \<and> mpmc_is n bm' S'"
  proof (cases c)
    case Acquire
    with spec next_available_mpmc_spec [OF bm, of 0] show ?thesis
      by (auto simp: slots_bitmap_mpmc_get_next_available_def
          slots_bitmap_mpmc_get_next_available_ptr_with_step_def)
  next
    case (Release i)
    with spec release_is [OF bm, of i] show ?thesis by (auto split: if_splits)
  next
    case (Next_used i)
    with spec bm iter_is [OF bm] show ?thesis by auto
  qed
qed

text \<open>
  C28: A new bitmap of at most 4194304 slots that one thread uses refines a set of slots: every
  acquisition ends and returns the lowest free slot, or none when all are used, a release gives
  back exactly its slot, and the iteration finds the next used slot.
\<close>

theorem bitmap_is_set:
  assumes "slots_bitmap_mpmc_init sz = Some bm" and "sz \<le> 2 ^ 22"
    and "run (slots_exec (slots_bitmap_mpmc_calculate_shard_count sz)) cs {} = Some (rs, S)"
  shows "\<exists>bm'. run mpmc_exec cs bm = Some (rs, bm') \<and> used_slots (shards bm') = S"
  using mpmc.run_refines [OF init_is [OF assms(1,2)] assms(3)] by (auto simp: mpmc_is_def)

theorem bitmap_is_set_witness:
  "\<exists>bm bm'. slots_bitmap_mpmc_init 2 = Some bm
    \<and> run mpmc_exec [Acquire, Acquire, Release 0, Next_used 0, Acquire] bm
      = Some ([Slot (Some 0), Slot (Some 1), Released, Slot (Some 1), Slot (Some 0)], bm')
    \<and> used_slots (shards bm') = {0, 1}"
proof -
  obtain bm where bm: "slots_bitmap_mpmc_init 2 = Some bm" by (simp add: slots_bitmap_mpmc_init_def Let_def)
  have one: "slots_bitmap_mpmc_calculate_shard_count 2 = 1"
    by (simp add: slots_bitmap_mpmc_calculate_shard_count_def SHARD_SIZE_def)
  have "run (slots_exec 1) [Acquire, Acquire, Release 0, Next_used 0, Acquire] {}
      = Some ([Slot (Some 0), Slot (Some 1), Released, Slot (Some 1), Slot (Some 0)], {0, 1})"
    by (simp add: lowest_free_def upt_rec insert_commute)
  with bitmap_is_set [OF bm, of "[Acquire, Acquire, Release 0, Next_used 0, Acquire]"] bm one
  show ?thesis by fastforce
qed


section \<open>Concurrent threads on one shard\<close>

text \<open>
  Any number of threads acquire and release slots of one shard. An acquisition loads the shard
  and picks its lowest free bit, loads the shard again and sets the bit in what it has now
  loaded, and then swaps the new value in if the shard still has the value of the first load. A
  release loads the shard and swaps in the value with its bit cleared. A thread whose swap fails
  starts over. The test of the counter only decides which shards a thread tries, so it does not
  appear.
\<close>

datatype shard_pc = Shard_idle | Acquire_loaded u64 nat | Acquire_swap u64 nat u64 | Release_swap u64 nat

record shard_state =
  shard :: u64
  pc :: "nat \<Rightarrow> shard_pc"
  held :: "nat \<Rightarrow> nat set"

inductive acquire_step :: "shard_state \<Rightarrow> shard_state \<Rightarrow> bool" where
  acquire_load: "pc s t = Shard_idle \<Longrightarrow> b = shard_find_first_zero (shard s) \<Longrightarrow> b \<noteq> 255
    \<Longrightarrow> acquire_step s (s\<lparr>pc := (pc s)(t := Acquire_loaded (shard s) (unat b))\<rparr>)"
| acquire_reload: "pc s t = Acquire_loaded v b
    \<Longrightarrow> acquire_step s (s\<lparr>pc := (pc s)(t := Acquire_swap v b (set_slot (shard s) b))\<rparr>)"
| acquire_done: "pc s t = Acquire_swap v b w \<Longrightarrow> shard s = v
    \<Longrightarrow> acquire_step s (s\<lparr>shard := w, pc := (pc s)(t := Shard_idle),
          held := (held s)(t := insert b (held s t))\<rparr>)"
| acquire_failed: "pc s t = Acquire_swap v b w \<Longrightarrow> shard s \<noteq> v
    \<Longrightarrow> acquire_step s (s\<lparr>pc := (pc s)(t := Shard_idle)\<rparr>)"

inductive release_step :: "shard_state \<Rightarrow> shard_state \<Rightarrow> bool" where
  release_load: "pc s t = Shard_idle \<Longrightarrow> b \<in> held s t \<Longrightarrow> bit (shard s) b
    \<Longrightarrow> release_step s (s\<lparr>pc := (pc s)(t := Release_swap (shard s) b)\<rparr>)"
| release_done: "pc s t = Release_swap v b \<Longrightarrow> shard s = v
    \<Longrightarrow> release_step s (s\<lparr>shard := clear_slot v b, pc := (pc s)(t := Shard_idle),
          held := (held s)(t := held s t - {b})\<rparr>)"
| release_failed: "pc s t = Release_swap v b \<Longrightarrow> shard s \<noteq> v
    \<Longrightarrow> release_step s (s\<lparr>pc := (pc s)(t := Shard_idle)\<rparr>)"

definition shard_step :: "shard_state \<Rightarrow> shard_state \<Rightarrow> bool" where
  "shard_step s s' \<longleftrightarrow> acquire_step s s' \<or> release_step s s'"

definition shard_init :: "shard_state \<Rightarrow> bool" where
  "shard_init s \<longleftrightarrow> shard s = 0 \<and> (\<forall>t. pc s t = Shard_idle) \<and> (\<forall>t. held s t = {})"

fun pc_ok :: "u64 \<Rightarrow> shard_pc \<Rightarrow> bool" where
  "pc_ok x (Acquire_loaded v b) \<longleftrightarrow> used_bits v \<subseteq> used_bits x \<and> b < 64 \<and> b \<notin> used_bits v"
| "pc_ok x (Acquire_swap v b w) \<longleftrightarrow> b < 64 \<and> b \<notin> used_bits v
     \<and> (\<exists>y. w = set_slot y b \<and> used_bits v \<subseteq> used_bits y \<and> used_bits y \<subseteq> used_bits x)"
| "pc_ok x _ \<longleftrightarrow> True"

definition shard_inv :: "shard_state \<Rightarrow> bool" where
  "shard_inv s \<longleftrightarrow> (\<forall>t. held s t \<subseteq> used_bits (shard s)) \<and> (\<forall>t. pc_ok (shard s) (pc s t))
     \<and> (\<forall>t u. t \<noteq> u \<longrightarrow> held s t \<inter> held s u = {})"

lemma used_bits_eq: "used_bits x = used_bits y \<Longrightarrow> x = y"
  by (rule bit_word_eqI) (auto simp: used_bits_def)

lemma pc_ok_mono: "pc_ok x p \<Longrightarrow> used_bits x \<subseteq> used_bits y \<Longrightarrow> pc_ok y p"
  by (cases p) auto

lemma shard_inv_acquire:
  assumes "acquire_step s s'" and inv: "shard_inv s"
  shows "shard_inv s'"
  using assms(1)
proof cases
  case (acquire_load t b)
  then have "shard s \<noteq> -1" using find_first_zero_full by auto
  from find_first_zero_less [OF this] find_first_zero_bit(1) [OF this] acquire_load inv
  show ?thesis by (auto simp: shard_inv_def used_bits_def)
next
  case (acquire_reload t v b)
  then have ok: "pc_ok (shard s) (Acquire_loaded v b)" using inv by (metis shard_inv_def)
  then have "pc_ok (shard s) (Acquire_swap v b (set_slot (shard s) b))" by auto
  with acquire_reload inv show ?thesis by (simp add: shard_inv_def)
next
  case (acquire_done t v b w)
  then have "pc_ok (shard s) (Acquire_swap v b w)" using inv by (metis shard_inv_def)
  with acquire_done obtain y where b: "b < 64" "b \<notin> used_bits (shard s)" and w: "w = set_slot y b"
    and y: "used_bits y = used_bits (shard s)" by auto
  then have used: "used_bits w = insert b (used_bits (shard s))" by (simp add: used_bits_set)
  then have "pc_ok w (pc s u)" for u
    using inv by (auto simp: shard_inv_def intro: pc_ok_mono)
  moreover have "b \<notin> held s u" for u using inv b by (auto simp: shard_inv_def)
  ultimately show ?thesis
    using acquire_done(1) inv used by (auto simp: shard_inv_def)
next
  case (acquire_failed t v b w)
  with inv show ?thesis by (simp add: shard_inv_def)
qed

lemma shard_inv_init: "shard_init s \<Longrightarrow> shard_inv s"
  by (simp add: shard_init_def shard_inv_def)

interpretation shard: inductive_invariant shard_init acquire_step shard_inv
  by unfold_locales (auto intro: shard_inv_init shard_inv_acquire)

text \<open>
  C26: While threads only acquire slots of a shard, no slot is handed out twice, in any
  interleaving of their loads and swaps, and every slot that a thread holds is marked in the
  shard.
\<close>

theorem acquired_slots_exclusive:
  assumes "reachable shard_init acquire_step s" and "t \<noteq> u"
  shows "held s t \<inter> held s u = {} \<and> held s t \<subseteq> used_bits (shard s)"
  using shard.inv_reachable [OF assms(1)] assms(2) by (simp add: shard_inv_def)


lemma first_zero_at:
  assumes "\<not> bit v b" and "\<And>j. j < b \<Longrightarrow> bit v j" and "b < 64"
  shows "unat (shard_find_first_zero v) = b" and "shard_find_first_zero v \<noteq> 255"
proof -
  have nv: "v \<noteq> -1" using assms(1,3) by auto
  have "ctz (NOT v) = b" using assms by (intro ctz_eqI) (auto simp: bit_not_iff)
  then show "unat (shard_find_first_zero v) = b" by (simp add: find_first_zero_free [OF nv])
  with assms(3) show "shard_find_first_zero v \<noteq> 255" by auto
qed

text \<open>An acquisition and a release that no other thread interrupts.\<close>

lemma acquire_alone:
  assumes step: "\<And>s s'. acquire_step s s' \<Longrightarrow> step s s'"
    and r: "reachable init step s" and idle: "pc s t = Shard_idle"
    and b: "\<not> bit (shard s) b" "\<And>j. j < b \<Longrightarrow> bit (shard s) j" "b < 64"
  shows "reachable init step
    (s\<lparr>shard := set_slot (shard s) b, held := (held s)(t := insert b (held s t))\<rparr>)"
proof -
  note z = first_zero_at [OF b]
  let ?s1 = "s\<lparr>pc := (pc s)(t := Acquire_loaded (shard s) b)\<rparr>"
  have "acquire_step s ?s1" using acquire_load [OF idle refl z(2)] z(1) by simp
  then have r1: "reachable init step ?s1" by (intro reachable_step [OF r] step)
  let ?s2 = "?s1\<lparr>pc := (pc ?s1)(t := Acquire_swap (shard s) b (set_slot (shard ?s1) b))\<rparr>"
  have "acquire_step ?s1 ?s2" by (rule acquire_reload) simp
  then have r2: "reachable init step ?s2" by (intro reachable_step [OF r1] step)
  let ?s3 = "?s2\<lparr>shard := set_slot (shard ?s1) b, pc := (pc ?s2)(t := Shard_idle),
    held := (held ?s2)(t := insert b (held ?s2 t))\<rparr>"
  have "acquire_step ?s2 ?s3" by (rule acquire_done) simp_all
  then have "reachable init step ?s3" by (intro reachable_step [OF r2] step)
  moreover have "?s3 = s\<lparr>shard := set_slot (shard s) b, held := (held s)(t := insert b (held s t))\<rparr>"
    using idle by (simp add: fun_upd_idem)
  ultimately show ?thesis by simp
qed

lemma release_alone:
  assumes r: "reachable shard_init shard_step s" and idle: "pc s t = Shard_idle"
    and b: "b \<in> held s t" "bit (shard s) b"
  shows "reachable shard_init shard_step
    (s\<lparr>shard := clear_slot (shard s) b, held := (held s)(t := held s t - {b})\<rparr>)"
proof -
  let ?s1 = "s\<lparr>pc := (pc s)(t := Release_swap (shard s) b)\<rparr>"
  have "release_step s ?s1" by (rule release_load [OF idle b])
  then have r1: "reachable shard_init shard_step ?s1" by (intro reachable_step [OF r]) (simp add: shard_step_def)
  let ?s2 = "?s1\<lparr>shard := clear_slot (shard s) b, pc := (pc ?s1)(t := Shard_idle),
    held := (held ?s1)(t := held ?s1 t - {b})\<rparr>"
  have "release_step ?s1 ?s2" by (rule release_done) simp_all
  then have "reachable shard_init shard_step ?s2" by (intro reachable_step [OF r1]) (simp add: shard_step_def)
  moreover have "?s2 = s\<lparr>shard := clear_slot (shard s) b, held := (held s)(t := held s t - {b})\<rparr>"
    using idle by (simp add: fun_upd_idem)
  ultimately show ?thesis by simp
qed

theorem acquired_slots_exclusive_witness:
  "\<exists>s. reachable shard_init acquire_step s \<and> held s 1 = {0} \<and> held s 1 \<inter> held s 2 = {}
    \<and> held s 1 \<subseteq> used_bits (shard s)"
proof -
  define s0 where "s0 = \<lparr>shard = 0, pc = \<lambda>_. Shard_idle, held = \<lambda>_. {}\<rparr>"
  have "reachable shard_init acquire_step s0"
    by (rule reachable_init) (simp add: shard_init_def s0_def)
  then have r: "reachable shard_init acquire_step
      (s0\<lparr>shard := set_slot (shard s0) 0, held := (held s0)(1 := insert 0 (held s0 1))\<rparr>)"
    by (rule acquire_alone [rotated]) (simp_all add: s0_def)
  show ?thesis
    by (intro exI conjI, rule r) (use acquired_slots_exclusive [OF r, of 1 2] in \<open>simp_all add: s0_def\<close>)
qed

text \<open>
  C27: Releases break the exclusion: because an acquisition loads the shard twice and the swap
  compares with the first value only, a slot that is released and acquired again in between is
  lost from the shard, and the next thread is given a slot that another thread holds.
\<close>

theorem release_race_gives_slot_twice:
  "\<exists>s. reachable shard_init shard_step s \<and> 0 \<in> held s 1 \<and> 0 \<in> held s 2"
proof -
  define hs :: "nat set \<Rightarrow> nat set \<Rightarrow> nat set \<Rightarrow> nat \<Rightarrow> nat set" where
    "hs h0 h1 h2 = (\<lambda>_. {})(0 := h0, 1 := h1, 2 := h2)" for h0 h1 h2
  define st where "st v p h0 h1 h2 = \<lparr>shard = v, pc = (\<lambda>_. Shard_idle)(0 := p), held = hs h0 h1 h2\<rparr>"
    for v p h0 h1 h2
  have hs: "(hs h0 h1 h2)(0 := x) = hs x h1 h2" "(hs h0 h1 h2)(Suc 0 := x) = hs h0 x h2"
    "(hs h0 h1 h2)(2 := x) = hs h0 h1 x" "hs h0 h1 h2 0 = h0" "hs h0 h1 h2 (Suc 0) = h1" "hs h0 h1 h2 2 = h2"
    for h0 h1 h2 x by (auto simp: hs_def fun_eq_iff)
  let ?R = "reachable shard_init shard_step"
  have acq: "acquire_step s s' \<Longrightarrow> shard_step s s'" for s s' by (simp add: shard_step_def)
  have slots: "set_slot 0 0 = 1" "clear_slot 1 0 = 0" "set_slot 0 (Suc 0) = 2" "set_slot 2 0 = 3"
    by (simp_all add: set_slot_def clear_slot_def)
  have "?R (st 0 Shard_idle {} {} {})"
    by (rule reachable_init) (simp add: shard_init_def st_def hs_def)
  from acquire_alone [OF acq this, of 1 0] have "?R (st 1 Shard_idle {} {0} {})"
    by (simp add: st_def slots hs)
  moreover have "acquire_step (st 1 Shard_idle {} {0} {}) (st 1 (Acquire_loaded 1 1) {} {0} {})"
    using acquire_load [of "st 1 Shard_idle {} {0} {}" 0, OF _ refl] first_zero_at [of 1 1]
    by (simp add: st_def)
  ultimately have "?R (st 1 (Acquire_loaded 1 1) {} {0} {})" by (blast intro: reachable_step acq)
  from release_alone [OF this, of 1 0] have "?R (st 0 (Acquire_loaded 1 1) {} {} {})"
    by (simp add: st_def slots hs)
  moreover have "acquire_step (st 0 (Acquire_loaded 1 1) {} {} {}) (st 0 (Acquire_swap 1 1 2) {} {} {})"
    using acquire_reload [of "st 0 (Acquire_loaded 1 1) {} {} {}" 0 1 1] by (simp add: st_def slots)
  ultimately have "?R (st 0 (Acquire_swap 1 1 2) {} {} {})" by (blast intro: reachable_step acq)
  from acquire_alone [OF acq this, of 1 0] have "?R (st 1 (Acquire_swap 1 1 2) {} {0} {})"
    by (simp add: st_def slots hs)
  moreover have "acquire_step (st 1 (Acquire_swap 1 1 2) {} {0} {}) (st 2 Shard_idle {1} {0} {})"
    using acquire_done [of "st 1 (Acquire_swap 1 1 2) {} {0} {}" 0 1 1 2] by (simp add: st_def hs)
  ultimately have "?R (st 2 Shard_idle {1} {0} {})" by (blast intro: reachable_step acq)
  from acquire_alone [OF acq this, of 2 0] have "?R (st 3 Shard_idle {1} {0} {0})"
    by (simp add: st_def slots hs)
  then show ?thesis by (intro exI [of _ "st 3 Shard_idle {1} {0} {0}"]) (simp add: st_def hs)
qed

end
