(* ===== verification/Slots_Bitmap_Spsc.thy ===== *)
theory Slots_Bitmap_Spsc
  imports Slots_Bitmap
begin

text \<open>
  The bitmap of \<open>data_structures/slots_bitmap_spsc\<close>, used by one thread: it keeps a bit per full
  shard, eight to a word, and refines a set of slots under the contract that only used slots are
  released.
\<close>

record slots_bitmap_spsc =
  bm_size :: nat
  shards_count :: nat
  shards :: "u64 list"
  shards_used_slots :: "u8 list"
  shards_full :: "u64 list"

definition FULL_SIZE :: nat where "FULL_SIZE = 8"

definition slots_bitmap_spsc_calculate_shard_count :: "nat \<Rightarrow> nat" where
  "slots_bitmap_spsc_calculate_shard_count sz = (sz + (SHARD_SIZE - 1)) div SHARD_SIZE"

definition slots_bitmap_spsc_calculate_shard_full_count :: "nat \<Rightarrow> nat" where
  "slots_bitmap_spsc_calculate_shard_full_count n = (n + (FULL_SIZE - 1)) div FULL_SIZE"

definition slots_bitmap_spsc_init :: "nat \<Rightarrow> slots_bitmap_spsc option" where
  "slots_bitmap_spsc_init sz =
     (if sz = 0 then None
      else let n = slots_bitmap_spsc_calculate_shard_count sz
           in Some \<lparr>bm_size = n * SHARD_SIZE, shards_count = n, shards = replicate n 0,
                shards_used_slots = replicate n 0,
                shards_full = replicate (slots_bitmap_spsc_calculate_shard_full_count n) 0\<rparr>)"

definition slots_bitmap_spsc_set_shard_full_bit :: "nat \<Rightarrow> bool \<Rightarrow> slots_bitmap_spsc \<Rightarrow> slots_bitmap_spsc" where
  "slots_bitmap_spsc_set_shard_full_bit shard_index full bm =
     (let i = shard_index div FULL_SIZE; b = shard_index mod FULL_SIZE; v = shards_full bm ! i
      in bm\<lparr>shards_full := (shards_full bm)[i := (if full then v OR push_bit b 1 else v AND NOT (push_bit b 1))]\<rparr>)"

definition slots_bitmap_spsc_is_shard_full :: "slots_bitmap_spsc \<Rightarrow> nat \<Rightarrow> bool" where
  "slots_bitmap_spsc_is_shard_full bm shard_index \<longleftrightarrow>
     drop_bit (shard_index mod FULL_SIZE) (shards_full bm ! (shard_index div FULL_SIZE)) AND 1 \<noteq> 0"

text \<open>
  The search from a shard on; \<open>None\<close> is the failed assertion that a shard which is not full has a
  free bit.
\<close>

function next_available_spsc :: "slots_bitmap_spsc \<Rightarrow> nat \<Rightarrow> (nat option \<times> slots_bitmap_spsc) option" where
  "next_available_spsc bm shard_index =
     (if shard_index < shards_count bm then
        if slots_bitmap_spsc_is_shard_full bm shard_index then next_available_spsc bm (Suc shard_index)
        else
          let b = shard_find_first_zero (shards bm ! shard_index);
              bm1 = bm\<lparr>shards_used_slots := (shards_used_slots bm)[shard_index := shards_used_slots bm ! shard_index + 1]\<rparr>;
              bm2 = bm1\<lparr>shards := (shards bm)[shard_index := set_slot (shards bm ! shard_index) (unat b)]\<rparr>
          in if b = 255 then None
             else Some (Some (shard_index * SHARD_SIZE + unat b),
               if unat (shards_used_slots bm2 ! shard_index) = SHARD_SIZE
               then slots_bitmap_spsc_set_shard_full_bit shard_index True bm2 else bm2)
      else Some (None, bm))"
  by pat_completeness auto
termination
  by (relation "measure (\<lambda>(bm, i). shards_count bm - i)") auto

declare next_available_spsc.simps [simp del]

definition slots_bitmap_spsc_get_next_available ::
  "slots_bitmap_spsc \<Rightarrow> (nat option \<times> slots_bitmap_spsc) option" where
  "slots_bitmap_spsc_get_next_available bm = next_available_spsc bm 0"

definition slots_bitmap_spsc_release :: "nat \<Rightarrow> slots_bitmap_spsc \<Rightarrow> slots_bitmap_spsc" where
  "slots_bitmap_spsc_release index bm =
     (let shard_index = (index div SHARD_SIZE) mod 2 ^ 16; b = index mod SHARD_SIZE;
          bm = bm\<lparr>shards_used_slots := (shards_used_slots bm)[shard_index := shards_used_slots bm ! shard_index - 1]\<rparr>;
          bm = slots_bitmap_spsc_set_shard_full_bit shard_index False bm
      in bm\<lparr>shards := (shards bm)[shard_index := clear_slot (shards bm ! shard_index) b]\<rparr>)"

section \<open>The bitmap refines a set of slots\<close>

definition spsc_is :: "nat \<Rightarrow> slots_bitmap_spsc \<Rightarrow> nat set \<Rightarrow> bool" where
  "spsc_is n bm S \<longleftrightarrow> shards_count bm = n \<and> n \<le> 2 ^ 16 \<and> length (shards bm) = n
     \<and> length (shards_used_slots bm) = n \<and> n \<le> length (shards_full bm) * 8
     \<and> (\<forall>i < n. unat (shards_used_slots bm ! i) = card (used_bits (shards bm ! i)))
     \<and> (\<forall>i < n. slots_bitmap_spsc_is_shard_full bm i \<longleftrightarrow> shards bm ! i = -1)
     \<and> S = used_slots (shards bm)"

lemma drop_bit_and_1: "drop_bit b v AND 1 \<noteq> 0 \<longleftrightarrow> bit (v :: u64) b"
  by (simp add: bit_iff_odd_drop_bit and_one_eq even_iff_mod_2_eq_zero)

lemma full_bit_iff:
  "slots_bitmap_spsc_is_shard_full bm i \<longleftrightarrow> bit (shards_full bm ! (i div 8)) (i mod 8)"
  by (simp add: slots_bitmap_spsc_is_shard_full_def drop_bit_and_1 FULL_SIZE_def)

lemma set_full_bit_iff:
  assumes "i < length (shards_full bm) * 8"
  shows "slots_bitmap_spsc_is_shard_full (slots_bitmap_spsc_set_shard_full_bit i f bm) j
    \<longleftrightarrow> (if j = i then f else slots_bitmap_spsc_is_shard_full bm j)"
proof -
  have i: "i div 8 < length (shards_full bm)" using assms by (simp add: less_mult_imp_div_less)
  have eq: "j = i \<longleftrightarrow> j div 8 = i div 8 \<and> j mod 8 = i mod 8"
    by (metis div_mult_mod_eq)
  have "i mod 8 < 64" by (rule less_trans [OF mod_less_divisor]) simp_all
  then show ?thesis
    using i by (cases "j div 8 = i div 8")
      (auto simp: full_bit_iff slots_bitmap_spsc_set_shard_full_bit_def Let_def FULL_SIZE_def eq bit_simps)
qed

lemma set_full_bit_sel [simp]:
  "shards (slots_bitmap_spsc_set_shard_full_bit i f bm) = shards bm"
  "shards_count (slots_bitmap_spsc_set_shard_full_bit i f bm) = shards_count bm"
  "shards_used_slots (slots_bitmap_spsc_set_shard_full_bit i f bm) = shards_used_slots bm"
  "length (shards_full (slots_bitmap_spsc_set_shard_full_bit i f bm)) = length (shards_full bm)"
  by (simp_all add: slots_bitmap_spsc_set_shard_full_bit_def Let_def)

lemma full_bit_cong:
  "shards_full bm' = shards_full bm
    \<Longrightarrow> slots_bitmap_spsc_is_shard_full bm' i = slots_bitmap_spsc_is_shard_full bm i"
  by (simp add: full_bit_iff)


lemma spsc_init_is:
  assumes "slots_bitmap_spsc_init sz = Some bm" and "sz \<le> 2 ^ 22"
  shows "spsc_is (slots_bitmap_spsc_calculate_shard_count sz) bm {}"
proof -
  define n where "n = slots_bitmap_spsc_calculate_shard_count sz"
  have n: "n \<le> 2 ^ 16"
    using assms(2) by (simp add: n_def slots_bitmap_spsc_calculate_shard_count_def SHARD_SIZE_def)
  have full: "n \<le> slots_bitmap_spsc_calculate_shard_full_count n * 8"
    using div_mult_mod_eq [of "n + 7" 8] mod_less_divisor [of 8 "n + 7"]
    unfolding slots_bitmap_spsc_calculate_shard_full_count_def FULL_SIZE_def by simp
  have bm: "shards_count bm = n" "shards bm = replicate n 0" "shards_used_slots bm = replicate n 0"
    "shards_full bm = replicate (slots_bitmap_spsc_calculate_shard_full_count n) 0"
    using assms(1) by (auto simp: slots_bitmap_spsc_init_def n_def Let_def split: if_splits)
  have "\<not> slots_bitmap_spsc_is_shard_full bm i" if "i < n" for i
    using that full by (simp add: full_bit_iff bm less_mult_imp_div_less)
  with n full show ?thesis
    unfolding n_def [symmetric] spsc_is_def bm by (auto simp: used_slots_def)
qed

lemma spsc_acquire_is:
  assumes bm: "spsc_is n bm S" and i: "i < n" and b: "b < 64" "\<not> bit (shards bm ! i) b"
  defines "bm1 \<equiv> bm\<lparr>shards_used_slots := (shards_used_slots bm)[i := shards_used_slots bm ! i + 1],
    shards := (shards bm)[i := set_slot (shards bm ! i) b]\<rparr>"
  shows "spsc_is n (if unat (shards_used_slots bm1 ! i) = SHARD_SIZE
    then slots_bitmap_spsc_set_shard_full_bit i True bm1 else bm1) (insert (i * 64 + b) S)"
    (is "spsc_is n ?bm2 _")
proof -
  have len: "i < length (shards bm)" "i < length (shards_used_slots bm)" "i < length (shards_full bm) * 8"
    using bm i by (auto simp: spsc_is_def)
  have c: "card (used_bits (set_slot (shards bm ! i) b)) = Suc (card (used_bits (shards bm ! i)))"
    using b by (simp add: used_bits_set) (simp add: used_bits_def)
  then have "card (used_bits (shards bm ! i)) < 64"
    using card_used_bits_le [of "set_slot (shards bm ! i) b"] by simp
  then have u: "unat (shards_used_slots bm ! i + 1) = card (used_bits (set_slot (shards bm ! i) b))"
    using bm i c by (subst unat_add_one) (auto simp: spsc_is_def)
  have was: "\<not> slots_bitmap_spsc_is_shard_full bm i" using bm i b by (auto simp: spsc_is_def)
  have full: "slots_bitmap_spsc_is_shard_full ?bm2 j
      \<longleftrightarrow> (if j = i then set_slot (shards bm ! i) b = -1 else slots_bitmap_spsc_is_shard_full bm j)" for j
    using was len u card_used_bits_full [of "set_slot (shards bm ! i) b"]
    by (auto simp: set_full_bit_iff bm1_def SHARD_SIZE_def full_bit_cong [of bm1 bm] cong: full_bit_cong)
  have sel: "shards_count ?bm2 = shards_count bm" "shards ?bm2 = (shards bm)[i := set_slot (shards bm ! i) b]"
    "shards_used_slots ?bm2 = (shards_used_slots bm)[i := shards_used_slots bm ! i + 1]"
    "length (shards_full ?bm2) = length (shards_full bm)"
    by (simp_all add: bm1_def)
  show ?thesis
    unfolding spsc_is_def full sel
    using bm i u len b used_slots_set [OF len(1) b(1)] by (auto simp: spsc_is_def nth_list_update)
qed


lemma next_available_spsc_spec:
  assumes bm: "spsc_is n bm S" and below: "\<And>j. j < i * 64 \<Longrightarrow> j \<in> S" and "i \<le> n"
  shows "\<exists>bm'. next_available_spsc bm i = Some (lowest_free n S, bm')
    \<and> spsc_is n bm' (case lowest_free n S of None \<Rightarrow> S | Some m \<Rightarrow> insert m S)"
  using below assms(3)
proof (induction "n - i" arbitrary: i)
  case 0
  then have "i = n" by simp
  then have "lowest_free n S = None"
    using 0 by (auto simp: lowest_free_def find_None_iff)
  moreover have "next_available_spsc bm i = Some (None, bm)"
    using \<open>i = n\<close> bm by (subst next_available_spsc.simps) (simp add: spsc_is_def)
  ultimately show ?case using bm by simp
next
  case (Suc d)
  then have i: "i < n" "i < shards_count bm" "i < length (shards bm)" using bm by (auto simp: spsc_is_def)
  let ?v = "shards bm ! i"
  have S: "S = used_slots (shards bm)" using bm by (simp add: spsc_is_def)
  have full: "slots_bitmap_spsc_is_shard_full bm i \<longleftrightarrow> ?v = -1" using bm i by (simp add: spsc_is_def)
  show ?case
  proof (cases "?v = -1")
    case True
    have "j \<in> S" if "j < Suc i * 64" for j
    proof (cases "j < i * 64")
      case False
      then have "j div 64 = i" using that by simp
      moreover have "bit ?v (j mod 64)" using True by simp
      ultimately show ?thesis using i by (simp add: S used_slots_def)
    qed (use Suc.prems in simp)
    moreover have "next_available_spsc bm i = next_available_spsc bm (Suc i)"
      using True i full by (subst next_available_spsc.simps) simp
    ultimately show ?thesis using Suc.hyps(1) [of "Suc i"] Suc.hyps(2) i by simp
  next
    case False
    let ?b = "unat (shard_find_first_zero ?v)"
    have b: "?b < 64" "\<not> bit ?v ?b" "\<And>j. j < ?b \<Longrightarrow> bit ?v j"
      using find_first_zero_less [OF False] find_first_zero_bit [OF False] by auto
    then have n255: "shard_find_first_zero ?v \<noteq> 255" by auto
    have "lowest_free n S = Some (i * 64 + ?b)"
      unfolding S using i(3) b Suc.prems(1) i(1) by (intro lowest_free_in_shard) (auto simp: S)
    moreover have "next_available_spsc bm i = Some (Some (i * 64 + ?b),
        let bm1 = bm\<lparr>shards_used_slots := (shards_used_slots bm)[i := shards_used_slots bm ! i + 1],
          shards := (shards bm)[i := set_slot ?v ?b]\<rparr>
        in if unat (shards_used_slots bm1 ! i) = SHARD_SIZE
           then slots_bitmap_spsc_set_shard_full_bit i True bm1 else bm1)"
      using False i full n255
      by (subst next_available_spsc.simps) (simp add: Let_def SHARD_SIZE_def)
    ultimately show ?thesis using spsc_acquire_is [OF bm i(1) b(1,2)] by (simp add: Let_def)
  qed
qed

lemma spsc_release_is:
  assumes bm: "spsc_is n bm S" and x: "x \<in> S"
  shows "spsc_is n (slots_bitmap_spsc_release x bm) (S - {x})"
proof -
  define i where "i = x div 64"
  define b where "b = x mod 64"
  have S: "S = used_slots (shards bm)" using bm by (simp add: spsc_is_def)
  have i: "i < n" "i < 2 ^ 16" "i < length (shards bm)" "i < length (shards_used_slots bm)"
      "i < length (shards_full bm) * 8" and xi: "x = i * 64 + b"
    and bit: "bit (shards bm ! i) b"
    using x bm by (auto simp: i_def b_def spsc_is_def used_slots_def)
  let ?v = "shards bm ! i"
  define bm1 where "bm1 = bm\<lparr>shards_used_slots := (shards_used_slots bm)[i := shards_used_slots bm ! i - 1]\<rparr>"
  define bm2 where "bm2 = slots_bitmap_spsc_release x bm"
  have bm2: "bm2 = (slots_bitmap_spsc_set_shard_full_bit i False bm1)\<lparr>shards := (shards bm)[i := clear_slot ?v b]\<rparr>"
    using i unfolding bm2_def bm1_def slots_bitmap_spsc_release_def SHARD_SIZE_def
    by (simp add: Let_def flip: i_def b_def)
  have u: "b \<in> used_bits ?v" using bit by (simp add: used_bits_def)
  then have pos: "card (used_bits ?v) > 0" by (auto simp: card_gt_0_iff)
  have "unat (shards_used_slots bm ! i - 1) = card (used_bits (clear_slot ?v b))"
    using bm i pos u by (subst unat_sub_one) (auto simp: spsc_is_def used_bits_clear)
  moreover have "\<not> bit (clear_slot ?v b) b" using used_bits_clear [OF u] by (auto simp: used_bits_def)
  then have "clear_slot ?v b \<noteq> -1" using bit_imp_le_length [OF bit] by auto
  moreover have "slots_bitmap_spsc_is_shard_full bm2 j \<longleftrightarrow> j \<noteq> i \<and> slots_bitmap_spsc_is_shard_full bm j" for j
  proof -
    have "slots_bitmap_spsc_is_shard_full bm2 j
        = slots_bitmap_spsc_is_shard_full (slots_bitmap_spsc_set_shard_full_bit i False bm1) j"
      by (rule full_bit_cong) (simp add: bm2)
    also have "\<dots> = (j \<noteq> i \<and> slots_bitmap_spsc_is_shard_full bm1 j)"
      using i by (subst set_full_bit_iff) (auto simp: bm1_def)
    finally show ?thesis using full_bit_cong [of bm1 bm j] by (simp add: bm1_def)
  qed
  moreover have "shards_count bm2 = shards_count bm" "shards bm2 = (shards bm)[i := clear_slot ?v b]"
    "shards_used_slots bm2 = (shards_used_slots bm)[i := shards_used_slots bm ! i - 1]"
    "length (shards_full bm2) = length (shards_full bm)"
    by (simp_all add: bm2 bm1_def)
  ultimately have "spsc_is n bm2 (S - {x})"
    using bm i used_slots_clear [OF i(3) bit] unfolding spsc_is_def by (auto simp: nth_list_update xi)
  then show ?thesis by (simp add: bm2_def)
qed

fun spsc_exec :: "slots_cmd \<Rightarrow> slots_bitmap_spsc \<Rightarrow> (slots_reply \<times> slots_bitmap_spsc) option" where
  "spsc_exec Acquire bm = map_option (apfst Slot) (slots_bitmap_spsc_get_next_available bm)"
| "spsc_exec (Release i) bm = Some (Released, slots_bitmap_spsc_release i bm)"
| "spsc_exec (Next_used i) bm = None"

text \<open>The commands this bitmap has, under its contract.\<close>

fun used_slots_exec :: "nat \<Rightarrow> slots_cmd \<Rightarrow> nat set \<Rightarrow> (slots_reply \<times> nat set) option" where
  "used_slots_exec n Acquire S = slots_exec n Acquire S"
| "used_slots_exec n (Release i) S = (if i \<in> S then Some (Released, S - {i}) else None)"
| "used_slots_exec n (Next_used i) S = None"

interpretation spsc_bitmap: simulation "spsc_is n" spsc_exec "used_slots_exec n"
proof
  fix bm S c r S'
  assume bm: "spsc_is n bm S" and spec: "used_slots_exec n c S = Some (r, S')"
  show "\<exists>bm'. spsc_exec c bm = Some (r, bm') \<and> spsc_is n bm' S'"
  proof (cases c)
    case Acquire
    with spec next_available_spsc_spec [OF bm, of 0] show ?thesis
      by (auto simp: slots_bitmap_spsc_get_next_available_def)
  next
    case (Release i)
    with spec spsc_release_is [OF bm, of i] show ?thesis by (auto split: if_splits)
  next
    case (Next_used i)
    with spec show ?thesis by simp
  qed
qed

text \<open>
  C29: A new single threaded bitmap refines a set of slots as long as only used slots are released:
  every acquisition returns the lowest free slot, or none when all are used, and the bits for
  full shards never hide a free slot nor let the assertion of the search fail.
\<close>

theorem spsc_bitmap_is_set:
  assumes "slots_bitmap_spsc_init sz = Some bm" and "sz \<le> 2 ^ 22"
    and "run (used_slots_exec (slots_bitmap_spsc_calculate_shard_count sz)) cs {} = Some (rs, S)"
  shows "\<exists>bm'. run spsc_exec cs bm = Some (rs, bm') \<and> used_slots (shards bm') = S"
  using spsc_bitmap.run_refines [OF spsc_init_is [OF assms(1,2)] assms(3)] by (auto simp: spsc_is_def)

theorem spsc_bitmap_is_set_witness:
  "\<exists>bm bm'. slots_bitmap_spsc_init 2 = Some bm
    \<and> run spsc_exec [Acquire, Acquire, Release 0, Acquire] bm
      = Some ([Slot (Some 0), Slot (Some 1), Released, Slot (Some 0)], bm')
    \<and> used_slots (shards bm') = {0, 1}"
proof -
  obtain bm where bm: "slots_bitmap_spsc_init 2 = Some bm" by (simp add: slots_bitmap_spsc_init_def Let_def)
  have one: "slots_bitmap_spsc_calculate_shard_count 2 = 1"
    by (simp add: slots_bitmap_spsc_calculate_shard_count_def SHARD_SIZE_def)
  have "run (used_slots_exec 1) [Acquire, Acquire, Release 0, Acquire] {}
      = Some ([Slot (Some 0), Slot (Some 1), Released, Slot (Some 0)], {0, 1})"
    by (simp add: lowest_free_def upt_rec insert_commute)
  with spsc_bitmap_is_set [OF bm, of "[Acquire, Acquire, Release 0, Acquire]"] bm one
  show ?thesis by fastforce
qed

end
