(* ===== verification/Eviction_Sort.thy ===== *)
theory Eviction_Sort
  imports Prelude "HOL-Library.Multiset"
begin

text \<open>
  The sort of the eviction candidates in \<open>src/src/storage/db/storage_db.c\<close>: a bitonic
  sorting network over an array of 64 entries, three nested loops that compare and exchange in
  place. It is shown to sort every array of a power of two entries, the 64 of the code included.
  The proof looks at the array through a threshold, which turns it into a sequence of truth
  values, where a bitonic sequence is an interval or the complement of one.
\<close>

section \<open>The code\<close>

record storage_db_keys_eviction_kv_list_entry =
  kv_value :: u64
  kv_key :: u64

type_synonym kv_list = "storage_db_keys_eviction_kv_list_entry list"

definition EVICTION_ARRAY_LENGTH :: nat where
  "EVICTION_ARRAY_LENGTH = 64"

definition bitonic_sort_exchange :: "kv_list \<Rightarrow> nat \<Rightarrow> nat \<Rightarrow> kv_list" where
  "bitonic_sort_exchange kv i j = (let t = kv ! i; kv1 = kv[i := kv ! j] in kv1[j := t])"

text \<open>The body of the innermost loop.\<close>

definition bitonic_compare :: "nat \<Rightarrow> nat \<Rightarrow> nat \<Rightarrow> kv_list \<Rightarrow> kv_list" where
  "bitonic_compare k j i kv =
     (let ij = i XOR j in
      if i < ij then
        let kv1 = (if i AND k = 0 \<and> kv_key (kv ! ij) < kv_key (kv ! i)
                   then bitonic_sort_exchange kv i ij else kv)
        in (if i AND k \<noteq> 0 \<and> kv_key (kv1 ! i) < kv_key (kv1 ! ij)
            then bitonic_sort_exchange kv1 i ij else kv1)
      else kv)"

definition bitonic_loop_i :: "nat \<Rightarrow> nat \<Rightarrow> nat \<Rightarrow> kv_list \<Rightarrow> kv_list" where
  "bitonic_loop_i array_length k j kv = fold (bitonic_compare k j) [0..<array_length] kv"

fun bitonic_loop_j :: "nat \<Rightarrow> nat \<Rightarrow> nat \<Rightarrow> kv_list \<Rightarrow> kv_list" where
  "bitonic_loop_j array_length k j kv =
     (if 0 < j then bitonic_loop_j array_length k (j div 2) (bitonic_loop_i array_length k j kv)
      else kv)"

text \<open>The outermost loop starts at 2 and doubles, so its counter is never 0.\<close>

function bitonic_loop_k :: "nat \<Rightarrow> nat \<Rightarrow> kv_list \<Rightarrow> kv_list" where
  "bitonic_loop_k array_length k kv =
     (if 0 < k \<and> k \<le> array_length
      then bitonic_loop_k array_length (2 * k) (bitonic_loop_j array_length k (k div 2) kv)
      else kv)"
  by pat_completeness auto

termination bitonic_loop_k
  by (relation "measure (\<lambda>(n, k, _). Suc n - k)") auto

definition storage_db_keys_eviction_bitonic_sort_16_elements :: "kv_list \<Rightarrow> kv_list" where
  "storage_db_keys_eviction_bitonic_sort_16_elements kv = bitonic_loop_k EVICTION_ARRAY_LENGTH 2 kv"

declare bitonic_loop_j.simps [simp del] bitonic_loop_k.simps [simp del]

section \<open>Positions\<close>

lemma and_pow2_zero: "(i::nat) AND 2 ^ p = 0 \<longleftrightarrow> \<not> bit i p"
  by (rule and_exp_eq_0_iff_not_bit)

lemma xor_pow2_up: "\<not> bit i s \<Longrightarrow> (i::nat) XOR 2 ^ s = i + 2 ^ s"
  by (rule disjunctive_add_eq_xor [symmetric]) (simp only: and_pow2_zero not_False_eq_True)

lemma xor_pow2: "(i::nat) XOR 2 ^ s = (if bit i s then i - 2 ^ s else i + 2 ^ s)"
proof (cases "bit i s")
  case True
  define x where "x = i XOR 2 ^ s"
  have "\<not> bit x s" using True by (simp add: x_def bit_xor_iff bit_exp_iff)
  then have "x XOR 2 ^ s = x + 2 ^ s" by (rule xor_pow2_up)
  moreover have "x XOR 2 ^ s = i" by (simp add: x_def xor.assoc)
  ultimately show ?thesis using True x_def by simp
qed (simp add: xor_pow2_up)

lemma bit_pow2_le: "bit (i::nat) s \<Longrightarrow> 2 ^ s \<le> i"
  using bit_nat_def [of i s] by (metis bit_nat_def div_less even_zero linorder_not_le)

lemma xor_pow2_less: "i < 2 ^ n \<Longrightarrow> s < n \<Longrightarrow> (i::nat) XOR 2 ^ s < 2 ^ n"
proof -
  assume "i < 2 ^ n" "s < n"
  then have "take_bit n i = i" "take_bit n (2 ^ s :: nat) = 2 ^ s"
    by (simp_all add: take_bit_nat_eq_self_iff)
  then have "take_bit n (i XOR 2 ^ s) = i XOR 2 ^ s" by (simp add: take_bit_xor)
  then show ?thesis by (metis take_bit_nat_less_exp)
qed

definition lower :: "nat \<Rightarrow> nat \<Rightarrow> nat" where
  "lower s i = (if bit i s then i - 2 ^ s else i)"

lemma index_split:
  fixes i :: nat
  obtains d b r where "i = d * 2 ^ Suc s + of_bool b * 2 ^ s + r" "r < 2 ^ s"
proof -
  define q where "q = i div 2 ^ s"
  have "i = q * 2 ^ s + i mod 2 ^ s" unfolding q_def by (rule div_mult_mod_eq [symmetric])
  moreover have q: "2 * (q div 2) + of_bool (odd q) = q" by (cases "odd q") simp_all
  have "(q div 2) * 2 ^ Suc s + of_bool (odd q) * 2 ^ s = (2 * (q div 2) + of_bool (odd q)) * 2 ^ s"
    by (simp only: power_Suc distrib_left distrib_right mult_ac)
  then have "q * 2 ^ s = (q div 2) * 2 ^ Suc s + of_bool (odd q) * 2 ^ s" unfolding q by simp
  ultimately have "i = (q div 2) * 2 ^ Suc s + of_bool (odd q) * 2 ^ s + i mod 2 ^ s" by simp
  then show thesis by (rule that) simp
qed

lemma split_facts:
  assumes "r < 2 ^ s"
  shows "bit (d * 2 ^ Suc s + of_bool b * 2 ^ s + r) s \<longleftrightarrow> b"
    and "lower s (d * 2 ^ Suc s + of_bool b * 2 ^ s + r) = d * 2 ^ Suc s + r"
    and "(d * 2 ^ Suc s + of_bool b * 2 ^ s + r) div 2 ^ Suc s = d"
    and "(d * 2 ^ Suc s + of_bool b * 2 ^ s + r) div 2 ^ s = 2 * d + of_bool b"
proof -
  have q: "(d * 2 ^ Suc s + of_bool b * 2 ^ s + r) div 2 ^ s = 2 * d + of_bool b"
  proof -
    have "d * 2 ^ Suc s + of_bool b * 2 ^ s + r = r + (2 * d + of_bool b) * 2 ^ s"
      by (simp add: algebra_simps)
    then show ?thesis using assms by simp
  qed
  show q': "(d * 2 ^ Suc s + of_bool b * 2 ^ s + r) div 2 ^ s = 2 * d + of_bool b" by (rule q)
  show b: "bit (d * 2 ^ Suc s + of_bool b * 2 ^ s + r) s \<longleftrightarrow> b"
    unfolding bit_nat_def q by (cases b) simp_all
  show "lower s (d * 2 ^ Suc s + of_bool b * 2 ^ s + r) = d * 2 ^ Suc s + r"
    unfolding lower_def b by (cases b) simp_all
  have "(d * 2 ^ Suc s + of_bool b * 2 ^ s + r) div 2 ^ Suc s
      = ((d * 2 ^ Suc s + of_bool b * 2 ^ s + r) div 2 ^ s) div 2"
    by (simp add: div_mult2_eq power_Suc2 del: power_Suc)
  then show "(d * 2 ^ Suc s + of_bool b * 2 ^ s + r) div 2 ^ Suc s = d"
    unfolding q by (cases b) simp_all
qed

lemma div_pow_coarser: "s \<le> p \<Longrightarrow> (x::nat) div 2 ^ s = y div 2 ^ s \<Longrightarrow> x div 2 ^ p = y div 2 ^ p"
  by (metis div_mult2_eq le_add_diff_inverse power_add)


section \<open>One pass over the array\<close>

text \<open>
  What a pass with stride \<open>2 ^ s\<close> and direction bit \<open>p\<close> does to the keys: every pair is put
  in order, ascending where bit \<open>p\<close> of the position is clear.
\<close>

definition pass :: "nat \<Rightarrow> nat \<Rightarrow> (nat \<Rightarrow> 'a::linorder) \<Rightarrow> nat \<Rightarrow> 'a" where
  "pass p s a i =
     (let l = lower s i; h = lower s i + 2 ^ s in
      if bit i s = bit i p then min (a l) (a h) else max (a l) (a h))"

definition key_at :: "kv_list \<Rightarrow> nat \<Rightarrow> u64" where
  "key_at kv i = kv_key (kv ! i)"

lemma length_exchange [simp]: "length (bitonic_sort_exchange kv i j) = length kv"
  by (simp add: bitonic_sort_exchange_def Let_def)

lemma key_at_exchange:
  "i < length kv \<Longrightarrow> j < length kv \<Longrightarrow>
    key_at (bitonic_sort_exchange kv i j) x
      = (if x = j then key_at kv i else if x = i then key_at kv j else key_at kv x)"
  by (simp add: bitonic_sort_exchange_def key_at_def Let_def nth_list_update)

lemma mset_exchange [simp]:
  "i < length kv \<Longrightarrow> j < length kv \<Longrightarrow> mset (bitonic_sort_exchange kv i j) = mset kv"
  by (simp add: bitonic_sort_exchange_def Let_def mset_swap)

lemma bit_lower [simp]: "\<not> bit (lower s i) s"
proof -
  have "lower s i = (if bit i s then i XOR 2 ^ s else i)" by (simp add: lower_def xor_pow2)
  then show ?thesis by (simp add: bit_xor_iff bit_exp_iff)
qed

lemma bit_higher:
  "s < p \<Longrightarrow> \<not> bit i s \<Longrightarrow> bit (i + 2 ^ s) p = bit i p"
  "\<not> bit i s \<Longrightarrow> bit (i + 2 ^ s) s"
  for i :: nat
  by (simp_all add: xor_pow2_up [symmetric] bit_xor_iff bit_exp_iff)

lemma bitonic_compare_effect:
  assumes len: "length kv = 2 ^ n" and s: "s < p" "s < n" and i: "i < 2 ^ n"
  shows "length (bitonic_compare (2 ^ p) (2 ^ s) i kv) = 2 ^ n"
    and "mset (bitonic_compare (2 ^ p) (2 ^ s) i kv) = mset kv"
    and "key_at (bitonic_compare (2 ^ p) (2 ^ s) i kv) x
      = (if \<not> bit i s \<and> (x = i \<or> x = i + 2 ^ s) then pass p s (key_at kv) x else key_at kv x)"
proof -
  have ij: "i + 2 ^ s < 2 ^ n" if "\<not> bit i s"
    using xor_pow2_less [OF i s(2)] xor_pow2_up [OF that] by simp
  have up: "i < i XOR 2 ^ s \<longleftrightarrow> \<not> bit i s"
    by (cases "bit i s") (simp_all add: xor_pow2 not_less)
  note defs = bitonic_compare_def Let_def up and_pow2_zero
  show "length (bitonic_compare (2 ^ p) (2 ^ s) i kv) = 2 ^ n"
    by (simp add: defs len)
  show "mset (bitonic_compare (2 ^ p) (2 ^ s) i kv) = mset kv"
    using ij i by (simp add: defs xor_pow2_up len)
  show "key_at (bitonic_compare (2 ^ p) (2 ^ s) i kv) x
      = (if \<not> bit i s \<and> (x = i \<or> x = i + 2 ^ s) then pass p s (key_at kv) x else key_at kv x)"
  proof (cases "bit i s")
    case False
    have keys: "kv_key (kv ! y) = key_at kv y" for y by (simp add: key_at_def)
    have low: "lower s i = i" "lower s (i + 2 ^ s) = i"
      using False bit_higher(2) [OF False] by (simp_all add: lower_def)
    show ?thesis
      using False ij [OF False] i bit_higher(1) [OF _ False, of p] bit_higher(2) [OF False] s(1)
      by (cases "bit i p"; cases "key_at kv i < key_at kv (i + 2 ^ s)")
        (auto simp: defs xor_pow2_up len keys key_at_exchange pass_def low min_def max_def)
  qed (simp add: defs)
qed


lemma lower_eq_iff:
  assumes "\<not> bit i s"
  shows "lower s x = i \<longleftrightarrow> x = i \<or> x = i + 2 ^ s"
proof
  assume l: "lower s x = i"
  show "x = i \<or> x = i + 2 ^ s"
    using l bit_pow2_le [of x s] by (auto simp: lower_def split: if_splits)
next
  assume "x = i \<or> x = i + 2 ^ s"
  then show "lower s x = i" using assms bit_higher(2) [OF assms] by (auto simp: lower_def)
qed

lemma pass_cong: "a (lower s i) = b (lower s i) \<Longrightarrow> a (lower s i + 2 ^ s) = b (lower s i + 2 ^ s)
    \<Longrightarrow> pass p s a i = pass p s b i"
  by (simp add: pass_def Let_def)

lemma loop_i_prefix:
  assumes len: "length kv = 2 ^ n" and s: "s < p" "s < n" and c: "c \<le> 2 ^ n"
  defines "kvc \<equiv> fold (bitonic_compare (2 ^ p) (2 ^ s)) [0..<c] kv"
  shows "length kvc = 2 ^ n \<and> mset kvc = mset kv
    \<and> (\<forall>x. key_at kvc x = (if lower s x < c then pass p s (key_at kv) x else key_at kv x))"
  using c unfolding kvc_def
proof (induction c)
  case 0
  then show ?case using len by simp
next
  case (Suc c)
  define kvc where "kvc = fold (bitonic_compare (2 ^ p) (2 ^ s)) [0..<c] kv"
  have IH: "length kvc = 2 ^ n" "mset kvc = mset kv"
    "\<And>x. key_at kvc x = (if lower s x < c then pass p s (key_at kv) x else key_at kv x)"
    using Suc unfolding kvc_def by simp_all
  have c: "c < 2 ^ n" using Suc.prems by simp
  have fold_step: "fold (bitonic_compare (2 ^ p) (2 ^ s)) [0..<Suc c] kv = bitonic_compare (2 ^ p) (2 ^ s) c kvc"
    by (simp add: kvc_def)
  note eff = bitonic_compare_effect [OF IH(1) s c]
  have "key_at (bitonic_compare (2 ^ p) (2 ^ s) c kvc) x
      = (if lower s x < Suc c then pass p s (key_at kv) x else key_at kv x)" for x
  proof (cases "\<not> bit c s \<and> lower s x = c")
    case True
    then have "pass p s (key_at kvc) x = pass p s (key_at kv) x"
      using lower_eq_iff [of c s c] lower_eq_iff [of c s "c + 2 ^ s"] by (intro pass_cong) (simp_all add: IH(3))
    then show ?thesis using True lower_eq_iff [of c s x] eff(3) [of x] by simp
  next
    case False
    moreover from False have "lower s x \<noteq> c" using bit_lower [of s x] by metis
    ultimately show ?thesis using lower_eq_iff [of c s x] eff(3) [of x] IH(3) [of x]
      by (auto simp: less_Suc_eq)
  qed
  then show ?case unfolding fold_step using eff(1,2) IH(2) by simp
qed

lemma loop_i_effect:
  assumes "length kv = 2 ^ n" "s < p" "s < n"
  shows "length (bitonic_loop_i (2 ^ n) (2 ^ p) (2 ^ s) kv) = 2 ^ n"
    and "mset (bitonic_loop_i (2 ^ n) (2 ^ p) (2 ^ s) kv) = mset kv"
    and "i < 2 ^ n \<Longrightarrow> key_at (bitonic_loop_i (2 ^ n) (2 ^ p) (2 ^ s) kv) i = pass p s (key_at kv) i"
proof -
  have "lower s i \<le> i" by (simp add: lower_def)
  then show "i < 2 ^ n \<Longrightarrow> key_at (bitonic_loop_i (2 ^ n) (2 ^ p) (2 ^ s) kv) i = pass p s (key_at kv) i"
    using loop_i_prefix [OF assms order_refl] unfolding bitonic_loop_i_def by auto
qed (use loop_i_prefix [OF assms order_refl] in \<open>simp_all add: bitonic_loop_i_def\<close>)

section \<open>Bitonic sequences of truth values\<close>

text \<open>An interval, or the complement of one.\<close>

definition bitonic :: "nat \<Rightarrow> (nat \<Rightarrow> bool) \<Rightarrow> bool" where
  "bitonic m f \<longleftrightarrow> (\<exists>c u v. \<forall>i<m. f i = (c \<noteq> (u \<le> i \<and> i < v)))"

lemma bitonicI: "(\<And>i. i < m \<Longrightarrow> f i = (c \<noteq> (u \<le> i \<and> i < v))) \<Longrightarrow> bitonic m f"
  unfolding bitonic_def by blast

lemma bitonic_cong: "(\<And>i. i < m \<Longrightarrow> f i = g i) \<Longrightarrow> bitonic m f = bitonic m g"
  by (simp add: bitonic_def)

lemma bitonic_Not: "bitonic m (\<lambda>i. \<not> f i) = bitonic m f"
proof -
  have "bitonic m (\<lambda>i. \<not> f i)" if f: "bitonic m f" for f
  proof -
    from f obtain c u v where "\<forall>i<m. f i = (c \<noteq> (u \<le> i \<and> i < v))" unfolding bitonic_def by blast
    then show ?thesis by (intro bitonicI [of _ _ "\<not> c" u v]) auto
  qed
  from this [of f] this [of "\<lambda>i. \<not> f i"] show ?thesis by auto
qed

text \<open>Comparing the halves of an interval splits it into two bitonic halves, one of them constant.\<close>

lemma half_clean_interval:
  fixes u v :: nat
  assumes f: "\<forall>i<2 * m. f i = (u \<le> i \<and> i < v)"
  shows "bitonic m (\<lambda>i. f i \<and> f (i + m))" "bitonic m (\<lambda>i. f i \<or> f (i + m))"
    and "(\<forall>i<m. \<not> (f i \<and> f (i + m))) \<or> (\<forall>i<m. f i \<or> f (i + m))"
proof -
  have f': "f i = (u \<le> i \<and> i < v)" "f (i + m) = (u \<le> i + m \<and> i + m < v)" if "i < m" for i
    using f that by simp_all
  consider "v \<le> m" | "m \<le> u" | "u < m" "m < v" by linarith
  then have "bitonic m (\<lambda>i. f i \<and> f (i + m)) \<and> bitonic m (\<lambda>i. f i \<or> f (i + m))
    \<and> ((\<forall>i<m. \<not> (f i \<and> f (i + m))) \<or> (\<forall>i<m. f i \<or> f (i + m)))"
  proof cases
    case 1
    then show ?thesis
      by (intro conjI bitonicI [of _ _ False 0 0] bitonicI [of _ _ False u v] disjI1) (auto simp: f')
  next
    case 2
    then show ?thesis
      by (intro conjI bitonicI [of _ _ False 0 0] bitonicI [of _ _ False "u - m" "v - m"] disjI1)
        (auto simp: f')
  next
    case 3
    then have "(\<forall>i<m. \<not> (f i \<and> f (i + m))) \<or> (\<forall>i<m. f i \<or> f (i + m))"
      by (cases "u \<le> v - m") (auto simp: f')
    moreover have "bitonic m (\<lambda>i. f i \<and> f (i + m))"
      using 3 by (intro bitonicI [of _ _ False u "v - m"]) (auto simp: f')
    moreover have "bitonic m (\<lambda>i. f i \<or> f (i + m))"
      using 3 by (intro bitonicI [of _ _ True "v - m" u]) (auto simp: f')
    ultimately show ?thesis by blast
  qed
  then show "bitonic m (\<lambda>i. f i \<and> f (i + m))" "bitonic m (\<lambda>i. f i \<or> f (i + m))"
    "(\<forall>i<m. \<not> (f i \<and> f (i + m))) \<or> (\<forall>i<m. f i \<or> f (i + m))" by simp_all
qed

lemma half_clean:
  assumes f: "bitonic (2 * m) f"
  shows "bitonic m (\<lambda>i. f i \<and> f (i + m))" "bitonic m (\<lambda>i. f i \<or> f (i + m))"
    and "i < m \<Longrightarrow> j < m \<Longrightarrow> f i \<and> f (i + m) \<longrightarrow> f j \<or> f (j + m)"
proof -
  obtain c u v where cuv: "\<forall>i<2 * m. f i = (c \<noteq> (u \<le> i \<and> i < v))" using f unfolding bitonic_def by blast
  have "bitonic m (\<lambda>i. f i \<and> f (i + m)) \<and> bitonic m (\<lambda>i. f i \<or> f (i + m))
    \<and> ((\<forall>i<m. \<not> (f i \<and> f (i + m))) \<or> (\<forall>i<m. f i \<or> f (i + m)))"
  proof (cases c)
    case False
    then show ?thesis using half_clean_interval [of m f u v] cuv by auto
  next
    case True
    define g where "g i = (\<not> f i)" for i
    have "\<forall>i<2 * m. g i = (u \<le> i \<and> i < v)" using cuv True by (simp add: g_def)
    note h = half_clean_interval [OF this]
    have "bitonic m (\<lambda>i. f i \<and> f (i + m))"
      using h(2) bitonic_Not [of m "\<lambda>i. g i \<or> g (i + m)"] by (simp add: g_def)
    moreover have "bitonic m (\<lambda>i. f i \<or> f (i + m))"
      using h(1) bitonic_Not [of m "\<lambda>i. g i \<and> g (i + m)"] by (simp add: g_def)
    ultimately show ?thesis using h(3) by (auto simp: g_def)
  qed
  then show "bitonic m (\<lambda>i. f i \<and> f (i + m))" "bitonic m (\<lambda>i. f i \<or> f (i + m))"
    "i < m \<Longrightarrow> j < m \<Longrightarrow> f i \<and> f (i + m) \<longrightarrow> f j \<or> f (j + m)" by auto
qed


section \<open>The stages of the network\<close>

text \<open>
  Between two passes of the loop for \<open>k = 2 ^ p\<close>, with the strides from \<open>2 ^ s\<close> on done: the blocks
  of \<open>2 ^ s\<close> positions are bitonic, and the blocks inside of \<open>2 ^ p\<close> positions are in order.
\<close>

definition ordered_as :: "bool \<Rightarrow> bool \<Rightarrow> bool \<Rightarrow> bool" where
  "ordered_as desc a b \<longleftrightarrow> (if desc then b \<longrightarrow> a else a \<longrightarrow> b)"

definition stage :: "nat \<Rightarrow> nat \<Rightarrow> nat \<Rightarrow> (nat \<Rightarrow> bool) \<Rightarrow> bool" where
  "stage n p s f \<longleftrightarrow>
     (\<forall>c. c * 2 ^ s < 2 ^ n \<longrightarrow> bitonic (2 ^ s) (\<lambda>r. f (c * 2 ^ s + r)))
     \<and> (\<forall>i j. i < 2 ^ n \<longrightarrow> j < 2 ^ n \<longrightarrow> i div 2 ^ p = j div 2 ^ p \<longrightarrow> i div 2 ^ s < j div 2 ^ s
          \<longrightarrow> ordered_as (bit i p) (f i) (f j))"

lemma stage_ordered:
  "stage n p s f \<Longrightarrow> i < 2 ^ n \<Longrightarrow> j < 2 ^ n \<Longrightarrow> i div 2 ^ p = j div 2 ^ p
    \<Longrightarrow> i div 2 ^ s < j div 2 ^ s \<Longrightarrow> ordered_as (bit i p) (f i) (f j)"
  unfolding stage_def by blast

lemma bit_coarser: "s \<le> p \<Longrightarrow> (x::nat) div 2 ^ s = y div 2 ^ s \<Longrightarrow> bit x p = bit y p"
  unfolding bit_nat_def by (simp only: div_pow_coarser [of s p x y])

lemma less_coarser: "s \<le> n \<Longrightarrow> (x::nat) div 2 ^ s = y div 2 ^ s \<Longrightarrow> y < 2 ^ n \<Longrightarrow> x < 2 ^ n"
  using div_pow_coarser [of s n x y] by (metis div_less div_eq_0_iff power_not_zero zero_neq_numeral)

lemma min_max_bool: "min a b \<longleftrightarrow> a \<and> b" "max a b \<longleftrightarrow> a \<or> b"
  by (auto simp: min_def max_def le_bool_def)

lemma threshold_pass: "(t < pass p s a i) = pass p s (\<lambda>i. t < a i) i"
  by (simp add: pass_def Let_def min_max_bool less_max_iff_disj)

lemma pass_split:
  assumes "r < 2 ^ s" "s < p"
  shows "pass p s f (d * 2 ^ Suc s + of_bool b * 2 ^ s + r)
    = (if b = bit (d * 2 ^ Suc s) p then f (d * 2 ^ Suc s + r) \<and> f (d * 2 ^ Suc s + r + 2 ^ s)
       else f (d * 2 ^ Suc s + r) \<or> f (d * 2 ^ Suc s + r + 2 ^ s))"
proof -
  have "bit (d * 2 ^ Suc s + of_bool b * 2 ^ s + r) p = bit (d * 2 ^ Suc s) p"
    using assms by (intro bit_coarser [of "Suc s"]) (simp_all add: split_facts(3) del: power_Suc)
  then show ?thesis
    unfolding pass_def Let_def split_facts(1,2) [OF assms(1)] by (simp add: min_max_bool)
qed

lemma block_split: "(2 * d + of_bool b) * 2 ^ s + r = d * 2 ^ Suc s + of_bool b * 2 ^ s + (r::nat)"
  by (simp add: algebra_simps)

lemma stage_pass_bitonic:
  assumes st: "stage n p (Suc s) f" and s: "s < p" and c: "c * 2 ^ s < 2 ^ n"
  shows "bitonic (2 ^ s) (\<lambda>r. pass p s f (c * 2 ^ s + r))"
proof -
  define d b where "d = c div 2" and "b = odd c"
  have cd: "c = 2 * d + of_bool b" by (simp add: d_def b_def)
  have "d * 2 ^ Suc s < 2 ^ n"
    using c unfolding cd using block_split [of d b s 0] by simp
  then have "bitonic (2 * 2 ^ s) (\<lambda>r. f (d * 2 ^ Suc s + r))"
    using st unfolding stage_def by simp
  note h = half_clean(1,2) [OF this]
  show ?thesis
  proof (cases "b = bit (d * 2 ^ Suc s) p")
    case True
    have "pass p s f (c * 2 ^ s + r) = (f (d * 2 ^ Suc s + r) \<and> f (d * 2 ^ Suc s + (r + 2 ^ s)))"
      if "r < 2 ^ s" for r
      unfolding cd block_split pass_split [OF that s] using True by (simp add: add.assoc del: power_Suc)
    then show ?thesis using h(1) by (simp cong: bitonic_cong)
  next
    case False
    have "pass p s f (c * 2 ^ s + r) = (f (d * 2 ^ Suc s + r) \<or> f (d * 2 ^ Suc s + (r + 2 ^ s)))"
      if "r < 2 ^ s" for r
      unfolding cd block_split pass_split [OF that s] using False by (simp add: add.assoc del: power_Suc)
    then show ?thesis using h(2) by (simp cong: bitonic_cong)
  qed
qed

lemma stage_pass_ordered:
  assumes st: "stage n p (Suc s) f" and s: "s < p" "p \<le> n" and i: "i < 2 ^ n" and j: "j < 2 ^ n"
    and same: "i div 2 ^ p = j div 2 ^ p" and less: "i div 2 ^ s < j div 2 ^ s"
  shows "ordered_as (bit i p) (pass p s f i) (pass p s f j)"
proof -
  obtain d b r where ie: "i = d * 2 ^ Suc s + of_bool b * 2 ^ s + r" and r: "r < 2 ^ s"
    by (rule index_split)
  obtain d' b' r' where je: "j = d' * 2 ^ Suc s + of_bool b' * 2 ^ s + r'" and r': "r' < 2 ^ s"
    by (rule index_split)
  have id: "i div 2 ^ Suc s = d" "j div 2 ^ Suc s = d'" "i div 2 ^ s = 2 * d + of_bool b"
    "j div 2 ^ s = 2 * d' + of_bool b'"
    unfolding ie je by (rule split_facts, fact)+
  have bi: "bit (d * 2 ^ Suc s) p = bit i p" "bit (d' * 2 ^ Suc s) p = bit i p"
    using bit_coarser [of "Suc s" p "d * 2 ^ Suc s" i] bit_coarser [of "Suc s" p "d' * 2 ^ Suc s" j]
      bit_coarser [of p p i j] s same id by simp_all
  have inside: "(e * 2 ^ Suc s + t) div 2 ^ Suc s = e" "(e * 2 ^ Suc s + t + 2 ^ s) div 2 ^ Suc s = e"
    if "t < 2 ^ s" for e t :: nat
    using split_facts(3) [OF that, of e False] split_facts(3) [OF that, of e True]
    by (simp_all add: add_ac)
  note pi = pass_split [OF r s(1), of f d b] and pj = pass_split [OF r' s(1), of f d' b']
  show ?thesis
  proof (cases "d < d'")
    case True
    have "ordered_as (bit i p) (f x) (f y)" if x: "x div 2 ^ Suc s = d" and y: "y div 2 ^ Suc s = d'" for x y
    proof -
      have xy: "x < 2 ^ n" "y < 2 ^ n" "x div 2 ^ p = y div 2 ^ p" "bit x p = bit i p"
        using less_coarser [of "Suc s" n x i] less_coarser [of "Suc s" n y j] i j s id x y same
          div_pow_coarser [of "Suc s" p x i] div_pow_coarser [of "Suc s" p y j] bit_coarser [of "Suc s" p x i]
        by simp_all
      then show ?thesis using stage_ordered [OF st xy(1-3)] x y True by simp
    qed
    note o = this [OF inside(1) [OF r] inside(1) [OF r']] this [OF inside(1) [OF r] inside(2) [OF r']]
      this [OF inside(2) [OF r] inside(1) [OF r']] this [OF inside(2) [OF r] inside(2) [OF r']]
    show ?thesis using o unfolding ie [symmetric] je [symmetric] pi [folded ie] pj [folded je] bi ordered_as_def
      by (auto split: if_splits)
  next
    case False
    then have d: "d' = d" "\<not> b" "b'" using less unfolding id by (cases b; cases b'; simp)+
    have "d * 2 ^ Suc s < 2 ^ n" using i unfolding ie by simp
    then have "bitonic (2 * 2 ^ s) (\<lambda>r. f (d * 2 ^ Suc s + r))" using st unfolding stage_def by simp
    note h = half_clean(3) [OF this r r'] half_clean(3) [OF this r' r]
    show ?thesis using h d unfolding pi [folded ie] pj [folded je] bi ordered_as_def
      by (auto simp: add.assoc)
  qed
qed

lemma stage_pass: "stage n p (Suc s) f \<Longrightarrow> s < p \<Longrightarrow> p \<le> n \<Longrightarrow> stage n p s (pass p s f)"
  using stage_pass_bitonic stage_pass_ordered unfolding stage_def [of n p s "pass p s f"] by blast

lemma stage_cong:
  assumes "s \<le> n" and "\<And>i. i < 2 ^ n \<Longrightarrow> f i = g i"
  shows "stage n p s f = stage n p s g"
proof -
  have "c * 2 ^ s + r < 2 ^ n" if "c * 2 ^ s < 2 ^ n" "r < 2 ^ s" for c r :: nat
    using less_coarser [of s n "c * 2 ^ s + r" "c * 2 ^ s"] assms that by simp
  then have "bitonic (2 ^ s) (\<lambda>r. f (c * 2 ^ s + r)) = bitonic (2 ^ s) (\<lambda>r. g (c * 2 ^ s + r))"
    if "c * 2 ^ s < 2 ^ n" for c
    using that by (intro bitonic_cong) (simp add: assms)
  then show ?thesis using assms(2) by (simp add: stage_def)
qed


lemma rising_threshold:
  fixes m :: nat
  shows "(\<And>i j. i < j \<Longrightarrow> j < m \<Longrightarrow> f i \<Longrightarrow> f j) \<Longrightarrow> \<exists>u\<le>m. \<forall>i<m. f i = (u \<le> i)"
proof (induction m)
  case (Suc m)
  then obtain u where u: "u \<le> m" "\<forall>i<m. f i = (u \<le> i)" by (metis less_Suc_eq)
  show ?case
  proof (cases "f m")
    case True
    then show ?thesis using u by (auto simp: less_Suc_eq intro!: exI [of _ u])
  next
    case False
    then have "\<not> f i" if "i < m" for i using Suc.prems [of i m] that by auto
    then show ?thesis using False by (auto simp: less_Suc_eq intro!: exI [of _ "Suc m"])
  qed
qed simp

lemma falling_threshold:
  fixes m :: nat
  assumes "\<And>i j. i < j \<Longrightarrow> j < m \<Longrightarrow> f j \<Longrightarrow> f i"
  shows "\<exists>v\<le>m. \<forall>i<m. f i = (i < v)"
proof -
  obtain u where "u \<le> m" "\<forall>i<m. (\<not> f i) = (u \<le> i)"
    using rising_threshold [of m "\<lambda>i. \<not> f i"] assms by blast
  then show ?thesis by (intro exI [of _ u]) (auto simp: not_le [symmetric])
qed

lemma up_down_bitonic:
  assumes up: "\<And>i j. i < j \<Longrightarrow> j < m \<Longrightarrow> f i \<Longrightarrow> f j"
    and down: "\<And>i j. i < j \<Longrightarrow> j < m \<Longrightarrow> f (m + j) \<Longrightarrow> f (m + i)"
  shows "bitonic (2 * m) f"
proof -
  obtain u where u: "u \<le> m" "\<forall>i<m. f i = (u \<le> i)" using rising_threshold [of m f] up by blast
  obtain v where v: "v \<le> m" "\<forall>i<m. f (m + i) = (i < v)"
    using falling_threshold [of m "\<lambda>i. f (m + i)"] down by blast
  have "f i = (u \<le> i \<and> i < m + v)" if "i < 2 * m" for i
  proof (cases "i < m")
    case False
    then have "f i = (i - m < v)" using v(2) that by (metis le_add_diff_inverse less_diff_conv2 mult_2 not_less)
    then show ?thesis using False u(1) by auto
  qed (use u in auto)
  then show ?thesis by (intro bitonicI [of _ _ False u "m + v"]) simp
qed

text \<open>Sorted blocks of alternating directions are bitonic blocks of twice the size.\<close>

lemma stage_next:
  assumes st: "stage n p 0 f" and p: "p < n"
  shows "stage n (Suc p) (Suc p) f"
proof -
  have "bitonic (2 * 2 ^ p) (\<lambda>r. f (c * 2 ^ Suc p + r))" if c: "c * 2 ^ Suc p < 2 ^ n" for c
  proof -
    have ord: "ordered_as b (f (c * 2 ^ Suc p + of_bool b * 2 ^ p + i)) (f (c * 2 ^ Suc p + of_bool b * 2 ^ p + j))"
      if ij: "i < j" "j < 2 ^ p" for b i j
    proof -
      define x y where "x = c * 2 ^ Suc p + of_bool b * 2 ^ p + i" and "y = c * 2 ^ Suc p + of_bool b * 2 ^ p + j"
      have i: "i < 2 ^ p" using ij by simp
      have "(c * 2 ^ Suc p) div 2 ^ Suc p = c" by simp
      then have "x < 2 ^ n" "y < 2 ^ n"
        using split_facts(3) [OF i, of c b] split_facts(3) [OF ij(2), of c b] c p
          less_coarser [of "Suc p" n x "c * 2 ^ Suc p"] less_coarser [of "Suc p" n y "c * 2 ^ Suc p"]
        unfolding x_def y_def by (simp_all del: power_Suc)
      moreover have "x div 2 ^ p = y div 2 ^ p" "x div 2 ^ 0 < y div 2 ^ 0" "bit x p = b"
        using split_facts(1,4) [OF i, of c b] split_facts(4) [OF ij(2), of c b] ij
        unfolding x_def y_def by (simp_all del: power_Suc)
      ultimately have "ordered_as b (f x) (f y)" using stage_ordered [OF st, of x y] by simp
      then show ?thesis unfolding x_def y_def .
    qed
    show ?thesis
      using ord [of _ _ False] ord [of _ _ True]
      by (intro up_down_bitonic) (simp_all add: ordered_as_def add.assoc del: power_Suc)
  qed
  then show ?thesis unfolding stage_def by auto
qed

lemma stage_start: "stage n 0 0 f"
proof -
  have "bitonic 1 g" for g by (rule bitonicI [of _ _ "g 0" 1 0]) simp
  then show ?thesis by (simp add: stage_def)
qed

definition keys_stage :: "nat \<Rightarrow> nat \<Rightarrow> nat \<Rightarrow> kv_list \<Rightarrow> bool" where
  "keys_stage n p s kv \<longleftrightarrow> length kv = 2 ^ n \<and> (\<forall>t. stage n p s (\<lambda>i. t < key_at kv i))"

lemma keys_stage_pass:
  assumes k: "keys_stage n p (Suc s) kv" and s: "s < p" "p \<le> n"
  defines "kv' \<equiv> bitonic_loop_i (2 ^ n) (2 ^ p) (2 ^ s) kv"
  shows "keys_stage n p s kv'" "mset kv' = mset kv"
proof -
  have len: "length kv = 2 ^ n" and sn: "s < n" using k s by (simp_all add: keys_stage_def)
  note eff = loop_i_effect [OF len s(1) sn, folded kv'_def]
  show "mset kv' = mset kv" by (rule eff)
  have "stage n p s (\<lambda>i. t < key_at kv' i)" for t
  proof -
    have "stage n p s (pass p s (\<lambda>i. t < key_at kv i))"
      using k s unfolding keys_stage_def by (intro stage_pass) simp_all
    moreover have "(t < key_at kv' i) = pass p s (\<lambda>i. t < key_at kv i) i" if "i < 2 ^ n" for i
      using eff(3) [OF that] by (simp add: threshold_pass)
    ultimately show ?thesis
      using stage_cong [of s n "\<lambda>i. t < key_at kv' i" "pass p s (\<lambda>i. t < key_at kv i)" p] sn by simp
  qed
  then show "keys_stage n p s kv'" using eff(1) by (simp add: keys_stage_def)
qed

lemma loop_j_stages:
  "keys_stage n p (Suc s) kv \<Longrightarrow> s < p \<Longrightarrow> p \<le> n \<Longrightarrow>
    keys_stage n p 0 (bitonic_loop_j (2 ^ n) (2 ^ p) (2 ^ s) kv)
    \<and> mset (bitonic_loop_j (2 ^ n) (2 ^ p) (2 ^ s) kv) = mset kv"
proof (induction s arbitrary: kv)
  case 0
  have "bitonic_loop_j (2 ^ n) (2 ^ p) (2 ^ 0) kv = bitonic_loop_i (2 ^ n) (2 ^ p) (2 ^ 0) kv"
    by (simp add: bitonic_loop_j.simps [of _ _ "Suc 0"] bitonic_loop_j.simps [of _ _ 0])
  then show ?case using keys_stage_pass [OF 0] by metis
next
  case (Suc s)
  have "bitonic_loop_j (2 ^ n) (2 ^ p) (2 ^ Suc s) kv
      = bitonic_loop_j (2 ^ n) (2 ^ p) (2 ^ s) (bitonic_loop_i (2 ^ n) (2 ^ p) (2 ^ Suc s) kv)"
    by (subst bitonic_loop_j.simps) simp
  then show ?case using keys_stage_pass [OF Suc.prems] Suc.IH Suc.prems by (metis Suc_lessD)
qed

lemma loop_k_stages:
  "keys_stage n p 0 kv \<Longrightarrow> p \<le> n \<Longrightarrow>
    keys_stage n n 0 (bitonic_loop_k (2 ^ n) (2 ^ Suc p) kv)
    \<and> mset (bitonic_loop_k (2 ^ n) (2 ^ Suc p) kv) = mset kv"
proof (induction "n - p" arbitrary: p kv)
  case 0
  then have "bitonic_loop_k (2 ^ n) (2 ^ Suc p) kv = kv" by (subst bitonic_loop_k.simps) simp
  then show ?case using 0 by simp
next
  case (Suc m)
  then have p: "p < n" by simp
  define kv' where "kv' = bitonic_loop_j (2 ^ n) (2 ^ Suc p) (2 ^ p) kv"
  have le: "(2::nat) ^ Suc p \<le> 2 ^ n" using p by (intro power_increasing) simp_all
  have "bitonic_loop_k (2 ^ n) (2 ^ Suc p) kv = bitonic_loop_k (2 ^ n) (2 ^ Suc (Suc p)) kv'"
    unfolding kv'_def using le by (subst bitonic_loop_k.simps) simp
  moreover have "keys_stage n (Suc p) (Suc p) kv"
    using Suc.prems p by (simp add: keys_stage_def stage_next)
  then have "keys_stage n (Suc p) 0 kv'" "mset kv' = mset kv"
    using loop_j_stages [of n "Suc p" p kv] p unfolding kv'_def by simp_all
  ultimately show ?case using Suc.hyps(1) [of "Suc p" kv'] Suc.hyps(2) p by simp
qed

lemma keys_stage_sorted:
  assumes "keys_stage n n 0 kv"
  shows "sorted (map kv_key kv)"
proof -
  have "key_at kv i \<le> key_at kv j" if ij: "i < j" "j < 2 ^ n" for i j
  proof (rule ccontr)
    assume "\<not> key_at kv i \<le> key_at kv j"
    moreover have "i < 2 ^ n" "\<not> bit i n" using ij by (simp_all add: bit_nat_def)
    moreover have "ordered_as (bit i n) (key_at kv j < key_at kv i) (key_at kv j < key_at kv j)"
      using assms ij by (intro stage_ordered [of n n 0]) (simp_all add: keys_stage_def)
    ultimately show False by (simp add: ordered_as_def)
  qed
  then show ?thesis using assms by (simp add: sorted_iff_nth_mono_less keys_stage_def key_at_def)
qed

section \<open>The sort\<close>

text \<open>
  C30: the sort of the eviction candidates ends with the 64 entries in ascending order of their
  sort keys, and the entries are the ones it was given: none is lost, none is duplicated. So the
  entries that the eviction takes from the front are the ones with the least sort keys.
\<close>

theorem eviction_candidates_sorted:
  assumes "length kv = EVICTION_ARRAY_LENGTH"
  shows "sorted (map kv_key (storage_db_keys_eviction_bitonic_sort_16_elements kv))
    \<and> mset (storage_db_keys_eviction_bitonic_sort_16_elements kv) = mset kv"
proof -
  have len: "EVICTION_ARRAY_LENGTH = 2 ^ 6" by (simp add: EVICTION_ARRAY_LENGTH_def)
  have "keys_stage 6 0 0 kv" using assms by (simp add: keys_stage_def stage_start len)
  then show ?thesis
    using loop_k_stages [of 6 0 kv] keys_stage_sorted [of 6 "bitonic_loop_k 64 2 kv"]
    unfolding storage_db_keys_eviction_bitonic_sort_16_elements_def len by simp
qed

theorem eviction_candidates_sorted_witness:
  "let kv = replicate 63 \<lparr>kv_value = 1, kv_key = 9\<rparr> @ [\<lparr>kv_value = 2, kv_key = 4\<rparr>] in
   length kv = EVICTION_ARRAY_LENGTH
   \<and> sorted (map kv_key (storage_db_keys_eviction_bitonic_sort_16_elements kv))
   \<and> mset (storage_db_keys_eviction_bitonic_sort_16_elements kv) = mset kv"
  unfolding Let_def
  using eviction_candidates_sorted
    [of "replicate 63 \<lparr>kv_value = 1, kv_key = 9\<rparr> @ [\<lparr>kv_value = 2, kv_key = 4\<rparr>]"]
  by (simp add: EVICTION_ARRAY_LENGTH_def)

end
