(* ===== verification/Entry_Status.thy ===== *)
theory Entry_Status
  imports Prelude
begin

text \<open>
  The status word of an entry of the storage, \<open>storage_db_entry_index_status\<close> in
  \<open>src/src/storage/db/storage_db.h\<close>, and the operations on it in \<open>storage_db.c\<close>: a
  counter of readers in the bits 0 to 30, the deleted flag in bit 31 and a counter of accesses in
  the upper half. The readers and the worker that deletes the entry share this word; the last part
  has their steps, one shared access each, and shows that the data of an entry are never freed
  under a reader.
\<close>

section \<open>The fields of the word\<close>

definition readers_counter :: "u64 \<Rightarrow> u64" where
  "readers_counter w = w AND 0x7FFFFFFF"

definition status_deleted :: "u64 \<Rightarrow> bool" where
  "status_deleted w = bit w 31"

definition accesses_counter :: "u64 \<Rightarrow> u64" where
  "accesses_counter w = drop_bit 32 w"

definition set_readers_counter :: "u64 \<Rightarrow> u64 \<Rightarrow> u64" where
  "set_readers_counter r w = (w AND NOT 0x7FFFFFFF) OR (r AND 0x7FFFFFFF)"

definition set_accesses_counter :: "u64 \<Rightarrow> u64 \<Rightarrow> u64" where
  "set_accesses_counter a w = (w AND 0xFFFFFFFF) OR push_bit 32 a"

section \<open>The operations\<close>

text \<open>The word that the loop tries to swap in.\<close>

definition increased_status :: "u64 \<Rightarrow> u64" where
  "increased_status old =
     (let n = set_readers_counter (readers_counter old + 1) old;
          n = set_accesses_counter (accesses_counter n + 1) n
      in if accesses_counter n = 0xFFFFFFFF then set_accesses_counter (accesses_counter n - 1) n else n)"

text \<open>
  The operations return the status for the caller and the new word; None is a failed assertion.
  The results of the atomic operations pass through 32 bit variables where the code has them.
\<close>

definition storage_db_entry_index_status_increase_readers_counter :: "u64 \<Rightarrow> (u64 \<times> u64) option" where
  "storage_db_entry_index_status_increase_readers_counter w =
     (let new = increased_status w
      in if w AND 0x7FFFFFFF = 0x7FFFFFFF then None
         else if status_deleted w then Some (new, new - 1)
         else Some (new, new))"

definition storage_db_entry_index_status_decrease_readers_counter :: "u64 \<Rightarrow> (u64 \<times> u64) option" where
  "storage_db_entry_index_status_decrease_readers_counter w =
     (let old = (ucast w :: u32)
      in if \<not> 0 < old AND 0x7FFFFFFF then None else Some (ucast old, w - 1))"

definition storage_db_entry_index_status_set_deleted :: "bool \<Rightarrow> u64 \<Rightarrow> u64 \<times> u64" where
  "storage_db_entry_index_status_set_deleted deleted w =
     (let old = (ucast w :: u32) in (ucast old, w OR (if deleted then 0x80000000 else 0)))"

section \<open>What the operations do to the fields\<close>

lemma mask_31: "(0x7FFFFFFF :: u64) = mask 31" and mask_32: "(0xFFFFFFFF :: u64) = mask 32"
  by (simp_all add: mask_eq_exp_minus_1)

lemma readers_take: "readers_counter w = take_bit 31 w"
  by (simp only: readers_counter_def mask_31 take_bit_eq_mask)

lemma unat_take_bit: "unat (take_bit n (w :: u64)) = unat w mod 2 ^ n"
  by (simp add: unsigned_take_bit_eq flip: take_bit_eq_mod [of n "unat w"])

lemma unat_readers: "unat (readers_counter w) = unat w mod 2 ^ 31"
  by (simp only: readers_take unat_take_bit)

lemma deleted_div: "status_deleted w \<longleftrightarrow> odd (unat w div 2 ^ 31)"
  unfolding status_deleted_def bit_nat_def [symmetric] bit_unsigned_iff by simp

lemma bit_set_readers:
  "bit (set_readers_counter r w) i = (if i < 31 then bit r i else bit w i)"
  by (auto simp: set_readers_counter_def mask_31 bit_simps dest: bit_imp_le_length)

lemma bit_set_accesses:
  "bit (set_accesses_counter a w) i = (if i < 32 then bit w i else i < 64 \<and> bit a (i - 32))"
  by (auto simp: set_accesses_counter_def mask_32 bit_simps dest: bit_imp_le_length)

lemma field_simps:
  "readers_counter (set_readers_counter r w) = take_bit 31 r"
  "status_deleted (set_readers_counter r w) = status_deleted w"
  "accesses_counter (set_readers_counter r w) = accesses_counter w"
  "readers_counter (set_accesses_counter a w) = readers_counter w"
  "status_deleted (set_accesses_counter a w) = status_deleted w"
  "accesses_counter (set_accesses_counter a w) = take_bit 32 a"
  by (auto simp: readers_take status_deleted_def accesses_counter_def bit_set_readers bit_set_accesses
      intro!: bit_word_eqI) (auto simp: bit_simps bit_set_readers bit_set_accesses)

lemma increased_fields:
  "readers_counter (increased_status w) = take_bit 31 (readers_counter w + 1)"
  "status_deleted (increased_status w) = status_deleted w"
  by (simp_all add: increased_status_def Let_def field_simps)

lemma increased_readers:
  assumes "unat (readers_counter w) < 2 ^ 31 - 1"
  shows "unat (readers_counter (increased_status w)) = Suc (unat (readers_counter w))"
proof -
  have "unat (readers_counter w + 1) = Suc (unat (readers_counter w))"
    using assms by (intro unat_add_one) simp
  then show ?thesis
    using assms by (simp only: increased_fields unat_take_bit) simp
qed

lemma decreased_fields:
  assumes "0 < unat (readers_counter w)"
  shows "unat (readers_counter (w - 1)) = unat (readers_counter w) - 1"
    and "status_deleted (w - 1) = status_deleted w"
proof -
  have pos: "0 < unat w mod 2 ^ 31" using assms by (simp add: unat_readers)
  then have "0 < unat w" by (metis gr_zeroI mod_0 less_irrefl)
  then have u: "unat w = Suc (unat (w - 1))" by (simp add: unat_sub_one)
  show "unat (readers_counter (w - 1)) = unat (readers_counter w) - 1"
    using pos unfolding unat_readers u by (simp add: mod_Suc split: if_splits)
  have "unat w div 2 ^ 31 = unat (w - 1) div 2 ^ 31"
    using pos unfolding u by (simp add: div_Suc mod_Suc split: if_splits)
  then show "status_deleted (w - 1) = status_deleted w" by (simp add: deleted_div)
qed

lemma marked_fields:
  "readers_counter (w OR 0x80000000) = readers_counter w"
  "status_deleted (w OR 0x80000000)"
proof -
  have e: "(0x80000000 :: u64) = 2 ^ 31" by simp
  show "readers_counter (w OR 0x80000000) = readers_counter w" "status_deleted (w OR 0x80000000)"
    unfolding e by (auto simp: readers_take status_deleted_def bit_simps intro!: bit_word_eqI)
qed


section \<open>Readers and the deleting worker\<close>

text \<open>
  A reader loads the word, swaps in the increased one, and holds the entry unless the word it
  replaced was marked as deleted, in which case it only takes its increment back. Between the load
  and the swap other threads may run; when the word changed, the swap fails and the reader loads
  again. The worker that took the entry out of the hash table marks it
  (\<open>storage_db_worker_mark_deleted_or_deleting_previous_entry_index\<close>): without readers it frees
  the data, otherwise it puts the entry on its list, where the garbage collector frees it once it
  sees no readers. Handing the entry out again is not a step: the code relies on the size of the
  ring of deleted entries for the threads that still have an old pointer.
\<close>

datatype reader_pc = Outside | Loaded u64 | Reading | Taking_back

datatype deleter_pc = In_table | In_deleting_list | Freeing | Freed

record entry_sys =
  es_status :: u64
  es_reader :: "nat \<Rightarrow> reader_pc"
  es_deleter :: deleter_pc

inductive entry_step :: "nat \<Rightarrow> entry_sys \<Rightarrow> entry_sys \<Rightarrow> bool" for n where
  load: "t < n \<Longrightarrow> es_reader s t = Outside
    \<Longrightarrow> entry_step n s (s\<lparr>es_reader := (es_reader s)(t := Loaded (es_status s))\<rparr>)"
| swap_fails: "t < n \<Longrightarrow> es_reader s t = Loaded old \<Longrightarrow> es_status s \<noteq> old
    \<Longrightarrow> entry_step n s (s\<lparr>es_reader := (es_reader s)(t := Outside)\<rparr>)"
| swap: "t < n \<Longrightarrow> es_reader s t = Loaded old \<Longrightarrow> es_status s = old
    \<Longrightarrow> entry_step n s (s\<lparr>es_status := increased_status old,
          es_reader := (es_reader s)(t := if status_deleted old then Taking_back else Reading)\<rparr>)"
| leave: "t < n \<Longrightarrow> es_reader s t \<in> {Reading, Taking_back}
    \<Longrightarrow> entry_step n s (s\<lparr>es_status := es_status s - 1, es_reader := (es_reader s)(t := Outside)\<rparr>)"
| mark: "es_deleter s = In_table
    \<Longrightarrow> storage_db_entry_index_status_set_deleted True (es_status s) = (old, w)
    \<Longrightarrow> entry_step n s (s\<lparr>es_status := w,
          es_deleter := if readers_counter old = 0 then Freeing else In_deleting_list\<rparr>)"
| collect: "es_deleter s = In_deleting_list \<Longrightarrow> readers_counter (es_status s) = 0
    \<Longrightarrow> entry_step n s (s\<lparr>es_deleter := Freeing\<rparr>)"
| free_chunks: "es_deleter s = Freeing \<Longrightarrow> entry_step n s (s\<lparr>es_deleter := Freed\<rparr>)"

definition entry_init :: "entry_sys \<Rightarrow> bool" where
  "entry_init s \<longleftrightarrow> s = \<lparr>es_status = 0, es_reader = (\<lambda>_. Outside), es_deleter = In_table\<rparr>"

inductive_cases entry_stepE: "entry_step n s s'"

definition inside :: "entry_sys \<Rightarrow> nat set" where
  "inside s = {t. es_reader s t \<in> {Reading, Taking_back}}"

definition entry_inv :: "nat \<Rightarrow> entry_sys \<Rightarrow> bool" where
  "entry_inv n s \<longleftrightarrow>
     inside s \<subseteq> {..<n}
     \<and> unat (readers_counter (es_status s)) = card (inside s)
     \<and> (status_deleted (es_status s) \<longleftrightarrow> es_deleter s \<noteq> In_table)
     \<and> (es_deleter s \<in> {Freeing, Freed} \<longrightarrow> (\<forall>t. es_reader s t \<noteq> Reading))"

lemma inside_upd:
  "inside (s\<lparr>es_reader := (es_reader s)(t := p)\<rparr>)
    = (if p \<in> {Reading, Taking_back} then insert t (inside s) else inside s - {t})"
  by (auto simp: inside_def)

lemma inside_other [simp]:
  "inside (s\<lparr>es_status := w\<rparr>) = inside s" "inside (s\<lparr>es_deleter := d\<rparr>) = inside s"
  by (simp_all add: inside_def)

lemma entry_inv_fields:
  assumes "entry_inv n s"
  shows "finite (inside s)" "card (inside s) \<le> n"
  using assms finite_subset [of "inside s" "{..<n}"] card_mono [of "{..<n}" "inside s"]
  by (auto simp: entry_inv_def)

lemma entry_inv_step:
  assumes n: "n < 2 ^ 31" and inv: "entry_inv n s" and step: "entry_step n s s'"
  shows "entry_inv n s'"
  using step
proof (cases rule: entry_step.cases)
  case (load t)
  then have "t \<notin> inside s" by (simp add: inside_def)
  then show ?thesis using inv load by (auto simp: entry_inv_def inside_upd)
next
  case (swap_fails t old)
  then have "t \<notin> inside s" by (simp add: inside_def)
  then show ?thesis using inv swap_fails by (auto simp: entry_inv_def inside_upd)
next
  case (swap t old)
  then have t: "t \<notin> inside s" by (simp add: inside_def)
  then have "card (inside s) < card (insert t (inside s))" using entry_inv_fields [OF inv] by simp
  moreover have "card (insert t (inside s)) \<le> n"
    using card_mono [of "{..<n}" "insert t (inside s)"] inv swap by (auto simp: entry_inv_def)
  ultimately have "unat (readers_counter (es_status s)) < 2 ^ 31 - 1"
    using inv n by (simp add: entry_inv_def)
  note inc = increased_readers [OF this]
  have "inside s' = insert t (inside s)" using swap by (auto simp: inside_def)
  then show ?thesis
    using inv swap inc t entry_inv_fields [OF inv] by (auto simp: entry_inv_def increased_fields)
next
  case (leave t)
  then have t: "t \<in> inside s" by (simp add: inside_def)
  then have "0 < unat (readers_counter (es_status s))"
    using inv entry_inv_fields [OF inv] by (auto simp: entry_inv_def card_gt_0_iff)
  note dec = decreased_fields [OF this]
  have "inside s' = inside s - {t}" using leave by (auto simp: inside_def)
  then show ?thesis
    using inv leave dec t entry_inv_fields [OF inv] by (auto simp: entry_inv_def card_Diff_singleton)
next
  case (mark old w)
  have w: "w = es_status s OR 0x80000000" and "readers_counter old = readers_counter (es_status s)"
    using mark by (auto simp: storage_db_entry_index_status_set_deleted_def Let_def readers_take
        intro!: bit_word_eqI) (auto simp: bit_simps dest: bit_imp_le_length)
  moreover have "es_reader s t \<noteq> Reading" if "readers_counter (es_status s) = 0" for t
    using inv that entry_inv_fields [OF inv] by (auto simp: entry_inv_def inside_def)
  ultimately show ?thesis using inv mark by (auto simp: entry_inv_def marked_fields)
next
  case collect
  then have "es_reader s t \<noteq> Reading" for t
    using inv entry_inv_fields [OF inv] by (auto simp: entry_inv_def inside_def)
  then show ?thesis using inv collect by (auto simp: entry_inv_def)
next
  case free_chunks
  then show ?thesis using inv by (auto simp: entry_inv_def)
qed

lemma entry_inv_init: "entry_init s \<Longrightarrow> entry_inv n s"
  by (simp add: entry_inv_def entry_init_def inside_def readers_take status_deleted_def)

interpretation entries: inductive_invariant entry_init "entry_step n" "\<lambda>s. n < 2 ^ 31 \<longrightarrow> entry_inv n s"
  by unfold_locales (auto intro: entry_inv_init entry_inv_step)

text \<open>
  C31: the reader lock of an entry. In every interleaving of fewer than two to the power of 31
  readers with the worker that deletes the entry, the data of the entry are freed only when no
  thread reads them, and nobody can start to read them afterwards; the counter in the word is the
  number of threads that are inside, so an entry on the list of the worker can be collected exactly
  when the last of them has left.
\<close>

theorem entry_never_freed_under_reader:
  assumes "reachable entry_init (entry_step n) s" and "n < 2 ^ 31"
  shows "(es_deleter s \<in> {Freeing, Freed} \<longrightarrow> (\<forall>t. es_reader s t \<noteq> Reading))
    \<and> (\<forall>s'. es_deleter s = Freed \<and> entry_step n s s' \<longrightarrow> es_deleter s' = Freed \<and> (\<forall>t. es_reader s' t \<noteq> Reading))
    \<and> unat (readers_counter (es_status s)) = card {t. es_reader s t \<in> {Reading, Taking_back}}
    \<and> (es_deleter s = In_deleting_list \<longrightarrow>
        (entry_step n s (s\<lparr>es_deleter := Freeing\<rparr>) \<longleftrightarrow> (\<forall>t. es_reader s t \<notin> {Reading, Taking_back})))"
proof -
  have inv: "entry_inv n s" using entries.inv_reachable [OF assms(1)] assms(2) by simp
  have freed: "es_deleter s' = Freed" if "es_deleter s = Freed" "entry_step n s s'" for s'
    using that(2,1) by (cases rule: entry_step.cases) auto
  have "entry_inv n s'" if "entry_step n s s'" for s' by (rule entry_inv_step [OF assms(2) inv that])
  moreover have "entry_step n s (s\<lparr>es_deleter := Freeing\<rparr>) \<longleftrightarrow> readers_counter (es_status s) = 0"
    if "es_deleter s = In_deleting_list"
    using that by (auto elim!: entry_stepE intro: collect dest: arg_cong [where f = es_deleter])
  moreover have "readers_counter (es_status s) = 0 \<longleftrightarrow> inside s = {}"
    using inv entry_inv_fields [OF inv] by (simp add: entry_inv_def unat_eq_zero [symmetric])
  ultimately show ?thesis using inv freed by (auto simp: entry_inv_def inside_def)
qed


lemma increased_zero: "increased_status 0 = 0x100000001"
  by (simp add: increased_status_def Let_def set_readers_counter_def set_accesses_counter_def
      readers_counter_def accesses_counter_def)

theorem entry_never_freed_under_reader_witness:
  "\<exists>s. reachable entry_init (entry_step 1) s \<and> es_reader s 0 = Reading \<and> es_deleter s = In_deleting_list
     \<and> \<not> entry_step 1 s (s\<lparr>es_deleter := Freeing\<rparr>)"
proof -
  define s0 where "s0 = \<lparr>es_status = 0, es_reader = (\<lambda>_. Outside), es_deleter = In_table\<rparr>"
  define s1 where "s1 = s0\<lparr>es_reader := (es_reader s0)(0 := Loaded 0)\<rparr>"
  define s2 where "s2 = s1\<lparr>es_status := increased_status 0, es_reader := (es_reader s1)(0 := Reading)\<rparr>"
  define s3 where "s3 = s2\<lparr>es_status := 0x180000001, es_deleter := In_deleting_list\<rparr>"
  have "reachable entry_init (entry_step 1) s0" by (rule reachable_init) (simp add: entry_init_def s0_def)
  from reachable_step [OF this load [of 0 1 s0]] have "reachable entry_init (entry_step 1) s1"
    by (simp add: s1_def s0_def)
  from reachable_step [OF this swap [of 0 1 s1 0]] have "reachable entry_init (entry_step 1) s2"
    by (simp add: s2_def s1_def s0_def status_deleted_def)
  from reachable_step [OF this mark [of s2 1 "0x180000001" 1]]
  have r: "reachable entry_init (entry_step 1) s3"
    by (simp add: s3_def s2_def s1_def s0_def increased_zero readers_counter_def
        storage_db_entry_index_status_set_deleted_def Let_def)
  have s3: "es_reader s3 0 = Reading" "es_deleter s3 = In_deleting_list"
    by (simp_all add: s3_def s2_def)
  then have "\<not> entry_step 1 s3 (s3\<lparr>es_deleter := Freeing\<rparr>)"
    using entry_never_freed_under_reader [OF r] by force
  with r s3 show ?thesis by blast
qed

end
