(* ===== verification/Storage_Counters.thy ===== *)
theory Storage_Counters
  imports Spsc_Table Slots_Bitmap_Mpmc
begin

text \<open>
  The counters of the storage, \<open>src/src/storage/db/storage_db_counters.c\<close> and \<open>.h\<close>: every
  thread owns a slot of the bitmap, and there a global counter and a hash table that maps the
  number of a database to a counter. Sums over the slots give the counters of the storage. The
  theory composes the slots bitmap and the single threaded hash table, and shows that the sums
  after an update are the sums before plus the update, for the databases with a number below 128.
\<close>

section \<open>The code\<close>

text \<open>
  The fields are signed 64 bit numbers, kept as words: additions wrap around as those of the
  processor do (an overflow, which C does not define, needs \<open>2 ^ 63\<close> keys or bytes), and
  \<open>sint\<close> reads them.
\<close>

datatype storage_db_counters =
  Counters (keys_count: u64) (data_size: u64) (keys_changed: u64) (data_changed: u64)

text \<open>The updates of the code add to the fields, so the counters form a group.\<close>

instantiation storage_db_counters :: ab_group_add
begin

definition zero_storage_db_counters :: storage_db_counters where
  "zero_storage_db_counters = Counters 0 0 0 0"

definition plus_storage_db_counters :: "storage_db_counters \<Rightarrow> storage_db_counters \<Rightarrow> storage_db_counters" where
  "plus_storage_db_counters a b = Counters (keys_count a + keys_count b) (data_size a + data_size b)
     (keys_changed a + keys_changed b) (data_changed a + data_changed b)"

definition uminus_storage_db_counters :: "storage_db_counters \<Rightarrow> storage_db_counters" where
  "uminus_storage_db_counters a =
     Counters (- keys_count a) (- data_size a) (- keys_changed a) (- data_changed a)"

definition minus_storage_db_counters :: "storage_db_counters \<Rightarrow> storage_db_counters \<Rightarrow> storage_db_counters" where
  "minus_storage_db_counters a b = a + - (b :: storage_db_counters)"

instance
  by standard (simp_all add: zero_storage_db_counters_def plus_storage_db_counters_def
      uminus_storage_db_counters_def minus_storage_db_counters_def algebra_simps)

end

lemma counters_sel [simp]:
  "keys_count 0 = 0" "data_size 0 = 0" "keys_changed 0 = 0" "data_changed 0 = 0"
  "keys_count (a + b) = keys_count a + keys_count b" "data_size (a + b) = data_size a + data_size b"
  "keys_changed (a + b) = keys_changed a + keys_changed b"
  "data_changed (a + b) = data_changed a + data_changed b"
  by (simp_all add: zero_storage_db_counters_def plus_storage_db_counters_def)

text \<open>
  The values of the table are the numbers of blocks that hold counters; \<open>None\<close> is the \<open>NULL\<close> of a
  slot that no thread has taken yet.
\<close>

record storage_db_counters_global_and_per_db =
  cg_global :: storage_db_counters
  cg_per_db :: "(u32, nat) hashtable_spsc option"

record db_counters =
  workers_count :: nat
  counters_slots_bitmap :: slots_bitmap_mpmc
  counters :: "storage_db_counters_global_and_per_db list"
  counters_index_key :: "nat \<Rightarrow> nat option"
  counters_memory :: "nat \<Rightarrow> storage_db_counters"
  counters_allocated :: nat

definition STORAGE_DB_WORKERS_MAX :: nat where
  "STORAGE_DB_WORKERS_MAX = 1024"

definition HASHTABLE_SPSC_DEFAULT_MAX_RANGE :: u16 where
  "HASHTABLE_SPSC_DEFAULT_MAX_RANGE = 24"

text \<open>The counters of a new storage; the rest of its memory is zeroed.\<close>

definition counters_new :: "nat \<Rightarrow> db_counters option" where
  "counters_new workers =
     (case slots_bitmap_mpmc_init STORAGE_DB_WORKERS_MAX of
        None \<Rightarrow> None
      | Some bm \<Rightarrow> Some \<lparr>workers_count = workers, counters_slots_bitmap = bm,
          counters = replicate STORAGE_DB_WORKERS_MAX \<lparr>cg_global = 0, cg_per_db = None\<rparr>,
          counters_index_key = (\<lambda>_. None), counters_memory = (\<lambda>_. 0), counters_allocated = 0\<rparr>)"

text \<open>
  \<open>th\<close> is the current thread, whose value of the key is its slot. None is the fatal error of a
  thread for which there is no slot.
\<close>

definition storage_db_counters_slot_key_ensure_init :: "nat \<Rightarrow> db_counters \<Rightarrow> db_counters option" where
  "storage_db_counters_slot_key_ensure_init th st =
     (case counters_index_key st th of
        Some _ \<Rightarrow> Some st
      | None \<Rightarrow>
          (case slots_bitmap_mpmc_get_next_available (counters_slots_bitmap st) of
             Some (Some index, bm) \<Rightarrow>
               (case hashtable_spsc_new 100 HASHTABLE_SPSC_DEFAULT_MAX_RANGE False of
                  None \<Rightarrow> None
                | Some ht \<Rightarrow>
                    Some (st\<lparr>counters_slots_bitmap := bm,
                      counters := (counters st)[index := (counters st ! index)\<lparr>cg_per_db := Some ht\<rparr>],
                      counters_index_key := (counters_index_key st)(th \<mapsto> index)\<rparr>))
           | _ \<Rightarrow> None))"

definition storage_db_counters_index_key_destroy :: "nat \<Rightarrow> db_counters \<Rightarrow> db_counters" where
  "storage_db_counters_index_key_destroy th st =
     (case counters_index_key st th of
        None \<Rightarrow> st
      | Some index \<Rightarrow>
          st\<lparr>counters_slots_bitmap := slots_bitmap_mpmc_release index (counters_slots_bitmap st),
             counters_index_key := (counters_index_key st)(th := None)\<rparr>)"

definition storage_db_counters_get_current_thread_get_slot_index ::
    "nat \<Rightarrow> db_counters \<Rightarrow> (nat \<times> db_counters) option" where
  "storage_db_counters_get_current_thread_get_slot_index th st =
     (case storage_db_counters_slot_key_ensure_init th st of
        None \<Rightarrow> None
      | Some st1 \<Rightarrow> map_option (\<lambda>index. (index, st1)) (counters_index_key st1 th))"

text \<open>
  The result is the block of the counters. When the table refuses a new block, it is returned all
  the same, and nothing refers to it afterwards.
\<close>

definition storage_db_counters_per_thread_get_or_create ::
    "nat \<Rightarrow> u32 \<Rightarrow> db_counters \<Rightarrow> (nat \<times> db_counters) option" where
  "storage_db_counters_per_thread_get_or_create th database_number st =
     (case storage_db_counters_get_current_thread_get_slot_index th st of
        None \<Rightarrow> None
      | Some (index, st1) \<Rightarrow>
          (case cg_per_db (counters st1 ! index) of
             None \<Rightarrow> None
           | Some ht \<Rightarrow>
               (case hashtable_spsc_op_get_by_hash_and_key_uint32 ht database_number database_number of
                  None \<Rightarrow> None
                | Some (Some block) \<Rightarrow> Some (block, st1)
                | Some None \<Rightarrow>
                    (let block = counters_allocated st1;
                         st2 = st1\<lparr>counters_memory := (counters_memory st1)(block := 0),
                                   counters_allocated := Suc block\<rparr>
                     in case hashtable_spsc_op_try_set_by_hash_and_key_uint32 database_number database_number
                               (Some block) ht of
                          None \<Rightarrow> None
                        | Some (_, ht') \<Rightarrow>
                            Some (block, st2\<lparr>counters :=
                              (counters st2)[index := (counters st2 ! index)\<lparr>cg_per_db := Some ht'\<rparr>]\<rparr>)))))"

text \<open>The macro runs its statements on the global counters of the thread and on those of the database.\<close>

definition STORAGE_DB_COUNTERS_UPDATE ::
    "nat \<Rightarrow> u32 \<Rightarrow> (storage_db_counters \<Rightarrow> storage_db_counters) \<Rightarrow> db_counters \<Rightarrow> db_counters option" where
  "STORAGE_DB_COUNTERS_UPDATE th database_number f st =
     (case storage_db_counters_get_current_thread_get_slot_index th st of
        None \<Rightarrow> None
      | Some (index, st1) \<Rightarrow>
          (let st2 = st1\<lparr>counters := (counters st1)[index :=
                       (counters st1 ! index)\<lparr>cg_global := f (cg_global (counters st1 ! index))\<rparr>]\<rparr>
           in case storage_db_counters_per_thread_get_or_create th database_number st2 of
                None \<Rightarrow> None
              | Some (block, st3) \<Rightarrow>
                  Some (st3\<lparr>counters_memory := (counters_memory st3)(block := f (counters_memory st3 block))\<rparr>)))"

text \<open>
  The loops over the slots in use. Both start from the counters of the caller, of which they only
  reset \<open>data_size\<close>.
\<close>

fun sum_slots :: "(nat \<Rightarrow> storage_db_counters) \<Rightarrow> slots_bitmap_mpmc \<Rightarrow> nat \<Rightarrow> nat \<Rightarrow> storage_db_counters
    \<Rightarrow> storage_db_counters" where
  "sum_slots slot_counters bm 0 next_slot_index c = c"
| "sum_slots slot_counters bm (Suc workers_to_find) next_slot_index c =
     (case slots_bitmap_mpmc_iter bm next_slot_index of
        None \<Rightarrow> c
      | Some found_slot_index \<Rightarrow>
          sum_slots slot_counters bm workers_to_find (Suc found_slot_index) (c + slot_counters found_slot_index))"

definition reset_data_size :: "storage_db_counters \<Rightarrow> storage_db_counters" where
  "reset_data_size c = Counters (keys_count c) 0 (keys_changed c) (data_changed c)"

definition storage_db_counters_sum_global :: "db_counters \<Rightarrow> storage_db_counters \<Rightarrow> storage_db_counters option" where
  "storage_db_counters_sum_global st c =
     (let r = sum_slots (\<lambda>i. cg_global (counters st ! i)) (counters_slots_bitmap st) (workers_count st) 0
                (reset_data_size c)
      in if 0 \<le> sint (keys_count r) \<and> 0 \<le> sint (data_size r) then Some r else None)"

definition slot_db_block :: "db_counters \<Rightarrow> u32 \<Rightarrow> nat \<Rightarrow> nat option" where
  "slot_db_block st database_number index =
     (case cg_per_db (counters st ! index) of
        None \<Rightarrow> None
      | Some ht \<Rightarrow>
          (case hashtable_spsc_op_get_by_hash_and_key_uint32 ht database_number database_number of
             None \<Rightarrow> None
           | Some r \<Rightarrow> r))"

definition slot_db_counters :: "db_counters \<Rightarrow> u32 \<Rightarrow> nat \<Rightarrow> storage_db_counters" where
  "slot_db_counters st database_number index =
     (case slot_db_block st database_number index of None \<Rightarrow> 0 | Some block \<Rightarrow> counters_memory st block)"

definition storage_db_counters_sum_per_db :: "db_counters \<Rightarrow> u32 \<Rightarrow> storage_db_counters \<Rightarrow> storage_db_counters" where
  "storage_db_counters_sum_per_db st database_number c =
     sum_slots (slot_db_counters st database_number) (counters_slots_bitmap st) (workers_count st) 0
       (reset_data_size c)"


section \<open>The table of the databases\<close>

text \<open>
  The table has 128 buckets to start from and the hash is the number itself, so a number below 128
  has a bucket of its own. This is why the insertion cannot fail for such a number.
\<close>

definition db_table_ok :: "(u32, nat) hashtable_spsc \<Rightarrow> bool" where
  "db_table_ok ht \<longleftrightarrow> table_ok id (\<lambda>_. True) (\<lambda>_. 0) id ht \<and> buckets_count_pow2 ht = 128
     \<and> (\<forall>i < length (hashes ht). is_set (hashes ht ! i)
          \<longrightarrow> i < 128 \<and> key (buckets ht ! i) = Some (of_nat i))
     \<and> (\<forall>db. lookup id ht db \<noteq> Some None)"

definition block_of :: "(u32, nat) hashtable_spsc \<Rightarrow> u32 \<Rightarrow> nat option" where
  "block_of ht db = (case lookup id ht db of None \<Rightarrow> None | Some b \<Rightarrow> b)"

lemma db_table_get:
  "db_table_ok ht \<Longrightarrow> hashtable_spsc_op_get_by_hash_and_key_uint32 ht db db = Some (block_of ht db)"
  using numbers.get_correct [of id ht db]
  by (simp add: db_table_ok_def block_of_def hashtable_spsc_op_get_by_hash_and_key_uint32_def
      hashtable_spsc_find_bucket_index_by_key_uint32_def)

lemma db_table_new:
  assumes "hashtable_spsc_new 100 HASHTABLE_SPSC_DEFAULT_MAX_RANGE False = Some ht"
  shows "db_table_ok ht" and "block_of ht = Map.empty"
proof -
  have p: "(pow2_next 100 :: u64) = 128" by (simp add: pow2_next_def pow2_next_pow2m1_def)
  have "buckets_count_pow2 ht = 128" "\<not> is_set (hashes ht ! i)" if "i < length (hashes ht)" for i
    using assms that by (auto simp: hashtable_spsc_new_def Let_def p split: if_splits)
  moreover have "0 < length (hashes ht)" using new_shape [OF assms] by (auto simp: shape_ok_def)
  ultimately show "db_table_ok ht"
    using numbers.new_correct [OF assms] unfolding db_table_ok_def by auto
  show "block_of ht = Map.empty"
    using numbers.new_correct(2) [OF assms] by (simp add: block_of_def fun_eq_iff)
qed

lemma db_table_set:
  assumes ok: "db_table_ok ht" and db: "unat db < 128" and none: "block_of ht db = None"
  shows "\<exists>ht'. hashtable_spsc_op_try_set_by_hash_and_key_uint32 db db (Some b) ht = Some (True, ht')
    \<and> db_table_ok ht' \<and> block_of ht' = (block_of ht)(db \<mapsto> b)"
proof -
  have t: "table_ok id (\<lambda>_. True) (\<lambda>_. 0) id ht" and pow2: "buckets_count_pow2 ht = 128"
    and home: "\<And>i. i < length (hashes ht) \<Longrightarrow> is_set (hashes ht ! i)
      \<Longrightarrow> i < 128 \<and> key (buckets ht ! i) = Some (of_nat i)"
    and nn: "\<And>db. lookup id ht db \<noteq> Some None"
    using ok by (auto simp: db_table_ok_def)
  obtain n where n: "shape_ok n ht" using t by (auto simp: table_ok_def)
  have "(2::u32) ^ n = 2 ^ 7" using n pow2 by (simp add: shape_ok_def)
  then have i0: "hashtable_spsc_bucket_index_from_hash ht db = unat db"
    using db pow2 index_from_hash [of ht 7 db] by simp
  have lt: "unat db < length (hashes ht)"
    using window_bound [OF n, of db] unfolding i0 by linarith
  have absent: "lookup id ht db = None"
    using none nn [of db] by (cases "lookup id ht db") (auto simp: block_of_def)
  have noent: "\<not> entry id ht i db" for i
    using numbers.lookup_at [OF t, of i db] absent by auto
  then have unset: "\<not> is_set (hashes ht ! unat db)"
    using home [OF lt] lt by (auto simp: entry_def)
  have scan: "hashtable_spsc_find_empty_bucket ht (unat db) (unat db + unat (max_range ht)) = Bucket (unat db)"
    using lt unset by (simp add: hashtable_spsc_find_empty_bucket_def scan_buckets.simps)
  have "find_bucket_index (uint32_test db) ht db = No_bucket"
    using numbers.find_spec [OF t, of db] noent by (auto split: probe.splits)
  then have set: "hashtable_spsc_op_try_set_by_hash_and_key_uint32 db db (Some b) ht
      = Some (True, put_bucket (unat db) (HASHTABLE_SPSC_HASH db)
          \<lparr>key_length = 0, key = Some db, value = Some b\<rparr> ht)"
    by (simp add: hashtable_spsc_op_try_set_by_hash_and_key_uint32_def try_set_def Let_def i0 scan
        hashtable_spsc_find_bucket_index_by_key_uint32_def put_bucket_def)
  define ht' where "ht' = put_bucket (unat db) (HASHTABLE_SPSC_HASH db)
      \<lparr>key_length = 0, key = Some db, value = Some b\<rparr> ht"
  have "in_window ht db (unat db)"
    using n by (simp add: in_window_def i0 shape_ok_def)
  then have ok': "table_ok id (\<lambda>_. True) (\<lambda>_. 0) id ht'" and look: "lookup id ht' = (lookup id ht)(db \<mapsto> Some b)"
    using numbers.put_bucket_correct
        [OF t, where k = db and b = "\<lparr>key_length = 0, key = Some db, value = Some b\<rparr>" and i = "unat db"]
      unset noent unfolding ht'_def by (auto simp: entry_def)
  have "db_table_ok ht'"
    using ok' look pow2 home nn lt db shape_lengths [OF n] unfolding db_table_ok_def
    by (auto simp: ht'_def) (auto simp: put_bucket_def store_bucket_def mark_bucket_def)
  moreover have "block_of ht' = (block_of ht)(db \<mapsto> b)"
    by (simp add: block_of_def look fun_eq_iff)
  ultimately show ?thesis using set by (auto simp: ht'_def)
qed


section \<open>The invariant and the totals\<close>

definition slots_of :: "db_counters \<Rightarrow> nat set" where
  "slots_of st = ran (counters_index_key st)"

text \<open>\<open>T\<close> are the threads that use the storage, not more than there are workers.\<close>

definition counters_ok :: "nat set \<Rightarrow> db_counters \<Rightarrow> bool" where
  "counters_ok T st \<longleftrightarrow>
     finite T \<and> card T \<le> workers_count st \<and> workers_count st \<le> 1024
     \<and> dom (counters_index_key st) \<subseteq> T \<and> inj_on (counters_index_key st) (dom (counters_index_key st))
     \<and> mpmc_is 16 (counters_slots_bitmap st) (slots_of st)
     \<and> length (counters st) = 1024
     \<and> (\<forall>i\<in>slots_of st. \<exists>ht. cg_per_db (counters st ! i) = Some ht \<and> db_table_ok ht)
     \<and> (\<forall>i<1024. i \<notin> slots_of st \<longrightarrow> cg_global (counters st ! i) = 0)
     \<and> (\<forall>i\<in>slots_of st. \<forall>db b. slot_db_block st db i = Some b \<longrightarrow> b < counters_allocated st)
     \<and> (\<forall>i\<in>slots_of st. \<forall>j\<in>slots_of st. \<forall>db db' b.
          slot_db_block st db i = Some b \<longrightarrow> slot_db_block st db' j = Some b \<longrightarrow> i = j \<and> db = db')"

definition global_total :: "db_counters \<Rightarrow> storage_db_counters" where
  "global_total st = (\<Sum>i\<in>slots_of st. cg_global (counters st ! i))"

definition db_total :: "db_counters \<Rightarrow> u32 \<Rightarrow> storage_db_counters" where
  "db_total st db = (\<Sum>i\<in>slots_of st. slot_db_counters st db i)"

lemma slots_bounds:
  assumes "counters_ok T st"
  shows "finite (slots_of st)" "slots_of st \<subseteq> {..<1024}" "card (slots_of st) = card (dom (counters_index_key st))"
    and "card (slots_of st) \<le> card T"
proof -
  let ?d = "dom (counters_index_key st)"
  have sub: "?d \<subseteq> T" "finite T" and inj: "inj_on (counters_index_key st) ?d"
    using assms by (simp_all add: counters_ok_def)
  have fin: "finite ?d" using sub by (rule finite_subset)
  have le: "card ?d \<le> card T" using sub(2,1) by (rule card_mono)
  show "finite (slots_of st)" unfolding slots_of_def using fin by (rule finite_ran)
  show "slots_of st \<subseteq> {..<1024}"
    using assms by (auto simp: counters_ok_def mpmc_is_def used_slots_def)
  have "Some ` slots_of st = counters_index_key st ` ?d"
    by (force simp: slots_of_def ran_def image_iff dom_def)
  then have "card (Some ` slots_of st) = card ?d" using card_image [OF inj] by simp
  then show c: "card (slots_of st) = card ?d" by (simp add: card_image)
  show "card (slots_of st) \<le> card T" using c le by simp
qed

lemma block_less: "counters_ok T st \<Longrightarrow> i \<in> slots_of st \<Longrightarrow> slot_db_block st db i = Some b
    \<Longrightarrow> b < counters_allocated st"
  unfolding counters_ok_def by blast

lemma block_unique: "counters_ok T st \<Longrightarrow> i \<in> slots_of st \<Longrightarrow> j \<in> slots_of st
    \<Longrightarrow> slot_db_block st db i = Some b \<Longrightarrow> slot_db_block st db' j = Some b \<Longrightarrow> i = j \<and> db = db'"
  unfolding counters_ok_def by blast

lemma slot_block_of:
  "cg_per_db (counters st ! i) = Some ht \<Longrightarrow> db_table_ok ht \<Longrightarrow> slot_db_block st db i = block_of ht db"
  by (simp add: slot_db_block_def db_table_get)

section \<open>The sums\<close>

lemma sum_slots_total:
  assumes bm: "mpmc_is n bm S" and fin: "finite S" "S \<subseteq> {..<n * 64}"
  shows "card {i \<in> S. x \<le> i} \<le> w \<Longrightarrow> sum_slots f bm w x c = c + (\<Sum>i | i \<in> S \<and> x \<le> i. f i)"
proof (induction w arbitrary: x c)
  case 0
  then have "{i. i \<in> S \<and> x \<le> i} = {}" using fin by simp
  then show ?case by (simp only: sum.empty sum_slots.simps) simp
next
  case (Suc w)
  show ?case
  proof (cases "List.find (\<lambda>x. x \<in> S) [x..<n * 64]")
    case None
    then have "{i. i \<in> S \<and> x \<le> i} = {}" using fin by (auto simp: find_None_iff)
    then have "(\<Sum>i | i \<in> S \<and> x \<le> i. f i) = 0" by (simp only: sum.empty)
    then show ?thesis using None by (simp add: iter_is [OF bm])
  next
    case (Some y)
    then obtain k where k: "y = x + k" "y \<in> S" "\<And>j. j < k \<Longrightarrow> x + j \<notin> S"
      by (auto simp: find_Some_iff)
    have y: "y \<le> z" if "z \<in> S" "x \<le> z" for z
    proof (rule ccontr)
      assume "\<not> y \<le> z"
      then have "z - x < k" "x + (z - x) = z" using that k(1) by simp_all
      with k(3) [of "z - x"] that(1) show False by simp
    qed
    have split: "{i. i \<in> S \<and> x \<le> i} = insert y {i. i \<in> S \<and> Suc y \<le> i}"
      using k(1,2) y by (auto simp: Suc_le_eq nat_less_le)
    have "card {i \<in> S. Suc y \<le> i} \<le> w" using Suc.prems fin unfolding split by simp
    from Suc.IH [OF this] show ?thesis
      using Some fin unfolding split by (simp add: iter_is [OF bm] add.assoc)
  qed
qed

lemma counters_sums:
  assumes ok: "counters_ok T st"
  shows "storage_db_counters_sum_global st c
      = (let r = reset_data_size c + global_total st
         in if 0 \<le> sint (keys_count r) \<and> 0 \<le> sint (data_size r) then Some r else None)"
    and "storage_db_counters_sum_per_db st db c = reset_data_size c + db_total st db"
proof -
  have "sum_slots f (counters_slots_bitmap st) (workers_count st) 0 c = c + (\<Sum>i\<in>slots_of st. f i)" for f c
    using sum_slots_total [of 16 "counters_slots_bitmap st" "slots_of st" 0 "workers_count st" f c]
      slots_bounds [OF ok] ok by (simp add: counters_ok_def)
  then show "storage_db_counters_sum_global st c
      = (let r = reset_data_size c + global_total st
         in if 0 \<le> sint (keys_count r) \<and> 0 \<le> sint (data_size r) then Some r else None)"
    and "storage_db_counters_sum_per_db st db c = reset_data_size c + db_total st db"
    by (simp_all add: storage_db_counters_sum_global_def storage_db_counters_sum_per_db_def
        global_total_def db_total_def)
qed


section \<open>What the operations do to the totals\<close>

text \<open>The counters that a state shows: per slot the global ones, and per slot and database.\<close>

definition same_counters :: "db_counters \<Rightarrow> db_counters \<Rightarrow> bool" where
  "same_counters st st' \<longleftrightarrow> global_total st' = global_total st \<and> db_total st' = db_total st"

definition set_global :: "nat \<Rightarrow> storage_db_counters \<Rightarrow> db_counters \<Rightarrow> db_counters" where
  "set_global i g st = st\<lparr>counters := (counters st)[i := (counters st ! i)\<lparr>cg_global := g\<rparr>]\<rparr>"

lemma set_global_sel [simp]:
  "workers_count (set_global i g st) = workers_count st"
  "counters_slots_bitmap (set_global i g st) = counters_slots_bitmap st"
  "counters_index_key (set_global i g st) = counters_index_key st"
  "counters_memory (set_global i g st) = counters_memory st"
  "counters_allocated (set_global i g st) = counters_allocated st"
  "slots_of (set_global i g st) = slots_of st"
  "length (counters (set_global i g st)) = length (counters st)"
  by (simp_all add: set_global_def slots_of_def)

lemma set_global_at:
  assumes "i < length (counters st)"
  shows "cg_global (counters (set_global i g st) ! j) = (if j = i then g else cg_global (counters st ! j))"
    and "cg_per_db (counters (set_global i g st) ! j) = cg_per_db (counters st ! j)"
    and "slot_db_block (set_global i g st) db j = slot_db_block st db j"
    and "slot_db_counters (set_global i g st) db j = slot_db_counters st db j"
proof -
  show "cg_global (counters (set_global i g st) ! j) = (if j = i then g else cg_global (counters st ! j))"
    and per_db: "cg_per_db (counters (set_global i g st) ! j) = cg_per_db (counters st ! j)"
    using assms by (auto simp: set_global_def nth_list_update)
  then show block: "slot_db_block (set_global i g st) db j = slot_db_block st db j"
    by (simp add: slot_db_block_def)
  then show "slot_db_counters (set_global i g st) db j = slot_db_counters st db j"
    by (simp add: slot_db_counters_def split: option.split)
qed

lemma counters_ok_length: "counters_ok T st \<Longrightarrow> length (counters st) = 1024"
  by (simp add: counters_ok_def)

lemma slot_less: "counters_ok T st \<Longrightarrow> i \<in> slots_of st \<Longrightarrow> i < length (counters st)"
  using slots_bounds(2) by (auto simp: counters_ok_length)

lemma set_global_ok:
  assumes ok: "counters_ok T st" and i: "i \<in> slots_of st"
  shows "counters_ok T (set_global i g st)"
  using ok i unfolding counters_ok_def set_global_sel set_global_at [OF slot_less [OF ok i]] by auto

lemma sum_add_one:
  fixes f g :: "'i \<Rightarrow> storage_db_counters"
  assumes "finite S" "x \<in> S" "\<And>i. i \<in> S \<Longrightarrow> g i = f i + (if i = x then d else 0)"
  shows "sum g S = sum f S + d"
  using assms by (simp add: sum.distrib)

lemma set_global_totals:
  assumes ok: "counters_ok T st" and i: "i \<in> slots_of st"
  shows "global_total (set_global i (cg_global (counters st ! i) + d) st) = global_total st + d"
    and "db_total (set_global i g st) = db_total st"
proof -
  note at = set_global_at [OF slot_less [OF ok i]]
  show "global_total (set_global i (cg_global (counters st ! i) + d) st) = global_total st + d"
    unfolding global_total_def set_global_sel
    by (rule sum_add_one [OF slots_bounds(1) [OF ok] i]) (simp add: at)
  show "db_total (set_global i g st) = db_total st"
    by (rule ext) (simp add: db_total_def at)
qed

text \<open>A thread has a slot, or gets a free one, as long as it is one of not more than the workers.\<close>

definition give_slot :: "nat \<Rightarrow> nat \<Rightarrow> slots_bitmap_mpmc \<Rightarrow> (u32, nat) hashtable_spsc \<Rightarrow> db_counters \<Rightarrow> db_counters" where
  "give_slot th i bm ht st = st\<lparr>counters_slots_bitmap := bm,
     counters := (counters st)[i := (counters st ! i)\<lparr>cg_per_db := Some ht\<rparr>],
     counters_index_key := (counters_index_key st)(th \<mapsto> i)\<rparr>"

lemma give_slot_ok:
  assumes ok: "counters_ok T st" and th: "th \<in> T" "counters_index_key st th = None"
    and i: "i \<notin> slots_of st" "i < 1024" and bm: "mpmc_is 16 bm (insert i (slots_of st))"
    and ht: "db_table_ok ht" "block_of ht = Map.empty"
  shows "counters_ok T (give_slot th i bm ht st)" and "same_counters st (give_slot th i bm ht st)"
proof -
  let ?s = "give_slot th i bm ht st"
  have slots: "slots_of ?s = insert i (slots_of st)"
    using th(2) by (simp add: slots_of_def give_slot_def)
  have len: "i < length (counters st)" using i ok by (simp add: counters_ok_def)
  have at: "cg_global (counters ?s ! j) = cg_global (counters st ! j)"
    "cg_per_db (counters ?s ! j) = (if j = i then Some ht else cg_per_db (counters st ! j))" for j
    using len by (auto simp: give_slot_def nth_list_update)
  have block: "slot_db_block ?s db j = (if j = i then None else slot_db_block st db j)" for db j
    using ht by (simp add: slot_db_block_def at db_table_get)
  have mem: "counters_memory ?s = counters_memory st" "counters_allocated ?s = counters_allocated st"
    "workers_count ?s = workers_count st" "length (counters ?s) = length (counters st)"
    "counters_slots_bitmap ?s = bm" "counters_index_key ?s = (counters_index_key st)(th \<mapsto> i)"
    by (simp_all add: give_slot_def)
  have "counters_index_key st x \<noteq> Some i" for x
    using i(1) by (auto simp: slots_of_def ran_def)
  then have inj: "inj_on ((counters_index_key st)(th \<mapsto> i)) (insert th (dom (counters_index_key st)))"
    using ok th(2) by (auto simp: counters_ok_def inj_on_def)
  show "counters_ok T ?s"
    using ok bm inj th ht i unfolding counters_ok_def slots mem block at by auto
  have g0: "cg_global (counters st ! i) = 0" using ok i by (simp add: counters_ok_def)
  have d0: "slot_db_counters ?s db j = (if j = i then 0 else slot_db_counters st db j)" for db j
    by (simp add: slot_db_counters_def block mem split: option.split)
  have "(\<Sum>j\<in>slots_of st. slot_db_counters ?s db j) = (\<Sum>j\<in>slots_of st. slot_db_counters st db j)" for db
    using i(1) by (intro sum.cong) (auto simp: d0)
  then show "same_counters st ?s"
    using slots_bounds(1) [OF ok] i(1) g0
    by (simp add: same_counters_def global_total_def db_total_def slots at d0 fun_eq_iff)
qed

lemma free_slot:
  assumes ok: "counters_ok T st" and th: "th \<in> T" "counters_index_key st th = None"
  shows "\<exists>i. lowest_free 16 (slots_of st) = Some i \<and> i \<notin> slots_of st \<and> i < 1024"
proof -
  have "dom (counters_index_key st) \<subset> T" using ok th by (auto simp: counters_ok_def dom_def)
  then have "card (slots_of st) < card T"
    using slots_bounds(3) [OF ok] ok by (simp add: counters_ok_def psubset_card_mono)
  then have less: "card (slots_of st) < 1024" using ok by (simp add: counters_ok_def)
  have "lowest_free 16 (slots_of st) \<noteq> None"
  proof
    assume "lowest_free 16 (slots_of st) = None"
    then have "{..<1024} \<subseteq> slots_of st" by (auto simp: lowest_free_def find_None_iff)
    from card_mono [OF slots_bounds(1) [OF ok] this] less show False by simp
  qed
  then obtain i where "lowest_free 16 (slots_of st) = Some i" by blast
  moreover from this have "i \<notin> slots_of st \<and> i < 1024" by (auto simp: lowest_free_def find_Some_iff)
  ultimately show ?thesis by blast
qed

lemma new_db_table: "\<exists>ht. hashtable_spsc_new 100 HASHTABLE_SPSC_DEFAULT_MAX_RANGE False = Some ht"
  by (simp add: hashtable_spsc_new_def Let_def HASHTABLE_SPSC_DEFAULT_MAX_RANGE_def pow2_next_def
      pow2_next_pow2m1_def)

lemma slot_index_spec:
  assumes ok: "counters_ok T st" and th: "th \<in> T"
  shows "\<exists>i st'. storage_db_counters_get_current_thread_get_slot_index th st = Some (i, st')
    \<and> counters_ok T st' \<and> same_counters st st' \<and> counters_index_key st' th = Some i"
proof (cases "counters_index_key st th")
  case (Some i)
  then show ?thesis
    using ok by (simp add: storage_db_counters_get_current_thread_get_slot_index_def
        storage_db_counters_slot_key_ensure_init_def same_counters_def)
next
  case None
  obtain i where i: "lowest_free 16 (slots_of st) = Some i" "i \<notin> slots_of st" "i < 1024"
    using free_slot [OF ok th None] by blast
  have "mpmc_is 16 (counters_slots_bitmap st) (slots_of st)" using ok by (simp add: counters_ok_def)
  from next_available_mpmc_spec [OF this, of 0] i obtain bm where
    bm: "slots_bitmap_mpmc_get_next_available (counters_slots_bitmap st) = Some (Some i, bm)"
      "mpmc_is 16 bm (insert i (slots_of st))"
    by (auto simp: slots_bitmap_mpmc_get_next_available_def
        slots_bitmap_mpmc_get_next_available_ptr_with_step_def)
  obtain ht where ht: "hashtable_spsc_new 100 HASHTABLE_SPSC_DEFAULT_MAX_RANGE False
      = Some (ht :: (u32, nat) hashtable_spsc)"
    using new_db_table by blast
  have "storage_db_counters_get_current_thread_get_slot_index th st = Some (i, give_slot th i bm ht st)"
    by (simp add: storage_db_counters_get_current_thread_get_slot_index_def None bm(1) ht
        storage_db_counters_slot_key_ensure_init_def give_slot_def)
  with give_slot_ok [OF ok th None i(2,3) bm(2) db_table_new [OF ht]] show ?thesis
    by (simp add: give_slot_def)
qed


text \<open>The block of a database in the table of a slot, found or new.\<close>

definition add_block :: "nat \<Rightarrow> (u32, nat) hashtable_spsc \<Rightarrow> db_counters \<Rightarrow> db_counters" where
  "add_block i ht st = st\<lparr>counters_memory := (counters_memory st)(counters_allocated st := 0),
     counters_allocated := Suc (counters_allocated st),
     counters := (counters st)[i := (counters st ! i)\<lparr>cg_per_db := Some ht\<rparr>]\<rparr>"

lemma add_block_ok:
  assumes ok: "counters_ok T st" and i: "i \<in> slots_of st"
    and ht: "cg_per_db (counters st ! i) = Some ht" "db_table_ok ht"
    and ht': "db_table_ok ht'" "block_of ht' = (block_of ht)(db \<mapsto> counters_allocated st)"
    and none: "block_of ht db = None"
  shows "counters_ok T (add_block i ht' st)" and "same_counters st (add_block i ht' st)"
    and "slot_db_block (add_block i ht' st) db i = Some (counters_allocated st)"
proof -
  let ?s = "add_block i ht' st" and ?a = "counters_allocated st"
  note len = slot_less [OF ok i]
  have sel: "slots_of ?s = slots_of st" "counters_allocated ?s = Suc ?a" "workers_count ?s = workers_count st"
    "length (counters ?s) = length (counters st)" "counters_slots_bitmap ?s = counters_slots_bitmap st"
    "counters_index_key ?s = counters_index_key st" "counters_memory ?s = (counters_memory st)(?a := 0)"
    by (simp_all add: add_block_def slots_of_def)
  have at: "cg_global (counters ?s ! j) = cg_global (counters st ! j)"
    "cg_per_db (counters ?s ! j) = (if j = i then Some ht' else cg_per_db (counters st ! j))" for j
    using len by (auto simp: add_block_def nth_list_update)
  have block: "slot_db_block ?s x j = (if j = i \<and> x = db then Some ?a else slot_db_block st x j)" for x j
    using ht ht' by (simp add: slot_db_block_def at db_table_get)
  have fresh: "slot_db_block st x j \<noteq> Some ?a" if "j \<in> slots_of st" for x j
    using block_less [OF ok that] by blast
  have absent: "slot_db_block st db i = None" using none slot_block_of [OF ht] by simp
  have old: "slot_db_block st x j = Some b \<Longrightarrow> j \<in> slots_of st \<Longrightarrow> b < Suc ?a" for x j b
    using block_less [OF ok] by (auto intro: less_SucI)
  have uniq: "slot_db_block ?s x j = Some b \<Longrightarrow> slot_db_block ?s y k = Some b \<Longrightarrow> j = k \<and> x = y"
    if "j \<in> slots_of st" "k \<in> slots_of st" for x y j k b
    using block_unique [OF ok that] fresh that unfolding block by (auto split: if_splits)
  have less: "slot_db_block ?s x j = Some b \<Longrightarrow> b < Suc ?a" if "j \<in> slots_of st" for x j b
    using old [OF _ that, of x b] unfolding block by (auto split: if_splits)
  have tables: "\<exists>ht. (if j = i then Some ht' else cg_per_db (counters st ! j)) = Some ht \<and> db_table_ok ht"
    if "j \<in> slots_of st" for j
    using ok ht'(1) that by (simp add: counters_ok_def)
  have blocks: "\<forall>j\<in>slots_of st. \<forall>x b. slot_db_block ?s x j = Some b \<longrightarrow> b < Suc ?a"
    "\<forall>j\<in>slots_of st. \<forall>k\<in>slots_of st. \<forall>x y b. slot_db_block ?s x j = Some b
      \<longrightarrow> slot_db_block ?s y k = Some b \<longrightarrow> j = k \<and> x = y"
    using less uniq by blast+
  show "counters_ok T ?s"
    using ok tables blocks unfolding counters_ok_def sel at by blast
  have "slot_db_counters ?s x j = slot_db_counters st x j" if "j \<in> slots_of st" for x j
    using fresh [OF that] absent by (auto simp: slot_db_counters_def block sel split: option.splits)
  then show "same_counters st ?s"
    by (simp add: same_counters_def global_total_def db_total_def sel at fun_eq_iff)
  show "slot_db_block ?s db i = Some ?a" by (simp add: block)
qed

lemma get_or_create_spec:
  assumes ok: "counters_ok T st" and th: "counters_index_key st th = Some i" and db: "unat db < 128"
  shows "\<exists>b st'. storage_db_counters_per_thread_get_or_create th db st = Some (b, st')
    \<and> counters_ok T st' \<and> same_counters st st' \<and> slots_of st' = slots_of st \<and> slot_db_block st' db i = Some b"
proof -
  have i: "i \<in> slots_of st" using th by (auto simp: slots_of_def ran_def)
  obtain ht where ht: "cg_per_db (counters st ! i) = Some ht" "db_table_ok ht"
    using ok i by (auto simp: counters_ok_def)
  have here: "storage_db_counters_get_current_thread_get_slot_index th st = Some (i, st)"
    using th by (simp add: storage_db_counters_get_current_thread_get_slot_index_def
        storage_db_counters_slot_key_ensure_init_def)
  show ?thesis
  proof (cases "block_of ht db")
    case (Some b)
    then show ?thesis
      using ok slot_block_of [OF ht] by (simp add: storage_db_counters_per_thread_get_or_create_def here ht(1)
          db_table_get [OF ht(2)] same_counters_def)
  next
    case None
    obtain ht' where set: "hashtable_spsc_op_try_set_by_hash_and_key_uint32 db db (Some (counters_allocated st)) ht
        = Some (True, ht')" and ht': "db_table_ok ht'" "block_of ht' = (block_of ht)(db \<mapsto> counters_allocated st)"
      using db_table_set [OF ht(2) db None] by blast
    have "storage_db_counters_per_thread_get_or_create th db st
        = Some (counters_allocated st, add_block i ht' st)"
      by (simp add: storage_db_counters_per_thread_get_or_create_def here ht(1) db_table_get [OF ht(2)] None set
          Let_def add_block_def)
    with add_block_ok [OF ok i ht ht' None] show ?thesis by (simp add: add_block_def slots_of_def)
  qed
qed

definition write_block :: "nat \<Rightarrow> storage_db_counters \<Rightarrow> db_counters \<Rightarrow> db_counters" where
  "write_block b c st = st\<lparr>counters_memory := (counters_memory st)(b := c)\<rparr>"

lemma write_block_totals:
  assumes ok: "counters_ok T st" and i: "i \<in> slots_of st" and b: "slot_db_block st db i = Some b"
  shows "counters_ok T (write_block b (counters_memory st b + d) st)"
    and "global_total (write_block b (counters_memory st b + d) st) = global_total st"
    and "db_total (write_block b (counters_memory st b + d) st) = (db_total st)(db := db_total st db + d)"
proof -
  let ?s = "write_block b (counters_memory st b + d) st"
  have sel: "slots_of ?s = slots_of st" "counters ?s = counters st" "slot_db_block ?s = slot_db_block st"
    "counters_allocated ?s = counters_allocated st" "workers_count ?s = workers_count st"
    "counters_slots_bitmap ?s = counters_slots_bitmap st" "counters_index_key ?s = counters_index_key st"
    "counters_memory ?s = (counters_memory st)(b := counters_memory st b + d)"
    by (simp_all add: write_block_def slots_of_def slot_db_block_def fun_eq_iff)
  show "counters_ok T ?s" using ok unfolding counters_ok_def sel .
  show "global_total ?s = global_total st" by (simp add: global_total_def sel)
  have uniq: "j = i \<and> x = db" if "j \<in> slots_of st" "slot_db_block st x j = Some b" for j x
    using block_unique [OF ok that(1) i that(2) b] .
  have c: "slot_db_counters ?s x j = slot_db_counters st x j + (if x = db \<and> j = i then d else 0)"
    if "j \<in> slots_of st" for x j
  proof (cases "slot_db_block st x j = Some b")
    case True
    with uniq [OF that True] show ?thesis by (simp add: slot_db_counters_def sel)
  next
    case False
    with b have "\<not> (x = db \<and> j = i)" by blast
    with False show ?thesis by (auto simp: slot_db_counters_def sel split: option.split)
  qed
  have "db_total ?s x = (if x = db then db_total st db + d else db_total st x)" for x
  proof (cases "x = db")
    case True
    then show ?thesis
      unfolding db_total_def sel
      using sum_add_one [OF slots_bounds(1) [OF ok] i, of "slot_db_counters ?s db" "slot_db_counters st db" d] c
      by simp
  next
    case False
    then show ?thesis by (simp add: db_total_def sel c)
  qed
  then show "db_total ?s = (db_total st)(db := db_total st db + d)" by auto
qed

lemma update_spec:
  assumes ok: "counters_ok T st" and th: "th \<in> T" and db: "unat db < 128"
  shows "\<exists>st'. STORAGE_DB_COUNTERS_UPDATE th db (\<lambda>c. c + d) st = Some st' \<and> counters_ok T st'
    \<and> global_total st' = global_total st + d \<and> db_total st' = (db_total st)(db := db_total st db + d)"
proof -
  obtain i st1 where st1: "storage_db_counters_get_current_thread_get_slot_index th st = Some (i, st1)"
    "counters_ok T st1" "same_counters st st1" "counters_index_key st1 th = Some i"
    using slot_index_spec [OF ok th] by blast
  have i: "i \<in> slots_of st1" using st1(4) by (auto simp: slots_of_def ran_def)
  define st2 where "st2 = set_global i (cg_global (counters st1 ! i) + d) st1"
  have ok2: "counters_ok T st2" and key2: "counters_index_key st2 th = Some i"
    using set_global_ok [OF st1(2) i] st1(4) by (simp_all add: st2_def)
  obtain b st3 where st3: "storage_db_counters_per_thread_get_or_create th db st2 = Some (b, st3)"
    "counters_ok T st3" "same_counters st2 st3" "slots_of st3 = slots_of st2" "slot_db_block st3 db i = Some b"
    using get_or_create_spec [OF ok2 key2 db] by blast
  define st4 where "st4 = write_block b (counters_memory st3 b + d) st3"
  have "STORAGE_DB_COUNTERS_UPDATE th db (\<lambda>c. c + d) st = Some st4"
    using st3(1) by (simp add: STORAGE_DB_COUNTERS_UPDATE_def st1(1) Let_def st4_def write_block_def st2_def set_global_def)
  moreover have "i \<in> slots_of st3" using i st3(4) by (simp add: st2_def)
  note w = write_block_totals [OF st3(2) this st3(5), of d, folded st4_def]
  note g = set_global_totals [OF st1(2) i]
  ultimately show ?thesis
    using w g st1(3) st3(3) unfolding same_counters_def st2_def by simp
qed

section \<open>Updates by any threads in any order\<close>

fun updates :: "(nat \<times> u32 \<times> storage_db_counters) list \<Rightarrow> db_counters \<Rightarrow> db_counters option" where
  "updates [] st = Some st"
| "updates ((th, db, d) # us) st =
     (case STORAGE_DB_COUNTERS_UPDATE th db (\<lambda>c. c + d) st of None \<Rightarrow> None | Some st1 \<Rightarrow> updates us st1)"

definition updated :: "u32 \<Rightarrow> (nat \<times> u32 \<times> storage_db_counters) list \<Rightarrow> storage_db_counters" where
  "updated db us = (\<Sum>(th, db', d)\<leftarrow>us. if db' = db then d else 0)"

lemma updates_spec:
  assumes "counters_ok T st" "\<forall>(th, db, d)\<in>set us. th \<in> T \<and> unat db < 128"
  shows "\<exists>st'. updates us st = Some st' \<and> counters_ok T st'
    \<and> global_total st' = global_total st + (\<Sum>(th, db, d)\<leftarrow>us. d)
    \<and> (\<forall>db. db_total st' db = db_total st db + updated db us)"
  using assms
proof (induction us arbitrary: st)
  case Nil
  then show ?case by (simp add: updated_def)
next
  case (Cons u us)
  obtain th db d where u: "u = (th, db, d)" by (cases u) auto
  obtain st1 where st1: "STORAGE_DB_COUNTERS_UPDATE th db (\<lambda>c. c + d) st = Some st1" "counters_ok T st1"
    "global_total st1 = global_total st + d" "db_total st1 = (db_total st)(db := db_total st db + d)"
    using update_spec [OF Cons.prems(1), of th db d] Cons.prems(2) u by auto
  obtain st' where st': "updates us st1 = Some st'" "counters_ok T st'"
    "global_total st' = global_total st1 + (\<Sum>(th, db, d)\<leftarrow>us. d)"
    "\<forall>db. db_total st' db = db_total st1 db + updated db us"
    using Cons.IH [OF st1(2)] Cons.prems(2) by auto
  then show ?case using st1 u by (auto simp: updated_def add.assoc)
qed

lemma counters_new_ok:
  assumes "counters_new workers = Some st" "finite T" "card T \<le> workers" "workers \<le> 1024"
  shows "counters_ok T st" "global_total st = 0" "db_total st = (\<lambda>_. 0)"
proof -
  obtain bm where bm: "slots_bitmap_mpmc_init STORAGE_DB_WORKERS_MAX = Some bm"
    and st: "st = \<lparr>workers_count = workers, counters_slots_bitmap = bm,
          counters = replicate STORAGE_DB_WORKERS_MAX \<lparr>cg_global = 0, cg_per_db = None\<rparr>,
          counters_index_key = (\<lambda>_. None), counters_memory = (\<lambda>_. 0), counters_allocated = 0\<rparr>"
    using assms(1) by (auto simp: counters_new_def split: option.splits)
  have slots: "slots_of st = {}" by (simp add: st slots_of_def)
  have "slots_bitmap_mpmc_calculate_shard_count STORAGE_DB_WORKERS_MAX = 16"
    by (simp add: slots_bitmap_mpmc_calculate_shard_count_def STORAGE_DB_WORKERS_MAX_def SHARD_SIZE_def)
  then have "mpmc_is 16 bm {}" using init_is [OF bm] by (simp add: STORAGE_DB_WORKERS_MAX_def)
  then show "counters_ok T st"
    using assms unfolding counters_ok_def slots by (simp add: st STORAGE_DB_WORKERS_MAX_def)
  show "global_total st = 0" "db_total st = (\<lambda>_. 0)"
    by (simp_all add: global_total_def db_total_def slots fun_eq_iff)
qed

lemma counters_new_defined: "\<exists>st. counters_new workers = Some st"
proof -
  obtain bm where "slots_bitmap_mpmc_init STORAGE_DB_WORKERS_MAX = Some bm"
    unfolding slots_bitmap_mpmc_init_def Let_def by (simp add: STORAGE_DB_WORKERS_MAX_def)
  then show ?thesis by (simp add: counters_new_def del: replicate.simps)
qed

text \<open>
  C32: the counters of the storage lose nothing. Whatever threads, not more than the workers of the
  storage, add to the counters of databases with a number below 128 and in whatever order, the
  updates succeed. The sum for a database adds to the counters of the caller exactly what was added
  for that database, and the global sum what was added in all, in 64 bits; of the caller's counters
  only the size of the data is reset first. The global sum fails exactly when it shows a negative
  number of keys or bytes, which the code asserts never happens.
\<close>

theorem counters_sum_updates:
  assumes "counters_new workers = Some st" and "finite T" and "card T \<le> workers" and "workers \<le> 1024"
    and "\<forall>(th, db, d)\<in>set us. th \<in> T \<and> unat db < 128"
  shows "\<exists>st'. updates us st = Some st'
    \<and> (\<forall>db c. storage_db_counters_sum_per_db st' db c = reset_data_size c + updated db us)
    \<and> (\<forall>c. storage_db_counters_sum_global st' c
        = (let total = reset_data_size c + (\<Sum>(th, db, d)\<leftarrow>us. d)
           in if 0 \<le> sint (keys_count total) \<and> 0 \<le> sint (data_size total) then Some total else None))"
proof -
  note new = counters_new_ok [OF assms(1-4)]
  obtain st' where st': "updates us st = Some st'" "counters_ok T st'"
    "global_total st' = (\<Sum>(th, db, d)\<leftarrow>us. d)" "\<forall>db. db_total st' db = updated db us"
    using updates_spec [OF new(1) assms(5)] new(2,3) by auto
  have "storage_db_counters_sum_per_db st' db c = reset_data_size c + updated db us" for db c
    using st'(4) counters_sums(2) [OF st'(2), of db c] by simp
  moreover have "storage_db_counters_sum_global st' c
      = (let total = reset_data_size c + (\<Sum>(th, db, d)\<leftarrow>us. d)
         in if 0 \<le> sint (keys_count total) \<and> 0 \<le> sint (data_size total) then Some total else None)" for c
    unfolding counters_sums(1) [OF st'(2)] st'(3) ..
  ultimately show ?thesis using st'(1) by blast
qed

definition example_updates :: "(nat \<times> u32 \<times> storage_db_counters) list" where
  "example_updates = [(7, 0, Counters 1 10 1 10), (9, 0, Counters 1 5 1 5), (9, 3, Counters 1 2 1 2),
     (7, 0, Counters (-1) (-5) 1 5)]"

theorem counters_sum_updates_witness:
  "\<exists>st st'. counters_new 2 = Some st \<and> updates example_updates st = Some st'
    \<and> storage_db_counters_sum_per_db st' 0 (Counters 100 100 0 0) = Counters 101 10 3 20
    \<and> storage_db_counters_sum_global st' 0 = Some (Counters 2 12 4 22)"
proof -
  obtain st where st: "counters_new 2 = Some st" using counters_new_defined by blast
  have us: "\<forall>(th, db, d)\<in>set example_updates. th \<in> {7, 9} \<and> unat db < 128"
    by (simp add: example_updates_def)
  have db: "reset_data_size (Counters 100 100 0 0) + updated 0 example_updates = Counters 101 10 3 20"
    and total: "reset_data_size 0 + (\<Sum>(th, db, d)\<leftarrow>example_updates. d) = Counters 2 12 4 22"
    by (simp_all add: updated_def example_updates_def zero_storage_db_counters_def
        plus_storage_db_counters_def reset_data_size_def)
  obtain st' where st': "updates example_updates st = Some st'"
    "\<forall>db c. storage_db_counters_sum_per_db st' db c = reset_data_size c + updated db example_updates"
    "\<forall>c. storage_db_counters_sum_global st' c
        = (let total = reset_data_size c + (\<Sum>(th, db, d)\<leftarrow>example_updates. d)
           in if 0 \<le> sint (keys_count total) \<and> 0 \<le> sint (data_size total) then Some total else None)"
    using counters_sum_updates [OF st, of "{7, 9}" example_updates] us by auto
  have "storage_db_counters_sum_global st' 0 = Some (Counters 2 12 4 22)"
    using st'(3) [rule_format, of 0] unfolding total Let_def by simp
  with st st'(1,2) db show ?thesis by auto
qed

end
