(* ===== verification/Storage_Chunks.thy ===== *)
theory Storage_Chunks
  imports Prelude
begin

text \<open>
  The chunks a value is kept in, \<open>src/src/storage/db/storage_db.c\<close>, with the memory backend. A
  chunk is a block of memory of its own, so it is the list of its bytes. Reading or writing outside
  a block has no result. The contents of fresh memory are a parameter: \<open>mem i n\<close> are the \<open>n\<close> bytes
  the allocator returns for chunk \<open>i\<close>. The allocator of the program does not return if there is no
  memory, so the branches for a failed allocation are not taken.
\<close>

section \<open>Blocks of memory\<close>

definition mem_read :: "bytes \<Rightarrow> nat \<Rightarrow> nat \<Rightarrow> bytes option" where
  "mem_read block offset n = (if offset + n \<le> length block then Some (take n (drop offset block)) else None)"

definition mem_write :: "bytes \<Rightarrow> nat \<Rightarrow> bytes \<Rightarrow> bytes option" where
  "mem_write block offset bs =
     (if offset + length bs \<le> length block
      then Some (take offset block @ bs @ drop (offset + length bs) block) else None)"

type_synonym fresh_memory = "nat \<Rightarrow> nat \<Rightarrow> bytes"

definition fresh_ok :: "fresh_memory \<Rightarrow> bool" where
  "fresh_ok mem \<longleftrightarrow> (\<forall>i n. length (mem i n) = n)"

section \<open>Chunks and sequences of chunks\<close>

definition STORAGE_DB_CHUNK_MAX_SIZE :: nat where "STORAGE_DB_CHUNK_MAX_SIZE = 64 * 1024 - 1"

record storage_db_chunk_info =
  chunk_data :: bytes
  chunk_length :: nat

record storage_db_chunk_sequence =
  seq_count :: nat
  seq_sequence :: "storage_db_chunk_info list"
  seq_size :: nat

text \<open>The quotient of the two numbers in floating point is rounded up correctly below \<open>2 ^ 48\<close>.\<close>

definition storage_db_chunk_sequence_calculate_chunk_count :: "nat \<Rightarrow> nat" where
  "storage_db_chunk_sequence_calculate_chunk_count n =
     (n + (STORAGE_DB_CHUNK_MAX_SIZE - 1)) div STORAGE_DB_CHUNK_MAX_SIZE"

definition storage_db_chunk_data_pre_allocate :: "fresh_memory \<Rightarrow> nat \<Rightarrow> nat \<Rightarrow> storage_db_chunk_info" where
  "storage_db_chunk_data_pre_allocate mem i n = \<lparr> chunk_data = mem i n, chunk_length = n mod 2 ^ 16 \<rparr>"

text \<open>The subtraction wraps after the last chunk, where its result is not used any more.\<close>

fun allocate_chunks :: "fresh_memory \<Rightarrow> nat \<Rightarrow> nat \<Rightarrow> nat \<Rightarrow> storage_db_chunk_info list" where
  "allocate_chunks mem i 0 remaining_length = []"
| "allocate_chunks mem i (Suc k) remaining_length =
     storage_db_chunk_data_pre_allocate mem i (min remaining_length STORAGE_DB_CHUNK_MAX_SIZE)
     # allocate_chunks mem (Suc i) k (remaining_length - STORAGE_DB_CHUNK_MAX_SIZE)"

definition storage_db_chunk_sequence_allocate :: "fresh_memory \<Rightarrow> nat \<Rightarrow> storage_db_chunk_sequence" where
  "storage_db_chunk_sequence_allocate mem n =
     (let chunk_count = storage_db_chunk_sequence_calculate_chunk_count n mod 2 ^ 32;
          cnt = chunk_count mod 2 ^ 16
      in \<lparr> seq_count = cnt,
           seq_sequence = (if 0 < n then allocate_chunks mem 0 cnt n else []),
           seq_size = n \<rparr>)"

definition storage_db_chunk_sequence_get ::
    "storage_db_chunk_sequence option \<Rightarrow> nat \<Rightarrow> storage_db_chunk_info option" where
  "storage_db_chunk_sequence_get chunk_sequence i =
     (case chunk_sequence of
        None \<Rightarrow> None
      | Some s \<Rightarrow> if seq_count s \<le> i then None else Some (seq_sequence s ! i))"

definition storage_db_chunk_read :: "storage_db_chunk_info \<Rightarrow> nat \<Rightarrow> nat \<Rightarrow> bytes option" where
  "storage_db_chunk_read c offset n =
     (if offset + n \<le> chunk_length c then mem_read (chunk_data c) offset n else None)"

definition storage_db_chunk_write :: "storage_db_chunk_info \<Rightarrow> nat \<Rightarrow> bytes \<Rightarrow> storage_db_chunk_info option" where
  "storage_db_chunk_write c offset bs =
     (case mem_write (chunk_data c) offset bs of None \<Rightarrow> None | Some d \<Rightarrow> Some (c\<lparr>chunk_data := d\<rparr>))"

text \<open>A pointer into the sequence writes the chunk it points to.\<close>

definition sequence_write :: "storage_db_chunk_sequence \<Rightarrow> nat \<Rightarrow> nat \<Rightarrow> bytes \<Rightarrow> storage_db_chunk_sequence option" where
  "sequence_write s i offset bs =
     (case storage_db_chunk_sequence_get (Some s) i of
        None \<Rightarrow> None
      | Some c \<Rightarrow>
          (case storage_db_chunk_write c offset bs of
             None \<Rightarrow> None
           | Some c1 \<Rightarrow> Some (s\<lparr>seq_sequence := (seq_sequence s)[i := c1]\<rparr>)))"

definition storage_db_chunk_sequence_free_chunks :: "storage_db_chunk_sequence \<Rightarrow> storage_db_chunk_sequence" where
  "storage_db_chunk_sequence_free_chunks s = \<lparr> seq_count = 0, seq_sequence = [], seq_size = 0 \<rparr>"

section \<open>Values written to a sequence\<close>

text \<open>
  The string of an argument that arrives in pieces (\<open>src/src/module/redis/module_redis_command.c\<close>).
  The state is the sequence, and the chunk and the offset that the next byte goes to.
\<close>

record module_redis_long_string =
  ls_sequence :: storage_db_chunk_sequence
  current_chunk_index :: nat
  current_chunk_offset :: nat

function stream_data_loop :: "bytes \<Rightarrow> nat \<Rightarrow> module_redis_long_string \<Rightarrow> module_redis_long_string option" where
  "stream_data_loop data written_data s =
     (case storage_db_chunk_sequence_get (Some (ls_sequence s)) (current_chunk_index s) of
        None \<Rightarrow> None
      | Some c \<Rightarrow>
          let chunk_length_to_write = length data - written_data;
              chunk_available_size = chunk_length c - current_chunk_offset s;
              n = min chunk_length_to_write chunk_available_size
          in if n = 0 then None
             else case sequence_write (ls_sequence s) (current_chunk_index s) (current_chunk_offset s)
                         (take n (drop written_data data)) of
               None \<Rightarrow> None
             | Some q \<Rightarrow>
                 let full = current_chunk_offset s + n = chunk_length c;
                     s1 = s\<lparr> ls_sequence := q,
                            current_chunk_index := (if full then current_chunk_index s + 1 else current_chunk_index s),
                            current_chunk_offset := (if full then 0 else current_chunk_offset s + n) \<rparr>
                 in if written_data + n < length data then stream_data_loop data (written_data + n) s1
                    else Some s1)"
  by pat_completeness auto

termination
  by (relation "measure (\<lambda>(data, w, s). length data - w)") auto

definition module_redis_command_process_argument_stream_data ::
    "bytes \<Rightarrow> module_redis_long_string \<Rightarrow> module_redis_long_string option" where
  "module_redis_command_process_argument_stream_data data s =
     (if length data = 0 then Some s else stream_data_loop data 0 s)"

definition argument_stream_begin :: "fresh_memory \<Rightarrow> nat \<Rightarrow> module_redis_long_string" where
  "argument_stream_begin mem n =
     \<lparr> ls_sequence = storage_db_chunk_sequence_allocate mem n, current_chunk_index = 0, current_chunk_offset = 0 \<rparr>"

text \<open>The pieces of an argument, in the order they arrive.\<close>

fun argument_stream :: "bytes list \<Rightarrow> module_redis_long_string \<Rightarrow> module_redis_long_string option" where
  "argument_stream [] s = Some s"
| "argument_stream (p # ps) s =
     (case module_redis_command_process_argument_stream_data p s of
        None \<Rightarrow> None | Some s1 \<Rightarrow> argument_stream ps s1)"

section \<open>Byte strings cut into pieces\<close>

abbreviation chunk_max :: nat where "chunk_max \<equiv> STORAGE_DB_CHUNK_MAX_SIZE"

lemma chunk_max_pos [simp]: "0 < chunk_max" "chunk_max \<noteq> 0"
  by (simp_all add: STORAGE_DB_CHUNK_MAX_SIZE_def)

function pieces :: "bytes \<Rightarrow> bytes list" where
  "pieces v = (if v = [] then [] else take chunk_max v # pieces (drop chunk_max v))"
  by pat_completeness auto

termination
  by (relation "measure length") auto

declare pieces.simps [simp del]

lemma pieces_Nil [simp]: "pieces [] = []"
  by (simp add: pieces.simps)

lemma concat_pieces [simp]: "concat (pieces v) = v"
  by (induction v rule: pieces.induct) (subst pieces.simps, simp)

definition ceil_div :: "nat \<Rightarrow> nat" where
  "ceil_div n = (n + (chunk_max - 1)) div chunk_max"

lemma ceil_div_less_iff: "i < ceil_div n \<longleftrightarrow> i * chunk_max < n"
proof -
  have "i < ceil_div n \<longleftrightarrow> Suc i * chunk_max \<le> n + (chunk_max - 1)"
    unfolding ceil_div_def by (metis Suc_le_eq chunk_max_pos(1) less_eq_div_iff_mult_less_eq)
  also have "\<dots> \<longleftrightarrow> i * chunk_max < n"
    using chunk_max_pos(1) by (simp only: mult_Suc) linarith
  finally show ?thesis .
qed

lemma ceil_div_0 [simp]: "ceil_div 0 = 0"
  by (simp add: ceil_div_def)

lemma ceil_div_step: "0 < n \<Longrightarrow> ceil_div n = Suc (ceil_div (n - chunk_max))"
proof (rule antisym)
  assume "0 < n"
  show "ceil_div n \<le> Suc (ceil_div (n - chunk_max))"
  proof (rule ccontr)
    assume "\<not> ?thesis"
    then have "Suc (ceil_div (n - chunk_max)) < ceil_div n" by simp
    then have "Suc (ceil_div (n - chunk_max)) * chunk_max < n" by (simp only: ceil_div_less_iff)
    then have "ceil_div (n - chunk_max) * chunk_max < n - chunk_max" by (simp add: less_diff_conv)
    then have "ceil_div (n - chunk_max) < ceil_div (n - chunk_max)" by (simp only: ceil_div_less_iff)
    then show False by simp
  qed
  show "Suc (ceil_div (n - chunk_max)) \<le> ceil_div n"
  proof (cases "ceil_div (n - chunk_max)")
    case 0
    then show ?thesis using ceil_div_less_iff [of 0 n] \<open>0 < n\<close> by simp
  next
    case (Suc k)
    then have "k * chunk_max < n - chunk_max" using ceil_div_less_iff [of k "n - chunk_max"] by simp
    then have "Suc k * chunk_max < n" by (simp add: less_diff_conv)
    then have "Suc k < ceil_div n" by (simp only: ceil_div_less_iff)
    then show ?thesis using Suc by simp
  qed
qed

lemma length_pieces [simp]: "length (pieces v) = ceil_div (length v)"
proof (induction v rule: pieces.induct)
  case (1 v)
  then show ?case
    by (cases "v = []") (simp_all add: pieces.simps [of v] ceil_div_step [of "length v"])
qed

lemma nth_pieces: "i * chunk_max < length v \<Longrightarrow> pieces v ! i = take chunk_max (drop (i * chunk_max) v)"
proof (induction v arbitrary: i rule: pieces.induct)
  case (1 v)
  show ?case
  proof (cases i)
    case 0
    then show ?thesis using 1 by (subst pieces.simps) auto
  next
    case (Suc k)
    have "v \<noteq> []" and "k * chunk_max < length (drop chunk_max v)" using 1(2) Suc by auto
    from 1(1) [OF this] have "pieces (drop chunk_max v) ! k = take chunk_max (drop (k * chunk_max + chunk_max) v)"
      by (simp add: add.commute)
    then show ?thesis using Suc \<open>v \<noteq> []\<close> by (subst pieces.simps) (simp add: add.commute)
  qed
qed

definition splice :: "bytes \<Rightarrow> nat \<Rightarrow> bytes \<Rightarrow> bytes" where
  "splice v p bs = take p v @ bs @ drop (p + length bs) v"

lemma length_splice [simp]: "p + length bs \<le> length v \<Longrightarrow> length (splice v p bs) = length v"
  by (simp add: splice_def)

lemma splice_Nil [simp]: "splice v p [] = v"
  by (simp add: splice_def)

lemma splice_append:
  assumes "p + length xs + length ys \<le> length v"
  shows "splice (splice v p xs) (p + length xs) ys = splice v p (xs @ ys)"
  using assms by (simp add: splice_def ac_simps)

lemma nth_splice:
  assumes "p + length bs \<le> length v" and "k < length v"
  shows "splice v p bs ! k = (if p \<le> k \<and> k < p + length bs then bs ! (k - p) else v ! k)"
  using assms by (auto simp: splice_def nth_append min_def)

lemma splice_all: "length bs = length v \<Longrightarrow> splice v 0 bs = bs"
  by (simp add: splice_def)

section \<open>The sequence that holds a value\<close>

definition chunk_of :: "bytes \<Rightarrow> storage_db_chunk_info" where
  "chunk_of p = \<lparr> chunk_data = p, chunk_length = length p \<rparr>"

lemma chunk_of_simps [simp]: "chunk_data (chunk_of p) = p" "chunk_length (chunk_of p) = length p"
  by (simp_all add: chunk_of_def)

definition sequence_of :: "bytes \<Rightarrow> storage_db_chunk_sequence" where
  "sequence_of v = \<lparr> seq_count = length (pieces v), seq_sequence = map chunk_of (pieces v), seq_size = length v \<rparr>"

lemma sequence_of_simps [simp]:
  "seq_count (sequence_of v) = ceil_div (length v)"
  "seq_sequence (sequence_of v) = map chunk_of (pieces v)"
  "seq_size (sequence_of v) = length v"
  by (simp_all add: sequence_of_def)

lemma sequence_of_inject: "sequence_of v = sequence_of w \<longleftrightarrow> v = w"
proof
  assume "sequence_of v = sequence_of w"
  then have "map chunk_data (map chunk_of (pieces v)) = map chunk_data (map chunk_of (pieces w))"
    by (simp only: sequence_of_simps(2) [symmetric])
  then have "pieces v = pieces w" by (simp add: comp_def)
  then show "v = w" by (metis concat_pieces)
qed simp

lemma sequence_get:
  "storage_db_chunk_sequence_get (Some (sequence_of v)) i =
     (if i * chunk_max < length v then Some (chunk_of (take chunk_max (drop (i * chunk_max) v))) else None)"
  using ceil_div_less_iff [of i "length v"]
  by (auto simp: storage_db_chunk_sequence_get_def nth_pieces)

lemma pieces_splice:
  assumes i: "i * chunk_max < length v" and o: "offset + length bs \<le> min chunk_max (length v - i * chunk_max)"
  shows "(pieces v)[i := splice (take chunk_max (drop (i * chunk_max) v)) offset bs]
       = pieces (splice v (i * chunk_max + offset) bs)" (is "?l = ?r")
proof (rule nth_equalityI)
  have fits: "i * chunk_max + offset + length bs \<le> length v" using i o by auto
  show "length ?l = length ?r" using fits by simp
  fix j
  assume "j < length ?l"
  then have j: "j * chunk_max < length v" by (simp add: ceil_div_less_iff)
  let ?c = "\<lambda>w j. take chunk_max (drop (j * chunk_max) w)"
  have r: "?r ! j = ?c (splice v (i * chunk_max + offset) bs) j"
    using j fits by (intro nth_pieces) simp
  show "?l ! j = ?r ! j"
  proof (cases "j = i")
    case True
    have "splice (?c v i) offset bs = ?c (splice v (i * chunk_max + offset) bs) i"
      using o i fits by (intro nth_equalityI) (auto simp: nth_splice)
    then show ?thesis using True r \<open>j < length ?l\<close> by simp
  next
    case False
    have "?c v j = ?c (splice v (i * chunk_max + offset) bs) j"
    proof (rule nth_equalityI)
      show "length (?c v j) = length (?c (splice v (i * chunk_max + offset) bs) j)" using fits by simp
      fix k
      assume "k < length (?c v j)"
      then have k: "k < chunk_max" "j * chunk_max + k < length v" by auto
      have "\<not> (i * chunk_max + offset \<le> j * chunk_max + k
              \<and> j * chunk_max + k < i * chunk_max + offset + length bs)"
      proof (cases "j < i")
        case True
        then have "Suc j * chunk_max \<le> i * chunk_max" by (intro mult_le_mono1) simp
        then show ?thesis using k by simp
      next
        case False
        then have "Suc i * chunk_max \<le> j * chunk_max" using \<open>j \<noteq> i\<close> by (intro mult_le_mono1) simp
        then show ?thesis using o by simp
      qed
      then show "?c v j ! k = ?c (splice v (i * chunk_max + offset) bs) j ! k"
        using k fits by (auto simp: nth_splice)
    qed
    then show ?thesis using False r j by (simp add: nth_pieces)
  qed
qed

lemma sequence_of_update:
  "length w = length v \<Longrightarrow> (sequence_of v)\<lparr>seq_sequence := map chunk_of (pieces w)\<rparr> = sequence_of w"
  by (simp add: sequence_of_def)

lemma sequence_write_ok:
  assumes "i * chunk_max < length v" and "offset + length bs \<le> min chunk_max (length v - i * chunk_max)"
  shows "sequence_write (sequence_of v) i offset bs = Some (sequence_of (splice v (i * chunk_max + offset) bs))"
proof -
  let ?c = "take chunk_max (drop (i * chunk_max) v)" and ?w = "splice v (i * chunk_max + offset) bs"
  have m: "mem_write ?c offset bs = Some (splice ?c offset bs)"
    using assms by (simp add: mem_write_def splice_def)
  have l: "length (splice ?c offset bs) = length ?c" using assms by simp
  have "storage_db_chunk_write (chunk_of ?c) offset bs = Some (chunk_of (splice ?c offset bs))"
    unfolding storage_db_chunk_write_def chunk_of_simps m using l by (simp add: chunk_of_def)
  moreover have "(map chunk_of (pieces v))[i := chunk_of (splice ?c offset bs)] = map chunk_of (pieces ?w)"
    by (simp only: map_update [symmetric] pieces_splice [OF assms])
  moreover have "length ?w = length v" using assms by (intro length_splice) auto
  ultimately show ?thesis
    unfolding sequence_write_def sequence_get using assms(1) by (simp add: sequence_of_update)
qed

lemma sequence_write_outside:
  assumes "length v \<le> i * chunk_max \<or> min chunk_max (length v - i * chunk_max) < offset + length bs"
  shows "sequence_write (sequence_of v) i offset bs = None"
proof (cases "i * chunk_max < length v")
  case True
  then have "length (take chunk_max (drop (i * chunk_max) v)) < offset + length bs" using assms by auto
  then have "mem_write (take chunk_max (drop (i * chunk_max) v)) offset bs = None"
    unfolding mem_write_def by (simp only: not_le if_not_P if_False)
  then show ?thesis
    using True by (simp add: sequence_write_def sequence_get storage_db_chunk_write_def)
qed (simp add: sequence_write_def sequence_get)

text \<open>A new sequence holds whatever the memory it is made of held.\<close>

fun fresh_value :: "fresh_memory \<Rightarrow> nat \<Rightarrow> nat \<Rightarrow> nat \<Rightarrow> bytes" where
  "fresh_value mem i 0 n = []"
| "fresh_value mem i (Suc k) n = mem i (min n chunk_max) @ fresh_value mem (Suc i) k (n - chunk_max)"

lemma length_fresh_value:
  "fresh_ok mem \<Longrightarrow> k = ceil_div n \<Longrightarrow> length (fresh_value mem i k n) = n"
proof (induction k arbitrary: i n)
  case 0
  then show ?case using ceil_div_less_iff [of 0 n] by auto
next
  case (Suc k)
  have "0 < n" using Suc(3) by (cases n) auto
  then have "k = ceil_div (n - chunk_max)" using Suc(3) ceil_div_step [of n] by simp
  from Suc.IH [OF Suc(2) this, of "Suc i"] show ?case
    using Suc(2) by (simp add: fresh_ok_def)
qed

lemma allocate_chunks_pieces:
  "fresh_ok mem \<Longrightarrow> k = ceil_div n \<Longrightarrow>
     allocate_chunks mem i k n = map chunk_of (pieces (fresh_value mem i k n))"
proof (induction k arbitrary: i n)
  case (Suc k)
  have n: "0 < n" using Suc(3) by (cases n) auto
  then have k: "k = ceil_div (n - chunk_max)" using Suc(3) ceil_div_step [of n] by simp
  let ?a = "mem i (min n chunk_max)" and ?r = "fresh_value mem (Suc i) k (n - chunk_max)"
  have la: "length ?a = min n chunk_max" using Suc(2) by (simp add: fresh_ok_def)
  have lr: "length ?r = n - chunk_max" using length_fresh_value [OF Suc(2) k] .
  have ne: "?a @ ?r \<noteq> []" using la n chunk_max_pos(1) by (cases ?a) (simp_all add: min_def split: if_splits)
  have r: "n < chunk_max \<Longrightarrow> ?r = []" using lr by simp
  have "take chunk_max (?a @ ?r) = ?a" and "drop chunk_max (?a @ ?r) = ?r"
    using la r by (cases "n < chunk_max"; simp)+
  then have "pieces (?a @ ?r) = ?a # pieces ?r" using ne by (subst pieces.simps) simp
  moreover have "storage_db_chunk_data_pre_allocate mem i (min n chunk_max) = chunk_of ?a"
    using la by (simp add: storage_db_chunk_data_pre_allocate_def chunk_of_def STORAGE_DB_CHUNK_MAX_SIZE_def)
  ultimately show ?case using Suc.IH [OF Suc(2) k, of "Suc i"] by simp
qed simp

lemma chunk_count: "storage_db_chunk_sequence_calculate_chunk_count = ceil_div"
  by (rule ext) (simp add: storage_db_chunk_sequence_calculate_chunk_count_def ceil_div_def)

lemma ceil_div_small: "n \<le> 65535 * chunk_max \<Longrightarrow> ceil_div n < 2 ^ 16"
  using ceil_div_less_iff [of 65535 n] by simp

lemma allocate_sequence:
  assumes "fresh_ok mem" and "n \<le> 65535 * chunk_max"
  shows "storage_db_chunk_sequence_allocate mem n = sequence_of (fresh_value mem 0 (ceil_div n) n)"
proof -
  have c: "storage_db_chunk_sequence_calculate_chunk_count n mod 2 ^ 32 mod 2 ^ 16 = ceil_div n"
    using ceil_div_small [OF assms(2)] by (simp add: chunk_count)
  have "(if 0 < n then allocate_chunks mem 0 (ceil_div n) n else []) =
      map chunk_of (pieces (fresh_value mem 0 (ceil_div n) n))"
    using allocate_chunks_pieces [OF assms(1) refl, of 0 n] by (cases n) simp_all
  then show ?thesis
    unfolding storage_db_chunk_sequence_allocate_def Let_def c sequence_of_def
    using length_fresh_value [OF assms(1) refl, of 0 n] by simp
qed

section \<open>A streamed argument is the value that was sent\<close>

definition cursor :: "bytes \<Rightarrow> nat \<Rightarrow> module_redis_long_string" where
  "cursor v p = \<lparr> ls_sequence = sequence_of v,
     current_chunk_index = (if p = length v then ceil_div (length v) else p div chunk_max),
     current_chunk_offset = (if p = length v then 0 else p mod chunk_max) \<rparr>"

lemma cursor_simps:
  "p < length v \<Longrightarrow> current_chunk_index (cursor v p) = p div chunk_max"
  "p < length v \<Longrightarrow> current_chunk_offset (cursor v p) = p mod chunk_max"
  "ls_sequence (cursor v p) = sequence_of v"
  by (simp_all add: cursor_def)

lemma chunk_at:
  assumes "p < length v"
  shows "storage_db_chunk_sequence_get (Some (sequence_of v)) (p div chunk_max) =
      Some (chunk_of (take chunk_max (drop (p div chunk_max * chunk_max) v)))"
    and "length (take chunk_max (drop (p div chunk_max * chunk_max) v))
      = min chunk_max (length v - p div chunk_max * chunk_max)"
    and "p mod chunk_max < min chunk_max (length v - p div chunk_max * chunk_max)"
proof -
  have "p div chunk_max * chunk_max < length v" using assms div_times_less_eq_dividend le_less_trans by blast
  then show "storage_db_chunk_sequence_get (Some (sequence_of v)) (p div chunk_max) =
      Some (chunk_of (take chunk_max (drop (p div chunk_max * chunk_max) v)))"
    by (simp add: sequence_get)
  have "p div chunk_max * chunk_max + p mod chunk_max = p" by (simp only: div_mult_mod_eq)
  then show "p mod chunk_max < min chunk_max (length v - p div chunk_max * chunk_max)"
    using assms by (simp add: less_diff_conv add.commute)
qed simp

lemma piece_div_mod: "b < m \<Longrightarrow> x = q * m + b \<Longrightarrow> x div m = q \<and> x mod m = b" for x :: nat
  by simp

text \<open>The cursor after some bytes that stay inside one chunk.\<close>

lemma cursor_step:
  assumes p: "p < length v" and w: "length w = length v"
    and n: "p mod chunk_max + n \<le> min chunk_max (length v - p div chunk_max * chunk_max)" and "0 < n"
  defines "full \<equiv> p mod chunk_max + n = min chunk_max (length v - p div chunk_max * chunk_max)"
  shows "cursor w (p + n) = (cursor v p)
    \<lparr> ls_sequence := sequence_of w,
      current_chunk_index := (if full then p div chunk_max + 1 else p div chunk_max),
      current_chunk_offset := (if full then 0 else p mod chunk_max + n) \<rparr>"
proof -
  let ?q = "p div chunk_max" and ?r = "p mod chunk_max"
  have pq: "p = ?q * chunk_max + ?r" by (simp only: div_mult_mod_eq)
  have fits: "p + n \<le> length v" using n pq p by linarith
  consider (last) "p + n = length v" | (inside) "p + n < length v" "?r + n < chunk_max"
    | (chunk_end) "p + n < length v" "?r + n = chunk_max"
    using n fits by linarith
  then show ?thesis
  proof cases
    case last
    then have "?r + n = length v - ?q * chunk_max" using pq by linarith
    then have full using n unfolding full_def by linarith
    have "?q * chunk_max < length v" using p pq by linarith
    then have "?q < ceil_div (length v)" by (simp only: ceil_div_less_iff)
    moreover have "\<not> Suc ?q < ceil_div (length v)"
    proof -
      have "length v \<le> chunk_max + ?q * chunk_max" using n last pq by linarith
      then have "length v \<le> Suc ?q * chunk_max" by (simp only: mult_Suc)
      then show ?thesis by (simp only: ceil_div_less_iff not_less)
    qed
    ultimately have "ceil_div (length v) = ?q + 1" by simp
    then show ?thesis using last \<open>full\<close> w by (simp add: cursor_def)
  next
    case inside
    then have "\<not> full" using pq unfolding full_def by linarith
    have "p + n = ?q * chunk_max + (?r + n)" using pq by linarith
    note piece_div_mod [OF inside(2) this]
    then show ?thesis using inside \<open>\<not> full\<close> w p by (simp add: cursor_def)
  next
    case chunk_end
    then have full using pq unfolding full_def by linarith
    have "p + n = (?q + 1) * chunk_max + 0" using chunk_end pq by (simp only: distrib_right)
    note piece_div_mod [OF chunk_max_pos(1) this]
    then show ?thesis using chunk_end \<open>full\<close> w p by (simp add: cursor_def)
  qed
qed

lemma stream_data_loop_ok:
  "written < length data \<Longrightarrow> p + (length data - written) \<le> length v \<Longrightarrow>
     stream_data_loop data written (cursor v p)
     = Some (cursor (splice v p (drop written data)) (p + (length data - written)))"
proof (induction "length data - written" arbitrary: written p v rule: less_induct)
  case less
  let ?q = "p div chunk_max" and ?r = "p mod chunk_max"
  let ?room = "min chunk_max (length v - ?q * chunk_max)"
  have p: "p < length v" using less.prems by linarith
  note at = chunk_at [OF p]
  define n where "n = min (length data - written) (?room - ?r)"
  define bs where "bs = take n (drop written data)"
  have n: "0 < n" "?r + n \<le> ?room" "n \<le> length data - written"
    using less.prems(1) at(3) unfolding n_def by linarith+
  have bs: "length bs = n" using n by (simp add: bs_def)
  have pq: "?q * chunk_max + ?r = p" by (simp only: div_mult_mod_eq)
  have "?q * chunk_max < length v" using p pq by linarith
  from sequence_write_ok [OF this, of ?r bs] n bs pq
  have w: "sequence_write (sequence_of v) ?q ?r bs = Some (sequence_of (splice v p bs))" by simp
  have pn: "p + n \<le> length v" using less.prems n by linarith
  have l: "length (splice v p bs) = length v" using pn bs by simp
  note c = cursor_step [OF p l n(2,1)]
  have step: "stream_data_loop data written (cursor v p) =
      (if written + n < length data then stream_data_loop data (written + n) (cursor (splice v p bs) (p + n))
       else Some (cursor (splice v p bs) (p + n)))"
    using n(1)
    by (subst stream_data_loop.simps)
      (simp only: cursor_simps(1,2) [OF p] cursor_simps(3) at option.case Let_def chunk_of_simps
        n_def [symmetric] bs_def [symmetric] w c neq0_conv [symmetric] if_False not_False_eq_True)
  show ?case
  proof (cases "written + n < length data")
    case True
    have "stream_data_loop data (written + n) (cursor (splice v p bs) (p + n)) =
        Some (cursor (splice (splice v p bs) (p + n) (drop (written + n) data)) (p + n + (length data - (written + n))))"
      using True n less.prems l by (intro less.hyps) auto
    moreover have "bs @ drop (written + n) data = drop written data"
      unfolding bs_def by (metis add.commute append_take_drop_id drop_drop)
    then have "splice (splice v p bs) (p + n) (drop (written + n) data) = splice v p (drop written data)"
      using splice_append [of p bs "drop (written + n) data" v] bs less.prems True by simp
    moreover have "p + n + (length data - (written + n)) = p + (length data - written)" using True by simp
    ultimately show ?thesis unfolding step using True by (simp del: stream_data_loop.simps)
  next
    case False
    then have "n = length data - written" using n by linarith
    then show ?thesis unfolding step using False by (simp add: bs_def del: stream_data_loop.simps)
  qed
qed

lemma stream_data_ok:
  assumes "p + length data \<le> length v"
  shows "module_redis_command_process_argument_stream_data data (cursor v p)
    = Some (cursor (splice v p data) (p + length data))"
  using stream_data_loop_ok [of 0 data p v] assms
  by (cases data) (simp_all add: module_redis_command_process_argument_stream_data_def del: stream_data_loop.simps)

lemma argument_stream_ok:
  "p + length (concat ps) \<le> length v \<Longrightarrow>
     argument_stream ps (cursor v p) = Some (cursor (splice v p (concat ps)) (p + length (concat ps)))"
proof (induction ps arbitrary: p v)
  case (Cons d ps)
  have s: "splice (splice v p d) (p + length d) (concat ps) = splice v p (d @ concat ps)"
    using Cons.prems by (intro splice_append) simp
  have "argument_stream ps (cursor (splice v p d) (p + length d)) =
      Some (cursor (splice (splice v p d) (p + length d) (concat ps)) (p + length d + length (concat ps)))"
    using Cons.prems by (intro Cons.IH) simp
  then show ?case
    using stream_data_ok [of p d v] Cons.prems by (simp add: s add.assoc)
qed simp

lemma argument_stream_begin_cursor:
  assumes "fresh_ok mem" and "n \<le> 65535 * chunk_max"
  shows "argument_stream_begin mem n = cursor (fresh_value mem 0 (ceil_div n) n) 0"
  using allocate_sequence [OF assms] length_fresh_value [OF assms(1) refl, of 0 n]
  by (simp add: argument_stream_begin_def cursor_def)

end
