(* ===== verification/Network_Send.thy ===== *)
theory Network_Send
  imports Prelude
begin

text \<open>
  The sending side of a network channel without TLS, \<open>src/src/network/network.c\<close>. The kernel is
  the list of the results it gives to the calls of \<open>worker_op_network_send\<close>, in order; it takes at
  most the bytes it is given. Where no result is left, the fiber waits for one forever and there is
  no result. An assertion that fails is no result, too; the field
  \<open>send_slice_acquired_length\<close>, which only a debug build has, is kept for them. The statistics and
  the log are left out.
\<close>

datatype network_op_result =
  NETWORK_OP_RESULT_OK | NETWORK_OP_RESULT_CLOSE_SOCKET | NETWORK_OP_RESULT_ERROR

datatype network_channel_status =
  NETWORK_CHANNEL_STATUS_UNDEFINED | NETWORK_CHANNEL_STATUS_CONNECTED | NETWORK_CHANNEL_STATUS_CLOSED

definition NETWORK_CHANNEL_MAX_PACKET_SIZE :: nat where "NETWORK_CHANNEL_MAX_PACKET_SIZE = 32 * 1024"

definition NETWORK_CHANNEL_SEND_BUFFER_SIZE :: nat where
  "NETWORK_CHANNEL_SEND_BUFFER_SIZE = NETWORK_CHANNEL_MAX_PACKET_SIZE * 2"

text \<open>
  \<open>wire\<close> are the bytes the kernel has taken, \<open>kernel\<close> are the results it is going to give.
\<close>

record network_channel =
  status :: network_channel_status
  send_data :: bytes
  send_length :: nat
  send_data_size :: nat
  send_data_offset :: nat
  send_slice_acquired_length :: nat
  wire :: bytes
  kernel :: "int list"

definition worker_op_network_send :: "bytes \<Rightarrow> network_channel \<Rightarrow> (int \<times> network_channel) option" where
  "worker_op_network_send buffer ch =
     (case kernel ch of
        [] \<Rightarrow> None
      | r # rs \<Rightarrow>
          let res = min r (int (length buffer))
          in Some (res, ch\<lparr> wire := wire ch @ take (nat res) buffer, kernel := rs \<rparr>))"

function network_send_direct_internal :: "bytes \<Rightarrow> nat \<Rightarrow> network_channel \<Rightarrow> (network_op_result \<times> network_channel) option" where
  "network_send_direct_internal buffer sent_length ch =
     (case worker_op_network_send (drop sent_length buffer) ch of
        None \<Rightarrow> None
      | Some (res, ch1) \<Rightarrow>
          if res = 0 then Some (NETWORK_OP_RESULT_CLOSE_SOCKET, ch1)
          else if res < 0 then Some (NETWORK_OP_RESULT_ERROR, ch1)
          else if sent_length + nat res < length buffer
          then network_send_direct_internal buffer (sent_length + nat res) ch1
          else Some (NETWORK_OP_RESULT_OK, ch1))"
  by pat_completeness auto

termination
  by (relation "measure (\<lambda>(buffer, sent_length, ch). length buffer - sent_length)") auto

declare network_send_direct_internal.simps [simp del]

definition network_send_direct_wrapper :: "bytes \<Rightarrow> network_channel \<Rightarrow> (network_op_result \<times> network_channel) option" where
  "network_send_direct_wrapper buffer ch = network_send_direct_internal buffer 0 ch"

definition network_should_flush_send_buffer :: "network_channel \<Rightarrow> bool" where
  "network_should_flush_send_buffer ch \<longleftrightarrow> status ch = NETWORK_CHANNEL_STATUS_CONNECTED \<and> 0 < send_data_size ch"

definition network_flush_send_buffer :: "network_channel \<Rightarrow> (network_op_result \<times> network_channel) option" where
  "network_flush_send_buffer ch =
     (if send_data_size ch = 0 then Some (NETWORK_OP_RESULT_OK, ch)
      else case network_send_direct_wrapper (take (send_data_size ch) (send_data ch)) ch of
             None \<Rightarrow> None
           | Some (res, ch1) \<Rightarrow> Some (res, ch1\<lparr> send_data_size := 0, send_data_offset := 0 \<rparr>))"

text \<open>The slice starts at the offset of the buffer; False is NULL.\<close>

definition network_send_buffer_acquire_slice :: "nat \<Rightarrow> network_channel \<Rightarrow> (bool \<times> network_channel) option" where
  "network_send_buffer_acquire_slice slice_length ch =
     (if send_length ch < slice_length \<or> send_slice_acquired_length ch \<noteq> 0 then None
      else
        let acquired = (\<lambda>ch. Some (True, ch\<lparr> send_slice_acquired_length := slice_length \<rparr>))
        in if send_length ch < send_data_size ch + slice_length
           then case network_flush_send_buffer ch of
                  None \<Rightarrow> None
                | Some (res, ch1) \<Rightarrow> if res \<noteq> NETWORK_OP_RESULT_OK then Some (False, ch1) else acquired ch1
           else acquired ch)"

definition slice_of :: "nat \<Rightarrow> network_channel \<Rightarrow> bytes" where
  "slice_of slice_length ch = take slice_length (drop (send_data_offset ch) (send_data ch))"

definition slice_store :: "bytes \<Rightarrow> network_channel \<Rightarrow> network_channel" where
  "slice_store bs ch =
     ch\<lparr> send_data := take (send_data_offset ch) (send_data ch) @ bs
                        @ drop (send_data_offset ch + length bs) (send_data ch) \<rparr>"

definition network_send_buffer_release_slice :: "nat \<Rightarrow> network_channel \<Rightarrow> network_channel option" where
  "network_send_buffer_release_slice slice_used_length ch =
     (if send_slice_acquired_length ch = 0 \<or> send_slice_acquired_length ch < slice_used_length then None
      else Some (ch\<lparr> send_data_size := send_data_size ch + slice_used_length,
                     send_data_offset := send_data_offset ch + slice_used_length,
                     send_slice_acquired_length := 0 \<rparr>))"

text \<open>The result of the flush is not looked at.\<close>

definition network_send_direct :: "bytes \<Rightarrow> network_channel \<Rightarrow> (network_op_result \<times> network_channel) option" where
  "network_send_direct buffer ch =
     (if network_should_flush_send_buffer ch
      then case network_flush_send_buffer ch of
             None \<Rightarrow> None
           | Some (_, ch1) \<Rightarrow> network_send_direct_wrapper buffer ch1
      else network_send_direct_wrapper buffer ch)"

text \<open>A buffer of length 0 does not take anything, so the loop does not end for it.\<close>

function network_send_buffered :: "bytes \<Rightarrow> network_channel \<Rightarrow> (network_op_result \<times> network_channel) option" where
  "network_send_buffered buffer ch =
     (if send_slice_acquired_length ch \<noteq> 0 then None
      else
        let n = min (length buffer) (send_length ch);
            copy = (\<lambda>ch. (slice_store (take n buffer) ch)
                      \<lparr> send_data_size := send_data_size ch + n, send_data_offset := send_data_offset ch + n \<rparr>);
            again = (\<lambda>ch. if 0 < length (drop n buffer)
                          then if n = 0 then None else network_send_buffered (drop n buffer) ch
                          else Some (NETWORK_OP_RESULT_OK, ch))
        in if send_length ch < send_data_size ch + n
           then case network_flush_send_buffer ch of
                  None \<Rightarrow> None
                | Some (res, ch1) \<Rightarrow>
                    if res \<noteq> NETWORK_OP_RESULT_OK then Some (res, ch1) else again (copy ch1)
           else again (copy ch))"
  by pat_completeness auto

termination
  by (relation "measure (\<lambda>(buffer, ch). length buffer)") auto

declare network_send_buffered.simps [simp del]

section \<open>The channel as a stream of bytes\<close>

text \<open>The bytes the client receives: those on the wire and those that are still in the buffer.\<close>

definition stream :: "network_channel \<Rightarrow> bytes" where
  "stream ch = wire ch @ take (send_data_size ch) (send_data ch)"

definition channel_ok :: "network_channel \<Rightarrow> bool" where
  "channel_ok ch \<longleftrightarrow> status ch = NETWORK_CHANNEL_STATUS_CONNECTED \<and> send_length ch = NETWORK_CHANNEL_SEND_BUFFER_SIZE
     \<and> length (send_data ch) = send_length ch \<and> send_data_offset ch = send_data_size ch
     \<and> send_data_size ch \<le> send_length ch \<and> send_slice_acquired_length ch = 0"

text \<open>
  The kernel is going to take at least one byte with every call, and it answers often enough for
  what is in the buffer and \<open>n\<close> bytes more.
\<close>

definition can_send :: "nat \<Rightarrow> network_channel \<Rightarrow> bool" where
  "can_send n ch \<longleftrightarrow> channel_ok ch \<and> (\<forall>r\<in>set (kernel ch). 0 < r) \<and> send_data_size ch + n \<le> length (kernel ch)"

definition init_channel :: "bytes \<Rightarrow> int list \<Rightarrow> network_channel" where
  "init_channel data answers =
     \<lparr> status = NETWORK_CHANNEL_STATUS_CONNECTED, send_data = data, send_length = NETWORK_CHANNEL_SEND_BUFFER_SIZE,
       send_data_size = 0, send_data_offset = 0, send_slice_acquired_length = 0, wire = [], kernel = answers \<rparr>"

lemma direct_internal_sends:
  "sent < length buffer \<Longrightarrow> \<forall>r\<in>set (kernel ch). 0 < r \<Longrightarrow> length buffer - sent \<le> length (kernel ch) \<Longrightarrow>
     \<exists>k\<le>length buffer - sent. network_send_direct_internal buffer sent ch =
       Some (NETWORK_OP_RESULT_OK, ch\<lparr> wire := wire ch @ drop sent buffer, kernel := drop k (kernel ch) \<rparr>)"
proof (induction buffer sent ch rule: network_send_direct_internal.induct)
  case (1 buffer sent ch)
  obtain r rs where k: "kernel ch = r # rs" using 1(2,4) by (cases "kernel ch") auto
  define res where "res = min r (int (length buffer - sent))"
  define ch1 where "ch1 = ch\<lparr> wire := wire ch @ take (nat res) (drop sent buffer), kernel := rs \<rparr>"
  have res: "0 < res" "nat res \<le> length buffer - sent" using 1(2,3) k by (auto simp: res_def)
  have w: "worker_op_network_send (drop sent buffer) ch = Some (res, ch1)"
    by (simp add: worker_op_network_send_def k res_def ch1_def Let_def)
  have step: "network_send_direct_internal buffer sent ch =
      (if sent + nat res < length buffer then network_send_direct_internal buffer (sent + nat res) ch1
       else Some (NETWORK_OP_RESULT_OK, ch1))"
    using res by (subst network_send_direct_internal.simps) (simp add: w)
  show ?case
  proof (cases "sent + nat res < length buffer")
    case True
    have "\<exists>k\<le>length buffer - (sent + nat res). network_send_direct_internal buffer (sent + nat res) ch1 =
        Some (NETWORK_OP_RESULT_OK, ch1\<lparr> wire := wire ch1 @ drop (sent + nat res) buffer, kernel := drop k (kernel ch1) \<rparr>)"
      using True res 1(3,4) k by (intro 1(1) [OF w refl]) (auto simp: ch1_def)
    then obtain j where j: "j \<le> length buffer - (sent + nat res)"
      "network_send_direct_internal buffer (sent + nat res) ch1 =
        Some (NETWORK_OP_RESULT_OK, ch1\<lparr> wire := wire ch1 @ drop (sent + nat res) buffer, kernel := drop j (kernel ch1) \<rparr>)"
      by blast
    have "take (nat res) (drop sent buffer) @ drop (sent + nat res) buffer = drop sent buffer"
      by (metis add.commute append_take_drop_id drop_drop)
    then show ?thesis
      using j True res by (intro exI [of _ "Suc j"]) (auto simp: step ch1_def k)
  next
    case False
    then show ?thesis using res by (intro exI [of _ 1]) (auto simp: step ch1_def k)
  qed
qed

lemma flush_sends:
  assumes "can_send n ch"
  shows "\<exists>ch1. network_flush_send_buffer ch = Some (NETWORK_OP_RESULT_OK, ch1) \<and> can_send n ch1
    \<and> stream ch1 = stream ch \<and> send_data_size ch1 = 0"
proof (cases "send_data_size ch = 0")
  case True
  then show ?thesis using assms by (simp add: network_flush_send_buffer_def)
next
  case False
  let ?b = "take (send_data_size ch) (send_data ch)"
  have l: "length ?b = send_data_size ch" using assms by (simp add: can_send_def channel_ok_def)
  have "\<exists>k\<le>length ?b - 0. network_send_direct_internal ?b 0 ch =
      Some (NETWORK_OP_RESULT_OK, ch\<lparr> wire := wire ch @ drop 0 ?b, kernel := drop k (kernel ch) \<rparr>)"
    using assms False l by (intro direct_internal_sends) (auto simp: can_send_def)
  then obtain k where k: "k \<le> send_data_size ch" and "network_send_direct_internal ?b 0 ch =
      Some (NETWORK_OP_RESULT_OK, ch\<lparr> wire := wire ch @ ?b, kernel := drop k (kernel ch) \<rparr>)"
    using l by auto
  then show ?thesis using assms False
    by (auto simp: network_flush_send_buffer_def network_send_direct_wrapper_def can_send_def
        channel_ok_def stream_def dest: in_set_dropD)
qed

lemma send_direct_sends:
  assumes "can_send (length bs + n) ch" and "bs \<noteq> []"
  shows "\<exists>ch1. network_send_direct bs ch = Some (NETWORK_OP_RESULT_OK, ch1) \<and> can_send n ch1
    \<and> stream ch1 = stream ch @ bs"
proof -
  obtain ch0 where ch0: "network_flush_send_buffer ch = Some (NETWORK_OP_RESULT_OK, ch0)"
    "can_send (length bs + n) ch0" "stream ch0 = stream ch" "send_data_size ch0 = 0"
    using flush_sends [OF assms(1)] by blast
  have "\<exists>k\<le>length bs - 0. network_send_direct_internal bs 0 ch0 =
      Some (NETWORK_OP_RESULT_OK, ch0\<lparr> wire := wire ch0 @ drop 0 bs, kernel := drop k (kernel ch0) \<rparr>)"
    using ch0 assms(2) by (intro direct_internal_sends) (auto simp: can_send_def)
  then obtain k where k: "k \<le> length bs" "network_send_direct_internal bs 0 ch0 =
      Some (NETWORK_OP_RESULT_OK, ch0\<lparr> wire := wire ch0 @ bs, kernel := drop k (kernel ch0) \<rparr>)" by auto
  have "network_send_direct bs ch = network_send_direct_wrapper bs ch0"
    using ch0(1) assms(1)
    by (cases "send_data_size ch = 0")
      (simp_all add: network_send_direct_def network_should_flush_send_buffer_def network_flush_send_buffer_def
        can_send_def channel_ok_def)
  then show ?thesis using k ch0
    by (auto simp: network_send_direct_wrapper_def can_send_def channel_ok_def stream_def dest: in_set_dropD)
qed

text \<open>Acquiring a slice, writing to it and releasing it.\<close>

lemma acquire_ok:
  assumes "can_send n ch" and "0 < m" and "m \<le> NETWORK_CHANNEL_SEND_BUFFER_SIZE"
  shows "\<exists>ch1. network_send_buffer_acquire_slice m ch =
      Some (True, ch1\<lparr> send_slice_acquired_length := m \<rparr>) \<and> can_send n ch1 \<and> stream ch1 = stream ch
      \<and> send_data_size ch1 + m \<le> send_length ch1"
proof (cases "send_length ch < send_data_size ch + m")
  case True
  obtain ch0 where ch0: "network_flush_send_buffer ch = Some (NETWORK_OP_RESULT_OK, ch0)"
    "can_send n ch0" "stream ch0 = stream ch" "send_data_size ch0 = 0"
    using flush_sends [OF assms(1)] by blast
  then show ?thesis using True assms
    by (intro exI [of _ ch0]) (auto simp: network_send_buffer_acquire_slice_def can_send_def channel_ok_def)
next
  case False
  then show ?thesis using assms
    by (intro exI [of _ ch]) (auto simp: network_send_buffer_acquire_slice_def can_send_def channel_ok_def)
qed

lemma length_slice_of:
  "channel_ok ch \<Longrightarrow> send_data_size ch + m \<le> send_length ch \<Longrightarrow>
     length (slice_of m (ch\<lparr> send_slice_acquired_length := m \<rparr>)) = m"
  by (simp add: slice_of_def channel_ok_def)

lemma store_release:
  assumes "can_send (length bs + n) ch" and "send_data_size ch + m \<le> send_length ch"
    and "0 < m" and "length bs \<le> m"
  shows "\<exists>ch1. network_send_buffer_release_slice (length bs)
      (slice_store bs (ch\<lparr> send_slice_acquired_length := m \<rparr>)) = Some ch1
      \<and> can_send n ch1 \<and> stream ch1 = stream ch @ bs"
  using assms
  by (auto simp: network_send_buffer_release_slice_def slice_store_def can_send_def channel_ok_def stream_def)

lemma send_buffered_sends:
  "can_send (length bs + n) ch \<Longrightarrow>
     \<exists>ch1. network_send_buffered bs ch = Some (NETWORK_OP_RESULT_OK, ch1) \<and> can_send n ch1
       \<and> stream ch1 = stream ch @ bs"
proof (induction "length bs" arbitrary: bs ch rule: less_induct)
  case less
  let ?m = "min (length bs) (send_length ch)"
  define copy where "copy = (\<lambda>ch. (slice_store (take ?m bs) ch)
      \<lparr> send_data_size := send_data_size ch + ?m, send_data_offset := send_data_offset ch + ?m \<rparr>)"
  have ok: "channel_ok ch" using less.prems by (simp add: can_send_def)
  have len: "0 < send_length ch"
    using ok by (simp add: channel_ok_def NETWORK_CHANNEL_SEND_BUFFER_SIZE_def NETWORK_CHANNEL_MAX_PACKET_SIZE_def)
  have copy: "can_send (length (drop ?m bs) + n) (copy c) \<and> stream (copy c) = stream c @ take ?m bs"
    if "can_send (length bs + n) c" and "send_data_size c + ?m \<le> send_length ch" for c
    using that ok by (auto simp: copy_def can_send_def channel_ok_def stream_def slice_store_def)
  have again: "\<exists>ch1. (if 0 < length (drop ?m bs)
        then if ?m = 0 then None else network_send_buffered (drop ?m bs) (copy c)
        else Some (NETWORK_OP_RESULT_OK, copy c)) = Some (NETWORK_OP_RESULT_OK, ch1)
      \<and> can_send n ch1 \<and> stream ch1 = stream c @ bs"
    if c: "can_send (length bs + n) c" and room: "send_data_size c + ?m \<le> send_length ch" for c
  proof (cases "length (drop ?m bs) = 0")
    case True
    then show ?thesis using copy [OF c room] by simp
  next
    case False
    then have "length (drop ?m bs) < length bs" using len by auto
    from less.hyps [OF this, of "copy c"] copy [OF c room] show ?thesis
      using False len by auto
  qed
  have sl: "\<not> send_slice_acquired_length ch \<noteq> 0" using ok by (simp add: channel_ok_def)
  note unfolded = network_send_buffered.simps [of bs ch, unfolded Let_def, unfolded if_not_P [OF sl]]
  show ?case
  proof (cases "send_length ch < send_data_size ch + ?m")
    case True
    obtain ch0 where ch0: "network_flush_send_buffer ch = Some (NETWORK_OP_RESULT_OK, ch0)"
      "can_send (length bs + n) ch0" "stream ch0 = stream ch" "send_data_size ch0 = 0"
      using flush_sends [OF less.prems] by blast
    have "send_data_size ch0 + ?m \<le> send_length ch" using ch0(4) by simp
    from again [OF ch0(2) this, unfolded copy_def] show ?thesis
      unfolding unfolded if_P [OF True] ch0(1) option.case prod.case ch0(3)
      by (simp only: simp_thms if_False)
  next
    case False
    then have "send_data_size ch + ?m \<le> send_length ch" by simp
    from again [OF less.prems this, unfolded copy_def] show ?thesis
      unfolding unfolded if_not_P [OF False] .
  qed
qed

end
