(* ===== verification/Stream_Entry.thy ===== *)
theory Stream_Entry
  imports Storage_Chunks Network_Send Redis_Replies
begin

text \<open>
  The reply that carries a value or a range of it,
  \<open>src/src/module/redis/module_redis_command.{c,h}\<close>, and the range of the commands GETRANGE and
  SUBSTR. The value is a sequence of chunks, the reply goes to the network channel. \<open>debug\<close> tells
  whether the assertions on the sizes are compiled in; the ones of the network channel always are.
\<close>

section \<open>Definitions\<close>

text \<open>
  The start of the reply in a slice of the send buffer: whether \<open>send_buffer\<close> was set, and the bytes
  written to the slice with what is left of it. The length of the value is converted to \<open>int\<close>.
\<close>

definition module_redis_command_acquire_slice_and_write_blob_start ::
    "nat \<Rightarrow> nat \<Rightarrow> network_channel \<Rightarrow> ((bool \<times> (bytes \<times> bytes) option) \<times> network_channel) option" where
  "module_redis_command_acquire_slice_and_write_blob_start slice_length value_length ch =
     (case network_send_buffer_acquire_slice slice_length ch of
        None \<Rightarrow> None
      | Some (acquired, ch1) \<Rightarrow>
          if \<not> acquired then Some ((False, None), ch1)
          else (case protocol_redis_writer_write_argument_blob_start False
                       (scast (of_nat value_length :: u32)) (slice_of slice_length ch1) of
                  Write_fault \<Rightarrow> None
                | Write_null \<Rightarrow>
                    (case network_send_buffer_release_slice 0 ch1 of
                       None \<Rightarrow> None
                     | Some ch2 \<Rightarrow> Some ((True, None), ch2))
                | Written w rest \<Rightarrow> Some ((True, Some (w, rest)), ch1)))"

definition release_failed :: "bool \<Rightarrow> network_channel \<Rightarrow> (bool \<times> network_channel) option" where
  "release_failed send_buffer_set ch =
     (if send_buffer_set
      then case network_send_buffer_release_slice 0 ch of None \<Rightarrow> None | Some ch1 \<Rightarrow> Some (False, ch1)
      else Some (False, ch))"

definition release_written :: "bytes \<Rightarrow> network_channel \<Rightarrow> (bool \<times> network_channel) option" where
  "release_written w ch =
     (case network_send_buffer_release_slice (length w) (slice_store w ch) of
        None \<Rightarrow> None | Some ch1 \<Rightarrow> Some (True, ch1))"

definition module_redis_command_stream_entry_range_with_one_chunk ::
    "bool \<Rightarrow> storage_db_chunk_sequence \<Rightarrow> nat \<Rightarrow> nat \<Rightarrow> network_channel \<Rightarrow> (bool \<times> network_channel) option" where
  "module_redis_command_stream_entry_range_with_one_chunk debug v offset n ch =
     (if debug \<and> \<not> (seq_count v = 1 \<and> n + 32 \<le> NETWORK_CHANNEL_MAX_PACKET_SIZE) then None
      else case module_redis_command_acquire_slice_and_write_blob_start (n + 32) n ch of
        None \<Rightarrow> None
      | Some ((is_set, None), ch1) \<Rightarrow> release_failed is_set ch1
      | Some ((is_set, Some (w, rest)), ch1) \<Rightarrow>
          (case storage_db_chunk_sequence_get (Some v) 0 of
             None \<Rightarrow> None
           | Some chunk_info \<Rightarrow>
               (case storage_db_chunk_read chunk_info offset n of
                  None \<Rightarrow> None
                | Some bs \<Rightarrow>
                    if length rest < n then None
                    else case protocol_redis_writer_write_argument_blob_end (drop n rest) of
                        Write_fault \<Rightarrow> None
                      | Write_null \<Rightarrow> release_failed is_set ch1
                      | Written e _ \<Rightarrow> release_written (w @ bs @ e) ch1)))"

text \<open>The chunks in front of the range are skipped.\<close>

function skip_chunks :: "storage_db_chunk_sequence \<Rightarrow> nat \<Rightarrow> nat \<Rightarrow> nat \<times> nat" where
  "skip_chunks v chunk_index offset =
     (if chunk_index < seq_count v
      then let chunk_info = seq_sequence v ! chunk_index
           in if offset < chunk_length chunk_info then (chunk_index, offset)
              else skip_chunks v (chunk_index + 1) (offset - chunk_length chunk_info)
      else (chunk_index, offset))"
  by pat_completeness auto

termination
  by (relation "measure (\<lambda>(v, i, offset). seq_count v - i)") auto

declare skip_chunks.simps [simp del]

text \<open>The packets of one chunk; the result is whether all were sent, and what is left of the length.\<close>

function send_packets :: "bytes \<Rightarrow> nat \<Rightarrow> nat \<Rightarrow> nat \<Rightarrow> network_channel \<Rightarrow> (bool \<times> nat \<times> network_channel) option" where
  "send_packets buffer_to_send chunk_length_to_send sent_data n ch =
     (let available = chunk_length_to_send - sent_data;
          m = min available NETWORK_CHANNEL_MAX_PACKET_SIZE
      in case mem_read buffer_to_send sent_data m of
           None \<Rightarrow> None
         | Some bs \<Rightarrow>
             (case network_send_direct bs ch of
                None \<Rightarrow> None
              | Some (res, ch1) \<Rightarrow>
                  if res \<noteq> NETWORK_OP_RESULT_OK then Some (False, n, ch1)
                  else if sent_data + m < chunk_length_to_send
                  then send_packets buffer_to_send chunk_length_to_send (sent_data + m) (n - m) ch1
                  else Some (True, n - m, ch1)))"
  by pat_completeness auto

termination
  by (relation "measure (\<lambda>(b, c, s, n, ch). c - s)") (auto simp: NETWORK_CHANNEL_MAX_PACKET_SIZE_def)

declare send_packets.simps [simp del]

function send_chunks ::
    "storage_db_chunk_sequence \<Rightarrow> nat \<Rightarrow> nat \<Rightarrow> nat \<Rightarrow> network_channel \<Rightarrow> (bool \<times> network_channel) option" where
  "send_chunks v chunk_index sent_data n ch =
     (if chunk_index < seq_count v \<and> 0 < n
      then let chunk_info = seq_sequence v ! chunk_index;
               chunk_length_to_send = (if chunk_length chunk_info < n then chunk_length chunk_info else n + sent_data)
           in case send_packets (chunk_data chunk_info) chunk_length_to_send sent_data n ch of
                None \<Rightarrow> None
              | Some (sent, n1, ch1) \<Rightarrow>
                  if \<not> sent then Some (False, ch1) else send_chunks v (chunk_index + 1) 0 n1 ch1
      else Some (True, ch))"
  by pat_completeness auto

termination
  by (relation "measure (\<lambda>(v, i, s, n, ch). seq_count v - i)") auto

declare send_chunks.simps [simp del]

definition stream_end :: "network_channel \<Rightarrow> (bool \<times> network_channel) option" where
  "stream_end ch =
     (case network_send_buffer_acquire_slice 32 ch of
        None \<Rightarrow> None
      | Some (acquired, ch1) \<Rightarrow>
          if \<not> acquired then Some (False, ch1)
          else (case protocol_redis_writer_write_argument_blob_end (slice_of 32 ch1) of
                  Write_fault \<Rightarrow> None
                | Write_null \<Rightarrow> release_failed True ch1
                | Written e _ \<Rightarrow> release_written e ch1))"

definition module_redis_command_stream_entry_range_with_multiple_chunks ::
    "bool \<Rightarrow> storage_db_chunk_sequence \<Rightarrow> nat \<Rightarrow> nat \<Rightarrow> network_channel \<Rightarrow> (bool \<times> network_channel) option" where
  "module_redis_command_stream_entry_range_with_multiple_chunks debug v offset n ch =
     (if debug \<and> \<not> (1 < seq_count v \<or> NETWORK_CHANNEL_MAX_PACKET_SIZE < n + 32) then None
      else case module_redis_command_acquire_slice_and_write_blob_start 32 n ch of
        None \<Rightarrow> None
      | Some ((_, None), ch1) \<Rightarrow> Some (False, ch1)
      | Some ((_, Some (w, _)), ch1) \<Rightarrow>
          (case release_written w ch1 of
             None \<Rightarrow> None
           | Some (_, ch2) \<Rightarrow>
               let (chunk_index, sent_data) = skip_chunks v 0 offset
               in case send_chunks v chunk_index sent_data n ch2 of
                    None \<Rightarrow> None
                  | Some (sent, ch3) \<Rightarrow> if \<not> sent then Some (False, ch3) else stream_end ch3))"

definition module_redis_command_stream_entry_range ::
    "bool \<Rightarrow> storage_db_chunk_sequence \<Rightarrow> nat \<Rightarrow> nat \<Rightarrow> network_channel \<Rightarrow> (bool \<times> network_channel) option" where
  "module_redis_command_stream_entry_range debug v offset n ch =
     (if seq_size v < offset + n then Some (False, ch)
      else if seq_count v = 1 \<and> seq_size v + 32 \<le> NETWORK_CHANNEL_MAX_PACKET_SIZE
      then module_redis_command_stream_entry_range_with_one_chunk debug v offset n ch
      else module_redis_command_stream_entry_range_with_multiple_chunks debug v offset n ch)"

definition module_redis_command_stream_entry ::
    "bool \<Rightarrow> storage_db_chunk_sequence \<Rightarrow> network_channel \<Rightarrow> (bool \<times> network_channel) option" where
  "module_redis_command_stream_entry debug v ch = module_redis_command_stream_entry_range debug v 0 (seq_size v) ch"

text \<open>
  The range of GETRANGE and SUBSTR. The numbers are signed and have 64 bits; a sum that does not fit
  is taken modulo \<open>2 ^ 64\<close>. A comparison with the size of the value is unsigned. None is the empty
  reply.
\<close>

definition wrap64 :: "int \<Rightarrow> int" where
  "wrap64 z = (z + 2 ^ 63) mod 2 ^ 64 - 2 ^ 63"

definition getrange_range :: "int \<Rightarrow> int \<Rightarrow> nat \<Rightarrow> (int \<times> int) option" where
  "getrange_range start_value end_value n =
     (let range_start = (if start_value < 0 then wrap64 (start_value + int n) else start_value);
          range_end = (if end_value < 0 then wrap64 (end_value + int n) else end_value)
      in if range_end < range_start then None
         else
           let range_length = wrap64 (range_end - range_start + 1)
           in if int n < range_start mod 2 ^ 64 \<or> range_length \<le> 0 then None
              else if int n < wrap64 (range_start + range_length) mod 2 ^ 64
              then Some (range_start, wrap64 (int n - range_start))
              else Some (range_start, range_length))"

section \<open>The start and the end of a reply\<close>

abbreviation max_packet :: nat where "max_packet \<equiv> NETWORK_CHANNEL_MAX_PACKET_SIZE"

definition blob_header :: "nat \<Rightarrow> bytes" where
  "blob_header n = resp_line PROTOCOL_REDIS_TYPE_BLOB_STRING (dec n)"

lemma length_blob_header: "n < 2 ^ 31 \<Longrightarrow> length (blob_header n) \<le> 13"
  using length_dec_le [of n 10] by (simp add: blob_header_def resp_line_def)

lemma int_dec_int: "n < 2 ^ 31 \<Longrightarrow> int_dec (scast (of_nat n :: u32)) = dec n"
proof -
  assume n: "n < 2 ^ 31"
  have "sint (of_nat n :: u32) = int n"
    using n by (simp add: signed_of_nat signed_take_bit_int_eq_self)
  then have "(scast (of_nat n :: u32) :: u64) = of_nat n"
    by (simp add: scast_eq)
  then show ?thesis using n by (simp add: int_dec_nat)
qed

lemma blob_start_written:
  assumes "can_send k ch" and "32 \<le> m" and "m \<le> NETWORK_CHANNEL_SEND_BUFFER_SIZE" and "n < 2 ^ 31"
  shows "\<exists>ch1 rest. module_redis_command_acquire_slice_and_write_blob_start m n ch =
      Some ((True, Some (blob_header n, rest)), ch1\<lparr> send_slice_acquired_length := m \<rparr>)
    \<and> length rest = m - length (blob_header n) \<and> can_send k ch1 \<and> stream ch1 = stream ch
    \<and> send_data_size ch1 + m \<le> send_length ch1"
proof -
  obtain ch1 where ch1: "network_send_buffer_acquire_slice m ch = Some (True, ch1\<lparr> send_slice_acquired_length := m \<rparr>)"
    "can_send k ch1" "stream ch1 = stream ch" "send_data_size ch1 + m \<le> send_length ch1"
    using acquire_ok [OF assms(1) _ assms(3)] assms(2) by auto
  let ?b = "slice_of m (ch1\<lparr> send_slice_acquired_length := m \<rparr>)"
  have l: "length ?b = m" using length_slice_of [of ch1 m] ch1 by (simp add: can_send_def)
  have "writes (protocol_redis_writer_write_argument_blob_start False (scast (of_nat n :: u32))) (blob_header n)"
    using writes_blob_start [of False "scast (of_nat n :: u32)"] int_dec_int [OF assms(4)]
    by (simp add: blob_header_def)
  then have "protocol_redis_writer_write_argument_blob_start False (scast (of_nat n :: u32)) ?b
      = Written (blob_header n) (drop (length (blob_header n)) ?b)"
    using l length_blob_header [OF assms(4)] assms(2) by (simp add: writes_def)
  then show ?thesis
    using ch1 l unfolding module_redis_command_acquire_slice_and_write_blob_start_def
    by (intro exI [of _ ch1] exI [of _ "drop (length (blob_header n)) ?b"]) simp
qed

lemma blob_end_written:
  "2 < length b \<Longrightarrow> protocol_redis_writer_write_argument_blob_end b = Written crlf (drop 2 b)"
  using writes_eol by (simp add: writes_def protocol_redis_writer_write_argument_blob_end_def numeral_2_eq_2)

lemma release_written_ok:
  assumes "can_send (length bs + n) ch" and "send_data_size ch + m \<le> send_length ch"
    and "0 < m" and "length bs \<le> m"
  shows "\<exists>ch1. release_written bs (ch\<lparr> send_slice_acquired_length := m \<rparr>) = Some (True, ch1)
      \<and> can_send n ch1 \<and> stream ch1 = stream ch @ bs"
  using store_release [OF assms] by (auto simp: release_written_def)

lemma stream_end_ok:
  assumes "can_send (2 + k) ch"
  shows "\<exists>ch1. stream_end ch = Some (True, ch1) \<and> can_send k ch1 \<and> stream ch1 = stream ch @ crlf"
proof -
  obtain ch1 where ch1: "network_send_buffer_acquire_slice 32 ch = Some (True, ch1\<lparr> send_slice_acquired_length := 32 \<rparr>)"
    "can_send (2 + k) ch1" "stream ch1 = stream ch" "send_data_size ch1 + 32 \<le> send_length ch1"
    using acquire_ok [OF assms, of 32]
    by (auto simp: NETWORK_CHANNEL_SEND_BUFFER_SIZE_def NETWORK_CHANNEL_MAX_PACKET_SIZE_def)
  have l: "length (slice_of 32 (ch1\<lparr> send_slice_acquired_length := 32 \<rparr>)) = 32"
    using length_slice_of [of ch1 32] ch1 by (simp add: can_send_def)
  have "can_send (length crlf + k) ch1" using ch1(2) by simp
  from release_written_ok [OF this ch1(4)] show ?thesis
    using ch1(1,3) l by (simp add: stream_end_def blob_end_written)
qed

section \<open>A value in one chunk\<close>

lemma one_chunk_ok:
  assumes n: "offset + n \<le> length v" and v: "v \<noteq> []" "length v + 32 \<le> max_packet"
    and ch: "can_send (length (blob_header n) + n + 2 + k) ch"
  shows "\<exists>ch1. module_redis_command_stream_entry_range_with_one_chunk debug (sequence_of v) offset n ch = Some (True, ch1)
    \<and> can_send k ch1 \<and> stream ch1 = stream ch @ blob_header n @ take n (drop offset v) @ crlf"
proof -
  have small: "length v \<le> 32736" using v(2) by (simp add: NETWORK_CHANNEL_MAX_PACKET_SIZE_def)
  have vc: "take chunk_max v = v" using small by (simp add: STORAGE_DB_CHUNK_MAX_SIZE_def)
  have cnt: "ceil_div (length v) = 1"
    using ceil_div_step [of "length v"] v(1) small by (simp add: STORAGE_DB_CHUNK_MAX_SIZE_def)
  have n31: "n < 2 ^ 31" using n small by simp
  have m: "32 \<le> n + 32" "n + 32 \<le> NETWORK_CHANNEL_SEND_BUFFER_SIZE"
    using n small by (simp_all add: NETWORK_CHANNEL_SEND_BUFFER_SIZE_def NETWORK_CHANNEL_MAX_PACKET_SIZE_def)
  obtain ch1 rest where st: "module_redis_command_acquire_slice_and_write_blob_start (n + 32) n ch =
      Some ((True, Some (blob_header n, rest)), ch1\<lparr> send_slice_acquired_length := n + 32 \<rparr>)"
    and rest: "length rest = n + 32 - length (blob_header n)"
    and ch1: "can_send (length (blob_header n) + n + 2 + k) ch1" "stream ch1 = stream ch"
      "send_data_size ch1 + (n + 32) \<le> send_length ch1"
    using blob_start_written [OF ch m n31] by blast
  let ?bs = "take n (drop offset v)"
  have lbs: "length ?bs = n" using n by simp
  have g: "storage_db_chunk_sequence_get (Some (sequence_of v)) 0 = Some (chunk_of v)"
    using v(1) by (simp add: sequence_get vc)
  have r: "storage_db_chunk_read (chunk_of v) offset n = Some ?bs"
    using n by (simp add: storage_db_chunk_read_def mem_read_def)
  have h: "length (blob_header n) \<le> 13" by (rule length_blob_header [OF n31])
  have e: "\<not> length rest < n" "protocol_redis_writer_write_argument_blob_end (drop n rest) = Written crlf (drop 2 (drop n rest))"
    using rest h by (simp_all add: blob_end_written)
  have w: "can_send (length (blob_header n @ ?bs @ crlf) + k) ch1"
    using ch1(1) lbs by (simp add: add.assoc)
  have "length (blob_header n @ ?bs @ crlf) \<le> n + 32" using h lbs by simp
  from release_written_ok [OF w ch1(3) _ this] show ?thesis
    using st g r e ch1(2) n v(2) cnt
    by (simp add: module_redis_command_stream_entry_range_with_one_chunk_def)
qed

section \<open>A value in several chunks\<close>

lemma skip_chunks_inside:
  "i * chunk_max + offset < length v \<Longrightarrow>
     skip_chunks (sequence_of v) i offset =
       ((i * chunk_max + offset) div chunk_max, (i * chunk_max + offset) mod chunk_max)"
proof (induction "ceil_div (length v) - i" arbitrary: i offset rule: less_induct)
  case less
  have i: "i * chunk_max < length v" using less.prems by linarith
  then have ic: "i < ceil_div (length v)" by (simp only: ceil_div_less_iff)
  let ?l = "min chunk_max (length v - i * chunk_max)"
  have l: "chunk_length (seq_sequence (sequence_of v) ! i) = ?l"
    using i ic by (simp add: nth_pieces min.commute)
  show ?case
  proof (cases "offset < chunk_max")
    case True
    then have "offset < ?l" using less.prems by linarith
    then show ?thesis
      using l ic piece_div_mod [OF True, of "i * chunk_max + offset" i]
      by (subst skip_chunks.simps) simp
  next
    case False
    have lm: "?l = chunk_max" using False less.prems by linarith
    have e: "Suc i * chunk_max + (offset - chunk_max) = i * chunk_max + offset" using False by simp
    have "skip_chunks (sequence_of v) (Suc i) (offset - chunk_max) =
        ((i * chunk_max + offset) div chunk_max, (i * chunk_max + offset) mod chunk_max)"
      using less.hyps [of "Suc i" "offset - chunk_max"] less.prems ic unfolding e by simp
    then show ?thesis using False ic l lm by (subst skip_chunks.simps) simp
  qed
qed

lemma skip_chunks_behind:
  "length v \<le> i * chunk_max + offset \<Longrightarrow> ceil_div (length v) \<le> fst (skip_chunks (sequence_of v) i offset)"
proof (induction "ceil_div (length v) - i" arbitrary: i offset rule: less_induct)
  case less
  show ?case
  proof (cases "i < ceil_div (length v)")
    case True
    let ?l = "min chunk_max (length v - i * chunk_max)"
    have i: "i * chunk_max < length v" using True by (simp only: ceil_div_less_iff)
    have l: "chunk_length (seq_sequence (sequence_of v) ! i) = ?l"
      using i True by (simp add: nth_pieces min.commute)
    show ?thesis
    proof (cases "offset < ?l")
      case True
      then show ?thesis using less.prems by linarith
    next
      case False
      have "length v \<le> Suc i * chunk_max + (offset - ?l)" using less.prems False by simp
      from less.hyps [OF _ this] True show ?thesis
        using False l by (subst skip_chunks.simps) simp
    qed
  qed (subst skip_chunks.simps, simp)
qed

lemma max_packet_pos: "0 < max_packet"
  by (simp add: NETWORK_CHANNEL_MAX_PACKET_SIZE_def)

lemma send_packets_ok:
  "sent < to_send \<Longrightarrow> to_send \<le> length b \<Longrightarrow> can_send (to_send - sent + k) ch \<Longrightarrow>
     \<exists>ch1. send_packets b to_send sent n ch = Some (True, n - (to_send - sent), ch1) \<and> can_send k ch1
       \<and> stream ch1 = stream ch @ take (to_send - sent) (drop sent b)"
proof (induction "to_send - sent" arbitrary: sent n ch rule: less_induct)
  case less
  define m where "m = min (to_send - sent) max_packet"
  have m: "0 < m" "sent + m \<le> to_send" using less.prems max_packet_pos by (auto simp: m_def)
  let ?p = "take m (drop sent b)"
  have lp: "length ?p = m" using m less.prems by simp
  have "can_send (length ?p + (to_send - (sent + m) + k)) ch" using less.prems(3) m lp by simp
  then obtain ch0 where ch0: "network_send_direct ?p ch = Some (NETWORK_OP_RESULT_OK, ch0)"
    "can_send (to_send - (sent + m) + k) ch0" "stream ch0 = stream ch @ ?p"
    using send_direct_sends [of ?p] lp m by (metis length_0_conv less_not_refl)
  have r: "mem_read b sent m = Some ?p" using m less.prems by (simp add: mem_read_def)
  have step: "send_packets b to_send sent n ch =
      (if sent + m < to_send then send_packets b to_send (sent + m) (n - m) ch0 else Some (True, n - m, ch0))"
    by (subst send_packets.simps) (simp add: Let_def m_def [symmetric] r ch0(1))
  show ?case
  proof (cases "sent + m < to_send")
    case True
    have "to_send - (sent + m) < to_send - sent" using m True by linarith
    from less.hyps [OF this True less.prems(2) ch0(2), of "n - m"]
    obtain ch1 where ch1: "send_packets b to_send (sent + m) (n - m) ch0 = Some (True, n - m - (to_send - (sent + m)), ch1)"
      "can_send k ch1" "stream ch1 = stream ch0 @ take (to_send - (sent + m)) (drop (sent + m) b)"
      by blast
    have "?p @ take (to_send - (sent + m)) (drop (sent + m) b) = take (m + (to_send - (sent + m))) (drop sent b)"
      by (simp only: take_add drop_drop add.commute)
    moreover have "m + (to_send - (sent + m)) = to_send - sent" using m by simp
    moreover have "n - m - (to_send - (sent + m)) = n - (to_send - sent)" using m by simp
    ultimately show ?thesis using ch0(3) ch1 step True by auto
  next
    case False
    then have "m = to_send - sent" using m by simp
    then show ?thesis using ch0 step False by simp
  qed
qed

text \<open>Packets behind the end of the chunk are read from somewhere else.\<close>

lemma send_packets_outside:
  "sent < to_send \<Longrightarrow> length b < to_send \<Longrightarrow> can_send (to_send - sent + k) ch \<Longrightarrow>
     send_packets b to_send sent n ch = None"
proof (induction "to_send - sent" arbitrary: sent n ch rule: less_induct)
  case less
  define m where "m = min (to_send - sent) max_packet"
  have m: "0 < m" "sent + m \<le> to_send" using less.prems max_packet_pos by (auto simp: m_def)
  show ?case
  proof (cases "sent + m \<le> length b")
    case True
    let ?p = "take m (drop sent b)"
    have lp: "length ?p = m" using True by simp
    have "can_send (length ?p + (to_send - (sent + m) + k)) ch" using less.prems(3) m lp by simp
    then obtain ch0 where ch0: "network_send_direct ?p ch = Some (NETWORK_OP_RESULT_OK, ch0)"
      "can_send (to_send - (sent + m) + k) ch0"
      using send_direct_sends [of ?p] lp m by (metis length_0_conv less_not_refl)
    have "sent + m < to_send" using True less.prems(2) by simp
    moreover have "to_send - (sent + m) < to_send - sent" using m less.prems(1) by linarith
    ultimately have "send_packets b to_send (sent + m) (n - m) ch0 = None"
      using less.hyps [OF _ _ less.prems(2) ch0(2)] by blast
    then show ?thesis using \<open>sent + m < to_send\<close> True ch0(1)
      by (subst send_packets.simps) (simp add: Let_def m_def [symmetric] mem_read_def)
  next
    case False
    then show ?thesis by (subst send_packets.simps) (simp add: Let_def m_def [symmetric] mem_read_def)
  qed
qed

lemma send_chunks_none [simp]: "send_chunks v i sent 0 ch = Some (True, ch)"
  by (subst send_chunks.simps) simp

lemma chunk_facts:
  assumes "i * chunk_max < length v"
  shows "i < seq_count (sequence_of v)"
    and "chunk_data (seq_sequence (sequence_of v) ! i) = take chunk_max (drop (i * chunk_max) v)"
    and "chunk_length (seq_sequence (sequence_of v) ! i) = min chunk_max (length v - i * chunk_max)"
proof -
  show i: "i < seq_count (sequence_of v)" using assms by (simp add: ceil_div_less_iff)
  show "chunk_data (seq_sequence (sequence_of v) ! i) = take chunk_max (drop (i * chunk_max) v)"
    "chunk_length (seq_sequence (sequence_of v) ! i) = min chunk_max (length v - i * chunk_max)"
    using i assms by (simp_all add: nth_pieces min.commute)
qed

lemma send_chunks_ok:
  "r < chunk_max \<Longrightarrow> i * chunk_max + r + n \<le> length v \<Longrightarrow> chunk_max < n \<or> r + n \<le> chunk_max \<Longrightarrow>
     can_send (n + k) ch \<Longrightarrow>
     \<exists>ch1. send_chunks (sequence_of v) i r n ch = Some (True, ch1) \<and> can_send k ch1
       \<and> stream ch1 = stream ch @ take n (drop (i * chunk_max + r) v)"
proof (induction n arbitrary: i r ch rule: less_induct)
  case (less n)
  show ?case
  proof (cases "n = 0")
    case True
    then show ?thesis using less.prems by simp
  next
    case False
    have i: "i * chunk_max < length v" using less.prems(2) False by linarith
    note cf = chunk_facts [OF i]
    let ?l = "min chunk_max (length v - i * chunk_max)" and ?d = "take chunk_max (drop (i * chunk_max) v)"
    have ld: "length ?d = ?l" by (simp add: min.commute)
    show ?thesis
    proof (cases "?l < n")
      case True
      then have lm: "?l = chunk_max" using less.prems(2,3) by linarith
      have nk: "n + k = chunk_max - r + (n - (chunk_max - r) + k)" using True lm less.prems(1) by linarith
      have le: "chunk_max \<le> length ?d" unfolding ld lm ..
      obtain ch0 where ch0: "send_packets ?d chunk_max r n ch = Some (True, n - (chunk_max - r), ch0)"
        "can_send (n - (chunk_max - r) + k) ch0" "stream ch0 = stream ch @ take (chunk_max - r) (drop r ?d)"
        using send_packets_ok [OF less.prems(1) le, of "n - (chunk_max - r) + k" ch n] less.prems(4)
        unfolding nk by blast
      have "n - (chunk_max - r) < n" "Suc i * chunk_max + 0 + (n - (chunk_max - r)) \<le> length v"
        using less.prems(1,2) False True lm by simp_all
      then obtain ch1 where ch1: "send_chunks (sequence_of v) (Suc i) 0 (n - (chunk_max - r)) ch0 = Some (True, ch1)"
        "can_send k ch1" "stream ch1 = stream ch0 @ take (n - (chunk_max - r)) (drop (Suc i * chunk_max + 0) v)"
        using less.IH [of "n - (chunk_max - r)" 0 "Suc i" ch0] ch0(2) by fastforce
      have d: "take (chunk_max - r) (drop r ?d) = take (chunk_max - r) (drop (i * chunk_max + r) v)"
        by (simp add: drop_take add.commute)
      have "take n (drop (i * chunk_max + r) v) =
          take (chunk_max - r) (drop (i * chunk_max + r) v)
          @ take (n - (chunk_max - r)) (drop (chunk_max - r) (drop (i * chunk_max + r) v))"
        using True lm by (simp only: take_add [symmetric]) simp
      moreover have "chunk_max - r + (i * chunk_max + r) = Suc i * chunk_max" using less.prems(1) by simp
      ultimately have "stream ch1 = stream ch @ take n (drop (i * chunk_max + r) v)"
        using ch0(3) ch1(3) d by (simp add: drop_drop)
      then show ?thesis
        using ch0(1) ch1(1,2) cf True lm False
        by (subst send_chunks.simps) (simp add: Let_def)
    next
      case lt: False
      have rn: "r + n \<le> chunk_max" "r + n \<le> ?l" using lt less.prems(2,3) by linarith+
      obtain ch0 where ch0: "send_packets ?d (n + r) r n ch = Some (True, 0, ch0)"
        "can_send k ch0" "stream ch0 = stream ch @ take n (drop r ?d)"
        using send_packets_ok [of r "n + r" ?d k ch n] less.prems(4) ld rn False by (auto simp: add.commute)
      have "take n (drop r ?d) = take n (drop (i * chunk_max + r) v)"
        using rn by (simp add: drop_take add.commute min_def)
      then show ?thesis
        using ch0 cf lt False
        by (subst send_chunks.simps) (simp add: Let_def)
    qed
  qed
qed

text \<open>A range that is shorter than a chunk and ends in the next one.\<close>

lemma send_chunks_outside:
  assumes "r < chunk_max" and "i * chunk_max + r + n \<le> length v" and "n \<le> chunk_max" and "chunk_max < r + n"
    and "can_send (n + k) ch"
  shows "send_chunks (sequence_of v) i r n ch = None"
proof -
  have i: "i * chunk_max < length v" using assms(1-4) by linarith
  note cf = chunk_facts [OF i]
  have lm: "min chunk_max (length v - i * chunk_max) = chunk_max" using assms by linarith
  have "send_packets (take chunk_max (drop (i * chunk_max) v)) (n + r) r n ch = None"
    using assms by (intro send_packets_outside [where k = k]) (auto simp: add.commute)
  then show ?thesis
    using cf lm assms by (subst send_chunks.simps) (simp add: Let_def)
qed

lemma multiple_chunks:
  assumes n: "offset + n \<le> length v" and n31: "n < 2 ^ 31"
    and ch: "can_send (length (blob_header n) + n + 2 + k) ch"
    and debug: "\<not> debug"
  defines "r \<equiv> module_redis_command_stream_entry_range_with_multiple_chunks debug (sequence_of v) offset n ch"
  shows "n \<le> chunk_max \<Longrightarrow> chunk_max < offset mod chunk_max + n \<Longrightarrow> r = None"
    and "chunk_max < n \<or> offset mod chunk_max + n \<le> chunk_max \<Longrightarrow>
      \<exists>ch1. r = Some (True, ch1) \<and> can_send k ch1
        \<and> stream ch1 = stream ch @ blob_header n @ take n (drop offset v) @ crlf"
proof -
  obtain ch1 rest where st: "module_redis_command_acquire_slice_and_write_blob_start 32 n ch =
      Some ((True, Some (blob_header n, rest)), ch1\<lparr> send_slice_acquired_length := 32 \<rparr>)"
    and ch1: "can_send (length (blob_header n) + n + 2 + k) ch1" "stream ch1 = stream ch"
      "send_data_size ch1 + 32 \<le> send_length ch1"
    using blob_start_written [OF ch _ _ n31, of 32]
    by (auto simp: NETWORK_CHANNEL_SEND_BUFFER_SIZE_def NETWORK_CHANNEL_MAX_PACKET_SIZE_def)
  have "can_send (length (blob_header n) + (n + (2 + k))) ch1" using ch1(1) by (simp add: add.assoc)
  from release_written_ok [OF this ch1(3)] length_blob_header [OF n31]
  obtain ch2 where ch2: "release_written (blob_header n) (ch1\<lparr> send_slice_acquired_length := 32 \<rparr>) = Some (True, ch2)"
    "can_send (n + (2 + k)) ch2" "stream ch2 = stream ch @ blob_header n"
    using ch1(2) by auto
  have r: "r = (let (chunk_index, sent_data) = skip_chunks (sequence_of v) 0 offset
      in case send_chunks (sequence_of v) chunk_index sent_data n ch2 of
           None \<Rightarrow> None | Some (sent, ch3) \<Rightarrow> if \<not> sent then Some (False, ch3) else stream_end ch3)"
    using debug by (simp add: r_def module_redis_command_stream_entry_range_with_multiple_chunks_def st ch2(1))
  have rm: "offset mod chunk_max < chunk_max" by simp
  have pq: "offset div chunk_max * chunk_max + offset mod chunk_max = offset" by (simp only: div_mult_mod_eq)
  have sk: "skip_chunks (sequence_of v) 0 offset = (offset div chunk_max, offset mod chunk_max)" if "0 < n"
    using skip_chunks_inside [of 0 offset v] that n by simp
  show "r = None" if "n \<le> chunk_max" "chunk_max < offset mod chunk_max + n"
  proof -
    have n0: "0 < n" using that(2) rm by linarith
    have "send_chunks (sequence_of v) (offset div chunk_max) (offset mod chunk_max) n ch2 = None"
      using n ch2(2) that pq by (intro send_chunks_outside [OF rm, where k = "2 + k"]) simp_all
    then show ?thesis by (simp add: r sk [OF n0])
  qed
  show "\<exists>ch1. r = Some (True, ch1) \<and> can_send k ch1
        \<and> stream ch1 = stream ch @ blob_header n @ take n (drop offset v) @ crlf"
    if c: "chunk_max < n \<or> offset mod chunk_max + n \<le> chunk_max"
  proof -
    obtain i s where ks: "skip_chunks (sequence_of v) 0 offset = (i, s)" by fastforce
    have "\<exists>ch3. send_chunks (sequence_of v) i s n ch2 = Some (True, ch3) \<and> can_send (2 + k) ch3
        \<and> stream ch3 = stream ch2 @ take n (drop offset v)"
    proof (cases "n = 0")
      case True
      then show ?thesis using ch2(2) by simp
    next
      case False
      then show ?thesis
        using send_chunks_ok [OF rm, of "offset div chunk_max" n v "2 + k" ch2] n c ch2(2) ks sk pq by simp
    qed
    then obtain ch3 where ch3: "send_chunks (sequence_of v) i s n ch2 = Some (True, ch3)" "can_send (2 + k) ch3"
      "stream ch3 = stream ch2 @ take n (drop offset v)" by blast
    show ?thesis using stream_end_ok [OF ch3(2)] ch3(1,3) ch2(3) by (simp add: r ks)
  qed
qed

section \<open>The reply of a value\<close>

lemma resp_blob: "resp (Resp_blob_string s) = blob_header (length s) @ s @ crlf"
  by (simp add: blob_header_def)

lemma stream_entry_range_cases:
  assumes n: "offset + n \<le> length v" and v: "length v < 2 ^ 31"
    and ch: "can_send (length (blob_header n) + n + 2 + k) ch"
  shows "if n \<le> chunk_max \<and> chunk_max < offset mod chunk_max + n
      then module_redis_command_stream_entry_range False (sequence_of v) offset n ch = None
      else \<exists>ch1. module_redis_command_stream_entry_range False (sequence_of v) offset n ch = Some (True, ch1)
        \<and> can_send k ch1 \<and> stream ch1 = stream ch @ resp (Resp_blob_string (take n (drop offset v)))"
proof -
  have l: "length (take n (drop offset v)) = n" using n by simp
  have n31: "n < 2 ^ 31" using n v by simp
  show ?thesis
  proof (cases "ceil_div (length v) = 1 \<and> length v + 32 \<le> max_packet")
    case True
    then have "v \<noteq> []" by auto
    from one_chunk_ok [OF n this conjunct2 [OF True] ch, of False]
    have "\<exists>ch1. module_redis_command_stream_entry_range False (sequence_of v) offset n ch = Some (True, ch1)
        \<and> can_send k ch1 \<and> stream ch1 = stream ch @ resp (Resp_blob_string (take n (drop offset v)))"
      unfolding resp_blob l using True n by (simp add: module_redis_command_stream_entry_range_def)
    moreover have "offset mod chunk_max + n \<le> chunk_max"
    proof -
      have "offset < chunk_max" "offset + n \<le> chunk_max"
        using True n by (simp_all add: NETWORK_CHANNEL_MAX_PACKET_SIZE_def STORAGE_DB_CHUNK_MAX_SIZE_def)
      then show ?thesis by simp
    qed
    ultimately show ?thesis by simp
  next
    case False
    then have r: "module_redis_command_stream_entry_range False (sequence_of v) offset n ch =
        module_redis_command_stream_entry_range_with_multiple_chunks False (sequence_of v) offset n ch"
      using n by (auto simp: module_redis_command_stream_entry_range_def)
    show ?thesis
      using multiple_chunks [OF n n31 ch, of False] unfolding r resp_blob l by auto
  qed
qed

lemma stream_entry_ok:
  assumes "length v < 2 ^ 31" and "can_send (length (blob_header (length v)) + length v + 2 + k) ch"
  shows "\<exists>ch1. module_redis_command_stream_entry False (sequence_of v) ch = Some (True, ch1)
    \<and> can_send k ch1 \<and> stream ch1 = stream ch @ resp (Resp_blob_string v)"
  using stream_entry_range_cases [of 0 "length v" v k ch] assms
  by (simp add: module_redis_command_stream_entry_def split: if_splits)

section \<open>The range of GETRANGE\<close>

lemma wrap64_small: "- (2 ^ 63) \<le> z \<Longrightarrow> z < 2 ^ 63 \<Longrightarrow> wrap64 z = z"
  by (simp add: wrap64_def)

text \<open>The bytes whose positions lie in a range of integers.\<close>

definition selected :: "bytes \<Rightarrow> int \<Rightarrow> int \<Rightarrow> bytes" where
  "selected v a b = map (\<lambda>i. v ! i) (filter (\<lambda>i. a \<le> int i \<and> int i \<le> b) [0..<length v])"

lemma filter_upt: "filter (\<lambda>i. a \<le> i \<and> i < b) [0..<n] = [a..<min b n]" for n :: nat
  by (induction n) (auto simp: min_def le_Suc_eq)

lemma selected_range:
  assumes "0 \<le> a"
  shows "selected v a b = take (nat (b + 1 - a)) (drop (nat a) v)"
proof -
  have "(\<lambda>i. a \<le> int i \<and> int i \<le> b) = (\<lambda>i. nat a \<le> i \<and> i < nat (b + 1))"
    using assms by (intro ext) auto
  then have "selected v a b = map (\<lambda>i. v ! i) [nat a..<min (nat (b + 1)) (length v)]"
    by (simp add: selected_def filter_upt)
  also have "\<dots> = take (nat (b + 1 - a)) (drop (nat a) v)"
  proof (rule nth_equalityI)
    show "length (map (\<lambda>i. v ! i) [nat a..<min (nat (b + 1)) (length v)])
        = length (take (nat (b + 1 - a)) (drop (nat a) v))" using assms by auto
    fix i
    assume i: "i < length (map (\<lambda>i. v ! i) [nat a..<min (nat (b + 1)) (length v)])"
    then have "nat a + i < min (nat (b + 1)) (length v)" unfolding length_map length_upt by linarith
    moreover from this have k: "i < nat (b + 1 - a)" using assms by linarith
    ultimately show "map (\<lambda>i. v ! i) [nat a..<min (nat (b + 1)) (length v)] ! i
        = take (nat (b + 1 - a)) (drop (nat a) v) ! i"
      using assms i k by (simp add: nth_upt del: length_upt)
  qed
  finally show ?thesis .
qed

definition signed_index :: "int \<Rightarrow> nat \<Rightarrow> int" where
  "signed_index i n = (if i < 0 then i + int n else i)"

lemma getrange_cases:
  assumes a: "- (2 ^ 63) \<le> a" "a < 2 ^ 63" and b: "- (2 ^ 63) \<le> b" "b < 2 ^ 63" and n: "n < 2 ^ 62"
    and pos: "0 \<le> signed_index a n" and small: "b < 2 ^ 63 - 1"
  shows "getrange_range a b n =
    (if signed_index b n < signed_index a n \<or> int n < signed_index a n then None
     else Some (signed_index a n, min (signed_index b n + 1) (int n) - signed_index a n))"
proof -
  let ?s = "signed_index a n" and ?e = "signed_index b n"
  have s: "(if a < 0 then wrap64 (a + int n) else a) = ?s" "?s < 2 ^ 63"
    and e: "(if b < 0 then wrap64 (b + int n) else b) = ?e" "?e < 2 ^ 63 - 1"
    using a b n small by (auto simp: signed_index_def wrap64_small)
  have m: "?s mod 2 ^ 64 = ?s" using pos s by simp
  show ?thesis
  proof (cases "?e < ?s")
    case True
    then show ?thesis by (simp add: getrange_range_def s e)
  next
    case False
    have "wrap64 (?e - ?s + 1) = ?e - ?s + 1" using False pos e by (intro wrap64_small) auto
    moreover have "wrap64 (?s + (?e - ?s + 1)) mod 2 ^ 64 = ?e + 1"
      using False pos e by (simp add: wrap64_small)
    moreover have "wrap64 (int n - ?s) = int n - ?s" using pos s n by (intro wrap64_small) auto
    ultimately show ?thesis using False m by (auto simp: getrange_range_def s e Let_def)
  qed
qed

section \<open>Properties\<close>

text \<open>
  C33: A value that a client sends in pieces of any size is the value that GET replies. The chunks
  that the pieces fill up and the network channel, whose kernel may take the reply in as many steps
  as it likes, add and lose nothing, for every value shorter than \<open>2 ^ 31\<close> bytes.
\<close>

theorem sent_value_is_replied:
  assumes "fresh_ok mem" and "length (concat ps) < 2 ^ 31"
    and "can_send (length (resp (Resp_blob_string (concat ps)))) ch"
  shows "\<exists>s ch1. argument_stream ps (argument_stream_begin mem (length (concat ps))) = Some s
    \<and> module_redis_command_stream_entry False (ls_sequence s) ch = Some (True, ch1)
    \<and> stream ch1 = stream ch @ resp (Resp_blob_string (concat ps))"
proof -
  let ?v = "concat ps" and ?f = "fresh_value mem 0 (ceil_div (length (concat ps))) (length (concat ps))"
  have small: "length ?v \<le> 65535 * chunk_max" using assms(2) by (simp add: STORAGE_DB_CHUNK_MAX_SIZE_def)
  have lf: "length ?f = length ?v" by (rule length_fresh_value [OF assms(1) refl])
  have s: "argument_stream ps (argument_stream_begin mem (length ?v)) = Some (cursor ?v (length ?v))"
    using argument_stream_ok [of 0 ps ?f] lf splice_all [of ?v ?f]
    by (simp add: argument_stream_begin_cursor [OF assms(1) small])
  have "can_send (length (blob_header (length ?v)) + length ?v + 2 + 0) ch"
    using assms(3) unfolding resp_blob by (simp add: add.assoc)
  from stream_entry_ok [OF assms(2) this] show ?thesis using s by (auto simp: cursor_simps(3))
qed

theorem sent_value_is_replied_witness:
  "\<exists>s ch1. argument_stream [[104, 105], [33]] (argument_stream_begin (\<lambda>i n. replicate n 0) 3) = Some s
    \<and> module_redis_command_stream_entry False (ls_sequence s)
        (init_channel (replicate 65536 0) (replicate 100 1)) = Some (True, ch1)
    \<and> stream ch1 = str ''$3'' @ crlf @ str ''hi!'' @ crlf"
proof -
  let ?ps = "[[104, 105], [33]] :: bytes list" and ?ch = "init_channel (replicate 65536 0) (replicate 100 1)"
  have r: "resp (Resp_blob_string (concat ?ps)) = str ''$3'' @ crlf @ str ''hi!'' @ crlf"
    by (simp add: resp_line_def dec.simps digit_def str_def)
  have l: "length (concat ?ps) = 3" "length (str ''$3'' @ crlf @ str ''hi!'' @ crlf) = 9"
    by (simp_all add: str_def)
  have "can_send 9 ?ch" and "stream ?ch = []"
    by (simp_all add: can_send_def channel_ok_def init_channel_def NETWORK_CHANNEL_SEND_BUFFER_SIZE_def
        NETWORK_CHANNEL_MAX_PACKET_SIZE_def stream_def)
  then show ?thesis
    using sent_value_is_replied [of "\<lambda>i n. replicate n 0" ?ps ?ch, unfolded r l append_Nil]
    by (simp only: append_Nil) (simp add: fresh_ok_def)
qed

text \<open>
  C34: The reply of a range. Every range of a value is sent as it is, except one that is not longer
  than a chunk and ends in another chunk than it starts in: for such a range the code reads behind
  the end of the chunk the range starts in.
\<close>

theorem range_reply:
  assumes "offset + n \<le> length v" and "length v < 2 ^ 31"
    and "can_send (length (resp (Resp_blob_string (take n (drop offset v))))) ch"
  shows "if n \<le> STORAGE_DB_CHUNK_MAX_SIZE \<and> STORAGE_DB_CHUNK_MAX_SIZE < offset mod STORAGE_DB_CHUNK_MAX_SIZE + n
      then module_redis_command_stream_entry_range False (sequence_of v) offset n ch = None
      else \<exists>ch1. module_redis_command_stream_entry_range False (sequence_of v) offset n ch = Some (True, ch1)
        \<and> stream ch1 = stream ch @ resp (Resp_blob_string (take n (drop offset v)))"
proof -
  have "length (take n (drop offset v)) = n" using assms(1) by simp
  then have "can_send (length (blob_header n) + n + 2 + 0) ch"
    using assms(3) unfolding resp_blob by (simp add: add.assoc)
  from stream_entry_range_cases [OF assms(1,2) this] show ?thesis by (auto split: if_splits)
qed

theorem range_reply_witness:
  "module_redis_command_stream_entry_range False (sequence_of (replicate 65537 7)) 65534 2
     (init_channel (replicate 65536 0) (replicate 100 1)) = None"
proof -
  let ?ch = "init_channel (replicate 65536 0) (replicate 100 1)"
  have r: "resp (Resp_blob_string (take 2 (drop 65534 (replicate 65537 7)))) = str ''$2'' @ crlf @ [7, 7] @ crlf"
    by (simp add: resp_line_def dec.simps digit_def str_def numeral_2_eq_2)
  have l: "length (str ''$2'' @ crlf @ [7, 7] @ crlf) = 8" by (simp add: str_def)
  have "can_send 8 ?ch"
    by (simp add: can_send_def channel_ok_def init_channel_def NETWORK_CHANNEL_SEND_BUFFER_SIZE_def
        NETWORK_CHANNEL_MAX_PACKET_SIZE_def)
  then show ?thesis
    using range_reply [of 65534 2 "replicate 65537 7" ?ch, unfolded r l]
    by (simp add: STORAGE_DB_CHUNK_MAX_SIZE_def)
qed

text \<open>
  C35: GETRANGE and SUBSTR reply the bytes between the two positions, where a negative position
  counts from the end. The range they compute never leaves the value, and the bytes in it are the
  ones whose index lies between the positions, for every start that is not in front of the value
  and every end below the greatest integer.
\<close>

theorem getrange_selects:
  assumes "- (2 ^ 63) \<le> a" and "a < 2 ^ 63" and "- (2 ^ 63) \<le> b" and "b < 2 ^ 63 - 1"
    and "length v < 2 ^ 62" and "0 \<le> signed_index a (length v)"
  shows "case getrange_range a b (length v) of
      None \<Rightarrow> selected v (signed_index a (length v)) (signed_index b (length v)) = []
    | Some (s, n) \<Rightarrow> 0 \<le> s \<and> 0 \<le> n \<and> s + n \<le> int (length v)
        \<and> take (nat n) (drop (nat s) v) = selected v (signed_index a (length v)) (signed_index b (length v))"
proof -
  let ?s = "signed_index a (length v)" and ?e = "signed_index b (length v)"
  note g = getrange_cases [OF assms(1,2,3) _ assms(5,6,4)]
  have sel: "selected v ?s ?e = take (nat (?e + 1 - ?s)) (drop (nat ?s) v)"
    by (rule selected_range [OF assms(6)])
  show ?thesis
  proof (cases "?e < ?s \<or> int (length v) < ?s")
    case True
    then have "selected v ?s ?e = []" by (auto simp: sel)
    then show ?thesis using g assms(4) True by simp
  next
    case False
    have "take (nat (min (?e + 1) (int (length v)) - ?s)) (drop (nat ?s) v) = selected v ?s ?e"
    proof (cases "?e + 1 \<le> int (length v)")
      case True
      then show ?thesis by (simp add: sel)
    next
      case le: False
      then show ?thesis using False assms(6) by (simp add: sel)
    qed
    then show ?thesis using g assms(4,6) False by auto
  qed
qed

theorem getrange_selects_witness:
  "getrange_range (- 3) (- 2) 5 = Some (2, 2) \<and> take 2 (drop 2 (str ''hello'')) = selected (str ''hello'') 2 3"
proof -
  have "getrange_range (- 3) (- 2) 5 = Some (2, 2)"
    by (simp add: getrange_range_def wrap64_def)
  moreover have "length (str ''hello'') = 5" by (simp add: str_def)
  ultimately show ?thesis
    using getrange_selects [of "- 3" "- 2" "str ''hello''"] by (simp add: signed_index_def)
qed

end
