(* ===== verification/Chunk_Commands.thy ===== *)
theory Chunk_Commands
  imports Storage_Chunks
begin

text \<open>
  How the commands APPEND, COPY and SETRANGE build the chunks of the new value out of the chunks of
  the old one (\<open>src/src/module/redis/command/\<close>). The destination is a sequence together with the
  chunk and the offset that the next byte goes to, as for a streamed argument. The transaction and
  the operations on the database around the copying are not part of this theory.
\<close>

section \<open>APPEND\<close>

text \<open>
  One chunk of the source. The pointer to the destination chunk is NULL behind the last chunk; a
  chunk of the destination without space would make the loop run forever.
\<close>

function append_chunk :: "bytes \<Rightarrow> nat \<Rightarrow> nat \<Rightarrow> module_redis_long_string \<Rightarrow> module_redis_long_string option" where
  "append_chunk source_buffer buffer_offset buffer_length dest =
     (case storage_db_chunk_sequence_get (Some (ls_sequence dest)) (current_chunk_index dest) of
        None \<Rightarrow> None
      | Some c \<Rightarrow>
          let available_space = chunk_length c - current_chunk_offset dest;
              n = (if buffer_length < available_space then buffer_length else available_space)
          in case mem_read source_buffer buffer_offset n of
               None \<Rightarrow> None
             | Some bs \<Rightarrow>
                 (case sequence_write (ls_sequence dest) (current_chunk_index dest) (current_chunk_offset dest) bs of
                    None \<Rightarrow> None
                  | Some q \<Rightarrow>
                      let full = current_chunk_offset dest + n = chunk_length c;
                          dest1 = dest\<lparr> ls_sequence := q,
                            current_chunk_index := (if full then current_chunk_index dest + 1 else current_chunk_index dest),
                            current_chunk_offset := (if full then 0 else current_chunk_offset dest + n) \<rparr>
                      in if 0 < buffer_length - n
                         then if n = 0 then None
                              else append_chunk source_buffer (buffer_offset + n) (buffer_length - n) dest1
                         else Some dest1))"
  by pat_completeness auto

termination
  by (relation "measure (\<lambda>(source, offset, n, dest). n)") auto

declare append_chunk.simps [simp del]

function append_sequence :: "storage_db_chunk_sequence \<Rightarrow> nat \<Rightarrow> module_redis_long_string \<Rightarrow> module_redis_long_string option" where
  "append_sequence source chunk_index dest =
     (if chunk_index < seq_count source
      then case storage_db_chunk_sequence_get (Some source) chunk_index of
             None \<Rightarrow> None
           | Some c \<Rightarrow>
               (case append_chunk (chunk_data c) 0 (chunk_length c) dest of
                  None \<Rightarrow> None
                | Some dest1 \<Rightarrow> append_sequence source (chunk_index + 1) dest1)
      else Some dest)"
  by pat_completeness auto

termination
  by (relation "measure (\<lambda>(source, i, dest). seq_count source - i)") auto

declare append_sequence.simps [simp del]

text \<open>The value of the key, if there is one, and then the argument.\<close>

definition module_redis_command_append ::
    "fresh_memory \<Rightarrow> storage_db_chunk_sequence option \<Rightarrow> storage_db_chunk_sequence \<Rightarrow> storage_db_chunk_sequence option" where
  "module_redis_command_append mem current val =
     (let n = (case current of None \<Rightarrow> 0 | Some c \<Rightarrow> seq_size c) + seq_size val;
          dest = argument_stream_begin mem n
      in case (case current of None \<Rightarrow> Some dest | Some c \<Rightarrow> append_sequence c 0 dest) of
           None \<Rightarrow> None
         | Some dest1 \<Rightarrow> map_option ls_sequence (append_sequence val 0 dest1))"

section \<open>COPY\<close>

text \<open>The loop over the bytes of a chunk is the one that a streamed argument has, too.\<close>

function copy_chunks :: "storage_db_chunk_sequence \<Rightarrow> nat \<Rightarrow> module_redis_long_string \<Rightarrow> module_redis_long_string option" where
  "copy_chunks source source_chunk_index dest =
     (if source_chunk_index < seq_count source
      then case storage_db_chunk_sequence_get (Some source) source_chunk_index of
             None \<Rightarrow> None
           | Some c \<Rightarrow>
               (case mem_read (chunk_data c) 0 (chunk_length c) of
                  None \<Rightarrow> None
                | Some bs \<Rightarrow>
                    (case stream_data_loop bs 0 dest of
                       None \<Rightarrow> None
                     | Some dest1 \<Rightarrow> copy_chunks source (source_chunk_index + 1) dest1))
      else Some dest)"
  by pat_completeness auto

termination
  by (relation "measure (\<lambda>(source, i, dest). seq_count source - i)") auto

declare copy_chunks.simps [simp del]

definition module_redis_command_copy :: "fresh_memory \<Rightarrow> storage_db_chunk_sequence \<Rightarrow> storage_db_chunk_sequence option" where
  "module_redis_command_copy mem source =
     map_option ls_sequence (copy_chunks source 0 (argument_stream_begin mem (seq_size source)))"

section \<open>SETRANGE\<close>

record setrange_state =
  destination :: module_redis_long_string
  destination_offset :: nat
  current_index :: nat
  range_value_chunk_index :: nat
  range_value_chunk_offset :: nat

text \<open>
  The bytes that one round of the loop writes, with the position in the range value behind them.
  They come from the range value, from the old value, or from a block of zeros. A subtraction that
  would be negative is a length that no chunk has, so it is no result.
\<close>

definition setrange_source ::
    "storage_db_chunk_sequence option \<Rightarrow> storage_db_chunk_sequence \<Rightarrow> nat \<Rightarrow> nat \<Rightarrow> setrange_state
      \<Rightarrow> (bytes \<times> nat \<times> nat) option" where
  "setrange_source current range_value offset requested_total_length st =
     (case storage_db_chunk_sequence_get (Some (ls_sequence (destination st))) (current_chunk_index (destination st)) of
        None \<Rightarrow> None
      | Some d \<Rightarrow>
          if offset \<le> destination_offset st \<and> destination_offset st < requested_total_length
          then case storage_db_chunk_sequence_get (Some range_value) (range_value_chunk_index st) of
                 None \<Rightarrow> None
               | Some c \<Rightarrow>
                   let can_write_length = chunk_length c - range_value_chunk_offset st;
                       available = chunk_length d - current_chunk_offset (destination st);
                       n = (if available < can_write_length then available else can_write_length);
                       behind = range_value_chunk_offset st + n
                   in if chunk_length c < behind then None
                      else map_option (\<lambda>bs. if behind = chunk_length c
                                             then (bs, range_value_chunk_index st + 1, 0)
                                             else (bs, range_value_chunk_index st, behind))
                             (mem_read (chunk_data c) (range_value_chunk_offset st) n)
          else case storage_db_chunk_sequence_get current (current_index st) of
                 None \<Rightarrow>
                   if offset < destination_offset st then None
                   else let needed_padding = offset - destination_offset st;
                            n = (if STORAGE_DB_CHUNK_MAX_SIZE < needed_padding then STORAGE_DB_CHUNK_MAX_SIZE
                                 else needed_padding)
                        in Some (replicate n 0, range_value_chunk_index st, range_value_chunk_offset st)
               | Some c \<Rightarrow>
                   if chunk_length c < current_chunk_offset (destination st) then None
                   else let can_write_length = chunk_length c - current_chunk_offset (destination st);
                            after = destination_offset st + can_write_length;
                            n = (if destination_offset st < requested_total_length \<and> offset < after
                                 then offset - destination_offset st else can_write_length)
                        in map_option (\<lambda>bs. (bs, range_value_chunk_index st, range_value_chunk_offset st))
                             (mem_read (chunk_data c) (current_chunk_offset (destination st)) n))"

definition setrange_round ::
    "storage_db_chunk_sequence option \<Rightarrow> storage_db_chunk_sequence \<Rightarrow> nat \<Rightarrow> nat \<Rightarrow> setrange_state
      \<Rightarrow> setrange_state option" where
  "setrange_round current range_value offset requested_total_length st =
     (case setrange_source current range_value offset requested_total_length st of
        None \<Rightarrow> None
      | Some (bs, ri, ro) \<Rightarrow>
          let dest = destination st; i = current_chunk_index dest; o1 = current_chunk_offset dest + length bs
          in case storage_db_chunk_sequence_get (Some (ls_sequence dest)) i of
               None \<Rightarrow> None
             | Some d \<Rightarrow>
                 (case sequence_write (ls_sequence dest) i (current_chunk_offset dest) bs of
                    None \<Rightarrow> None
                  | Some q \<Rightarrow>
                      let full = o1 = chunk_length d;
                          dest1 = dest\<lparr> ls_sequence := q,
                            current_chunk_index := (if full then i + 1 else i),
                            current_chunk_offset := (if full then 0 else o1) \<rparr>;
                          at_end = (case storage_db_chunk_sequence_get current (current_index st) of
                                      None \<Rightarrow> False | Some c \<Rightarrow> o1 = chunk_length c)
                      in Some (st\<lparr> destination := dest1,
                                   destination_offset := destination_offset st + length bs,
                                   current_index := (if full \<or> at_end then current_index st + 1 else current_index st),
                                   range_value_chunk_index := ri,
                                   range_value_chunk_offset := ro \<rparr>)))"

partial_function (option) setrange_loop ::
    "storage_db_chunk_sequence option \<Rightarrow> storage_db_chunk_sequence \<Rightarrow> nat \<Rightarrow> nat \<Rightarrow> setrange_state
      \<Rightarrow> setrange_state option" where
  "setrange_loop current range_value offset requested_total_length st =
     (case setrange_round current range_value offset requested_total_length st of
        None \<Rightarrow> None
      | Some st1 \<Rightarrow>
          if current_chunk_index (destination st1) < seq_count (ls_sequence (destination st1))
          then setrange_loop current range_value offset requested_total_length st1
          else Some st1)"

definition module_redis_command_setrange ::
    "fresh_memory \<Rightarrow> storage_db_chunk_sequence option \<Rightarrow> nat \<Rightarrow> storage_db_chunk_sequence
      \<Rightarrow> storage_db_chunk_sequence option" where
  "module_redis_command_setrange mem current offset val =
     (let current_length = (case current of None \<Rightarrow> 0 | Some c \<Rightarrow> seq_size c);
          requested_total_length = offset + seq_size val;
          required = (if current_length < requested_total_length then requested_total_length else current_length);
          st = \<lparr> destination = argument_stream_begin mem required, destination_offset = 0, current_index = 0,
                 range_value_chunk_index = 0, range_value_chunk_offset = 0 \<rparr>
      in map_option (\<lambda>st1. ls_sequence (destination st1))
           (setrange_loop current val offset requested_total_length st))"

section \<open>APPEND and COPY\<close>

text \<open>Writing bytes at the cursor that stay inside its chunk.\<close>

lemma cursor_write:
  assumes p: "p < length v" and n: "p mod chunk_max + length bs \<le> min chunk_max (length v - p div chunk_max * chunk_max)"
  shows "sequence_write (sequence_of v) (p div chunk_max) (p mod chunk_max) bs = Some (sequence_of (splice v p bs))"
    and "p + length bs \<le> length v"
proof -
  have pq: "p div chunk_max * chunk_max + p mod chunk_max = p" by (simp only: div_mult_mod_eq)
  have q: "p div chunk_max * chunk_max < length v" using p pq by linarith
  show "sequence_write (sequence_of v) (p div chunk_max) (p mod chunk_max) bs = Some (sequence_of (splice v p bs))"
    using sequence_write_ok [OF q n] by (simp only: pq)
  show "p + length bs \<le> length v" using n pq p by linarith
qed

lemma window:
  fixes n :: nat
  assumes "r < room" and "0 < n"
  shows "0 < (if n < room - r then n else room - r)" and "r + (if n < room - r then n else room - r) \<le> room"
    and "(if n < room - r then n else room - r) \<le> n"
  using assms by auto

lemma append_chunk_ok:
  "0 < n \<Longrightarrow> b + n \<le> length source \<Longrightarrow> p + n \<le> length v \<Longrightarrow>
     append_chunk source b n (cursor v p) = Some (cursor (splice v p (take n (drop b source))) (p + n))"
proof (induction n arbitrary: b p v rule: less_induct)
  case (less n)
  let ?q = "p div chunk_max" and ?r = "p mod chunk_max"
  let ?room = "min chunk_max (length v - ?q * chunk_max)"
  have p: "p < length v" using less.prems by linarith
  note at = chunk_at [OF p]
  define m where "m = (if n < ?room - ?r then n else ?room - ?r)"
  define bs where "bs = take m (drop b source)"
  have m: "0 < m" "?r + m \<le> ?room" "m \<le> n"
    using window [OF at(3) less.prems(1)] unfolding m_def by blast+
  have bs: "length bs = m" using m less.prems by (simp add: bs_def)
  have rd: "mem_read source b m = Some bs" using m less.prems by (simp add: mem_read_def bs_def)
  have w: "sequence_write (sequence_of v) ?q ?r bs = Some (sequence_of (splice v p bs))" "p + m \<le> length v"
    using cursor_write [OF p, of bs] m bs by simp_all
  have l: "length (splice v p bs) = length v" using w bs by simp
  note c = cursor_step [OF p l m(2,1)]
  have step: "append_chunk source b n (cursor v p) =
      (if 0 < n - m then append_chunk source (b + m) (n - m) (cursor (splice v p bs) (p + m))
       else Some (cursor (splice v p bs) (p + m)))"
    using m(1)
    by (subst append_chunk.simps)
      (simp only: cursor_simps(1,2) [OF p] cursor_simps(3) at option.case Let_def chunk_of_simps
        m_def [symmetric] rd w(1) c neq0_conv [symmetric] if_False not_False_eq_True)
  show ?case
  proof (cases "0 < n - m")
    case True
    have "append_chunk source (b + m) (n - m) (cursor (splice v p bs) (p + m)) =
        Some (cursor (splice (splice v p bs) (p + m) (take (n - m) (drop (b + m) source))) (p + m + (n - m)))"
      using True m less.prems l by (intro less.IH) auto
    moreover have "bs @ take (n - m) (drop (b + m) source) = take n (drop b source)"
      unfolding bs_def using m(3) by (metis add.commute drop_drop le_add_diff_inverse take_add)
    then have "splice (splice v p bs) (p + m) (take (n - m) (drop (b + m) source)) = splice v p (take n (drop b source))"
      using splice_append [of p bs "take (n - m) (drop (b + m) source)" v] bs less.prems m by simp
    moreover have "p + m + (n - m) = p + n" using m by simp
    ultimately show ?thesis unfolding step using True by simp
  next
    case False
    then have "m = n" using m by simp
    then show ?thesis unfolding step using False by (simp add: bs_def)
  qed
qed

text \<open>The next chunk of a value, and what is behind it.\<close>

lemma drop_chunk:
  "take chunk_max (drop (i * chunk_max) v) @ drop (Suc i * chunk_max) v = drop (i * chunk_max) v"
  by (metis add.commute append_take_drop_id drop_drop mult_Suc)

text \<open>A loop over the chunks of a value that writes each of them at the cursor writes the value.\<close>

lemma chunk_by_chunk:
  assumes step: "\<And>i d p. i * chunk_max < length v
      \<Longrightarrow> p + length (take chunk_max (drop (i * chunk_max) v)) \<le> length d
      \<Longrightarrow> F i (cursor d p) = F (Suc i) (cursor (splice d p (take chunk_max (drop (i * chunk_max) v)))
            (p + length (take chunk_max (drop (i * chunk_max) v))))"
    and stop: "\<And>i dest. length v \<le> i * chunk_max \<Longrightarrow> F i dest = Some dest"
  shows "p + (length v - i * chunk_max) \<le> length d \<Longrightarrow>
      F i (cursor d p) = Some (cursor (splice d p (drop (i * chunk_max) v)) (p + (length v - i * chunk_max)))"
proof (induction "length v - i * chunk_max" arbitrary: i p d rule: less_induct)
  case less
  show ?case
  proof (cases "i * chunk_max < length v")
    case True
    let ?c = "take chunk_max (drop (i * chunk_max) v)"
    have c: "0 < length ?c" "length ?c \<le> length v - i * chunk_max" using True by simp_all
    have pc: "p + length ?c \<le> length d" using c less.prems by linarith
    have l: "length (splice d p ?c) = length d" using pc by (rule length_splice)
    have sub: "length v - Suc i * chunk_max = length v - i * chunk_max - length ?c" by simp
    have dec: "length v - Suc i * chunk_max < length v - i * chunk_max" using sub c by linarith
    have fit: "p + length ?c + (length v - Suc i * chunk_max) \<le> length (splice d p ?c)"
      using less.prems c l sub by linarith
    have sp: "splice (splice d p ?c) (p + length ?c) (drop (Suc i * chunk_max) v) = splice d p (drop (i * chunk_max) v)"
      using splice_append [of p ?c "drop (Suc i * chunk_max) v" d] fit l unfolding drop_chunk by simp
    have pos: "p + length ?c + (length v - Suc i * chunk_max) = p + (length v - i * chunk_max)"
      using c sub by linarith
    show ?thesis unfolding step [OF True pc] less.hyps [OF dec fit] sp pos ..
  next
    case False
    then show ?thesis using stop [of i] by simp
  qed
qed

lemma append_sequence_ok:
  assumes "p + (length v - i * chunk_max) \<le> length d"
  shows "append_sequence (sequence_of v) i (cursor d p)
    = Some (cursor (splice d p (drop (i * chunk_max) v)) (p + (length v - i * chunk_max)))"
proof (rule chunk_by_chunk [OF _ _ assms])
  fix i p and d :: bytes
  let ?c = "take chunk_max (drop (i * chunk_max) v)"
  assume i: "i * chunk_max < length v" and pc: "p + length ?c \<le> length d"
  have "0 < length ?c" using i by simp
  from append_chunk_ok [OF this, of 0 ?c p d] pc
  have "append_chunk ?c 0 (length ?c) (cursor d p) = Some (cursor (splice d p ?c) (p + length ?c))"
    unfolding drop_0 take_all [OF order_refl] by simp
  then show "append_sequence (sequence_of v) i (cursor d p) =
      append_sequence (sequence_of v) (Suc i) (cursor (splice d p ?c) (p + length ?c))"
    using i by (subst append_sequence.simps) (simp add: sequence_get ceil_div_less_iff)
qed (subst append_sequence.simps, simp add: ceil_div_less_iff)

lemma append_sequence_all:
  "p + length v \<le> length d \<Longrightarrow>
     append_sequence (sequence_of v) 0 (cursor d p) = Some (cursor (splice d p v) (p + length v))"
  using append_sequence_ok [of p v 0 d] by simp

lemma append_ok:
  assumes "fresh_ok mem" and "length a + length b \<le> 65535 * chunk_max"
  shows "module_redis_command_append mem (Some (sequence_of a)) (sequence_of b) = Some (sequence_of (a @ b))"
    and "module_redis_command_append mem None (sequence_of b) = Some (sequence_of b)"
proof -
  define f where "f = (\<lambda>n. fresh_value mem 0 (ceil_div n) n)"
  have lf: "length (f n) = n" for n unfolding f_def by (rule length_fresh_value [OF assms(1) refl])
  have ab: "argument_stream_begin mem (length a + length b) = cursor (f (length a + length b)) 0"
    unfolding f_def by (rule argument_stream_begin_cursor [OF assms])
  have bb: "argument_stream_begin mem (length b) = cursor (f (length b)) 0"
    unfolding f_def using assms(2) by (intro argument_stream_begin_cursor [OF assms(1)]) simp
  have "splice (splice (f (length a + length b)) 0 a) (length a) b = a @ b"
    using splice_append [of 0 a b "f (length a + length b)"] splice_all [of "a @ b" "f (length a + length b)"] lf by simp
  then show "module_redis_command_append mem (Some (sequence_of a)) (sequence_of b) = Some (sequence_of (a @ b))"
    by (simp add: module_redis_command_append_def ab append_sequence_all lf cursor_simps(3))
  show "module_redis_command_append mem None (sequence_of b) = Some (sequence_of b)"
    by (simp add: module_redis_command_append_def bb append_sequence_all lf cursor_simps(3) splice_all)
qed

lemma mem_read_all: "mem_read b 0 (length b) = Some b"
  by (simp add: mem_read_def)

lemma copy_chunks_ok:
  assumes "p + (length v - i * chunk_max) \<le> length d"
  shows "copy_chunks (sequence_of v) i (cursor d p)
    = Some (cursor (splice d p (drop (i * chunk_max) v)) (p + (length v - i * chunk_max)))"
proof (rule chunk_by_chunk [OF _ _ assms])
  fix i p and d :: bytes
  let ?c = "take chunk_max (drop (i * chunk_max) v)"
  assume i: "i * chunk_max < length v" and pc: "p + length ?c \<le> length d"
  have "0 < length ?c" using i by simp
  from stream_data_loop_ok [OF this, of p d] pc
  have "stream_data_loop ?c 0 (cursor d p) = Some (cursor (splice d p ?c) (p + length ?c))"
    by (simp only: drop_0 diff_zero)
  then show "copy_chunks (sequence_of v) i (cursor d p) =
      copy_chunks (sequence_of v) (Suc i) (cursor (splice d p ?c) (p + length ?c))"
    using i by (subst copy_chunks.simps)
      (simp add: sequence_get ceil_div_less_iff mem_read_all del: stream_data_loop.simps length_take)
qed (subst copy_chunks.simps, simp add: ceil_div_less_iff)

lemma copy_ok:
  assumes "fresh_ok mem" and "length v \<le> 65535 * chunk_max"
  shows "module_redis_command_copy mem (sequence_of v) = Some (sequence_of v)"
  using copy_chunks_ok [of 0 v 0 "fresh_value mem 0 (ceil_div (length v)) (length v)"]
    length_fresh_value [OF assms(1) refl, of 0 "length v"]
  by (simp add: module_redis_command_copy_def argument_stream_begin_cursor [OF assms] cursor_simps(3) splice_all)

section \<open>SETRANGE\<close>

text \<open>What SETRANGE is meant to make of a value: zeros fill the gap between its end and the offset.\<close>

definition setrange_value :: "bytes \<Rightarrow> nat \<Rightarrow> bytes \<Rightarrow> bytes" where
  "setrange_value v offset w =
     take offset v @ replicate (offset - length v) 0 @ w @ drop (offset + length w) v"

lemma length_setrange_value: "length (setrange_value v offset w) = max (length v) (offset + length w)"
  by (simp add: setrange_value_def)

lemma take_drop_append: "p + n \<le> length xs \<Longrightarrow> take n (drop p (xs @ ys)) = take n (drop p xs)"
  by simp

lemma drop_behind: "length xs \<le> p \<Longrightarrow> drop p (xs @ ys) = drop (p - length xs) ys"
  by simp

lemma setrange_value_old:
  assumes "p + n \<le> offset \<and> p + n \<le> length v \<or> offset + length w \<le> p \<and> p + n \<le> length v"
  shows "take n (drop p (setrange_value v offset w)) = take n (drop p v)"
  using assms
proof
  assume a: "p + n \<le> offset \<and> p + n \<le> length v"
  then have "take n (drop p (setrange_value v offset w)) = take n (drop p (take offset v))"
    unfolding setrange_value_def by (intro take_drop_append) simp
  moreover have "min n (offset - p) = n" using a by linarith
  ultimately show ?thesis by (simp add: drop_take)
next
  assume a: "offset + length w \<le> p \<and> p + n \<le> length v"
  have "setrange_value v offset w
      = (take offset v @ replicate (offset - length v) 0 @ w) @ drop (offset + length w) v"
    by (simp add: setrange_value_def)
  moreover have l: "length (take offset v @ replicate (offset - length v) 0 @ w) = offset + length w"
    using a by simp
  ultimately have "drop p (setrange_value v offset w) = drop (p - (offset + length w)) (drop (offset + length w) v)"
    using drop_behind [of "take offset v @ replicate (offset - length v) 0 @ w" p] a by presburger
  also have "\<dots> = drop p v" unfolding drop_drop using a by simp
  finally show ?thesis by simp
qed

lemma setrange_value_new:
  assumes "offset \<le> p" and "p + n \<le> offset + length w"
  shows "take n (drop p (setrange_value v offset w)) = take n (drop (p - offset) w)"
proof -
  have "setrange_value v offset w
      = (take offset v @ replicate (offset - length v) 0) @ w @ drop (offset + length w) v"
    by (simp add: setrange_value_def)
  moreover have "length (take offset v @ replicate (offset - length v) 0) = offset" by simp
  ultimately have "drop p (setrange_value v offset w) = drop (p - offset) (w @ drop (offset + length w) v)"
    using drop_behind [of "take offset v @ replicate (offset - length v) 0" p] assms(1) by presburger
  then show ?thesis using assms by (simp only:) (intro take_drop_append, linarith)
qed

lemma setrange_value_zeros:
  assumes "length v \<le> p" and "p + n \<le> offset"
  shows "take n (drop p (setrange_value v offset w)) = replicate n 0"
  using assms by (simp add: setrange_value_def)

text \<open>The old value as the loop sees it: there is no sequence if there is no key.\<close>

definition old_value :: "storage_db_chunk_sequence option \<Rightarrow> bytes \<Rightarrow> bool" where
  "old_value current v \<longleftrightarrow> current = Some (sequence_of v) \<or> current = None \<and> v = []"

lemma old_value_get:
  "old_value current v \<Longrightarrow> storage_db_chunk_sequence_get current i =
     (if i * chunk_max < length v then Some (chunk_of (take chunk_max (drop (i * chunk_max) v))) else None)"
  unfolding old_value_def
  by (elim disjE) (simp_all add: sequence_get storage_db_chunk_sequence_get_def [of None])

definition setrange_inv ::
    "storage_db_chunk_sequence option \<Rightarrow> bytes \<Rightarrow> nat \<Rightarrow> bytes \<Rightarrow> bytes \<Rightarrow> nat \<Rightarrow> setrange_state \<Rightarrow> bool" where
  "setrange_inv current v offset w d p st \<longleftrightarrow>
     destination st = cursor d p \<and> destination_offset st = p
     \<and> length d = length (setrange_value v offset w) \<and> take p d = take p (setrange_value v offset w)
     \<and> (p < length v \<longrightarrow> current_index st = p div chunk_max)
     \<and> (length v \<le> p \<and> p < offset \<longrightarrow> length v \<le> current_index st * chunk_max)
     \<and> (length v < p \<and> p < offset \<longrightarrow> p mod chunk_max = 0)
     \<and> range_value_chunk_index st = current_chunk_index (cursor w (min (p - offset) (length w)))
     \<and> range_value_chunk_offset st = current_chunk_offset (cursor w (min (p - offset) (length w)))"

abbreviation room_at :: "nat \<Rightarrow> nat \<Rightarrow> nat" where
  "room_at n p \<equiv> min chunk_max (n - p div chunk_max * chunk_max)"

text \<open>A round that writes the bytes of the new value keeps the invariant.\<close>

lemma setrange_round_step:
  assumes inv: "setrange_inv current v offset w d p st" and old: "old_value current v"
    and src: "setrange_source current range_value offset requested st = Some (bs, ri, ro)"
    and bs: "bs = take (length bs) (drop p (setrange_value v offset w))" "0 < length bs"
    and p: "p < length d" and fits: "p mod chunk_max + length bs \<le> room_at (length d) p"
    and ri: "ri = current_chunk_index (cursor w (min (p + length bs - offset) (length w)))"
    and ro: "ro = current_chunk_offset (cursor w (min (p + length bs - offset) (length w)))"
    and stop: "p < length v \<Longrightarrow> p + length bs < offset \<Longrightarrow> p + length bs \<le> length v"
    and pad: "length v \<le> p \<Longrightarrow> p + length bs < offset \<Longrightarrow> (p + length bs) mod chunk_max = 0"
  shows "\<exists>st1. setrange_round current range_value offset requested st = Some st1
    \<and> setrange_inv current v offset w (splice d p bs) (p + length bs) st1"
proof -
  let ?t = "setrange_value v offset w" and ?q = "p div chunk_max" and ?n = "length bs"
  let ?o = "p mod chunk_max + length bs"
  have dst: "destination st = cursor d p" and off: "destination_offset st = p"
    and ld: "length d = length ?t" and tk: "take p d = take p ?t"
    and ci: "p < length v \<Longrightarrow> current_index st = ?q"
    and cn: "length v \<le> p \<Longrightarrow> p < offset \<Longrightarrow> length v \<le> current_index st * chunk_max"
    using inv by (auto simp: setrange_inv_def)
  note at = chunk_at [OF p] and w = cursor_write [OF p fits]
  have l: "length (splice d p bs) = length d" using w(2) by simp
  note c = cursor_step [OF p l fits bs(2)]
  let ?full = "?o = room_at (length d) p"
  let ?ends = "case storage_db_chunk_sequence_get current (current_index st) of None \<Rightarrow> False | Some c \<Rightarrow> ?o = chunk_length c"
  define st1 where "st1 = st\<lparr> destination := cursor (splice d p bs) (p + ?n), destination_offset := p + ?n,
      current_index := (if ?full \<or> ?ends then current_index st + 1 else current_index st),
      range_value_chunk_index := ri, range_value_chunk_offset := ro \<rparr>"
  have r: "setrange_round current range_value offset requested st = Some st1"
    by (simp only: setrange_round_def src option.case prod.case Let_def dst off
      cursor_simps(1,2) [OF p] cursor_simps(3) at(1) w(1) chunk_of_simps at(2) st1_def c)
  have pq: "?q * chunk_max + p mod chunk_max = p" by (simp only: div_mult_mod_eq)
  have Nv: "length v \<le> length d" using ld by (simp add: length_setrange_value)
  have tk1: "take (p + ?n) (splice d p bs) = take (p + ?n) ?t"
  proof -
    have "take (p + ?n) (splice d p bs) = take p ?t @ bs" using p tk ld by (simp add: splice_def)
    also have "\<dots> = take (p + ?n) ?t" using bs(1) by (metis take_add)
    finally show ?thesis .
  qed
  have len: "chunk_length (chunk_of (take chunk_max (drop (?q * chunk_max) v))) = room_at (length v) p"
    by (simp add: min.commute)
  have ci1: "current_index st1 = (p + ?n) div chunk_max" if "p + ?n < length v"
  proof -
    have pv: "p < length v" using that by simp
    have "?q * chunk_max < length v" using pv pq by linarith
    then have e: "?ends \<longleftrightarrow> ?o = room_at (length v) p"
      by (simp add: old_value_get [OF old] ci [OF pv] min.commute)
    have fo: "?full \<longleftrightarrow> ?o = chunk_max" and eo: "?o = room_at (length v) p \<longleftrightarrow> ?o = chunk_max"
      using that Nv pq by linarith+
    show ?thesis
    proof (cases "?o = chunk_max")
      case True
      then have "p + ?n = (?q + 1) * chunk_max + 0" using pq by (simp only: distrib_right)
      from piece_div_mod [OF chunk_max_pos(1) this] True fo show ?thesis by (simp add: st1_def ci [OF pv])
    next
      case False
      then have lt: "?o < chunk_max" using fits by linarith
      have "p + ?n = ?q * chunk_max + ?o" using pq by linarith
      from piece_div_mod [OF lt this] False fo eo e show ?thesis by (simp add: st1_def ci [OF pv])
    qed
  qed
  have cn1: "length v \<le> current_index st1 * chunk_max" if "length v \<le> p + ?n" "p + ?n < offset"
  proof (cases "p < length v")
    case True
    have "p + ?n = length v" using stop [OF True that(2)] that(1) by simp
    then have "?o = room_at (length v) p" "length v \<le> ?q * chunk_max + chunk_max" using fits pq Nv by linarith+
    moreover have "?q * chunk_max < length v" using True pq by linarith
    ultimately have ?ends by (simp add: old_value_get [OF old] ci [OF True] min.commute)
    then have "current_index st1 = ?q + 1" by (simp add: st1_def ci [OF True])
    then show ?thesis using \<open>length v \<le> ?q * chunk_max + chunk_max\<close> by (simp add: add.commute)
  next
    case False
    then have "length v \<le> current_index st * chunk_max" using cn that by simp
    moreover have "current_index st * chunk_max \<le> current_index st1 * chunk_max" by (simp add: st1_def)
    ultimately show ?thesis by linarith
  qed
  have "(p + ?n) mod chunk_max = 0" if "length v < p + ?n" "p + ?n < offset"
    using pad stop that by (cases "p < length v") auto
  then have "setrange_inv current v offset w (splice d p bs) (p + ?n) st1"
    unfolding setrange_inv_def using ci1 cn1 tk1 l ld ri ro by (auto simp: st1_def)
  then show ?thesis using r by blast
qed

lemma setrange_round_stepI:
  assumes inv: "setrange_inv current v offset w d p st" and old: "old_value current v"
    and src: "setrange_source current range_value offset requested st = Some (bs, ri, ro)"
    and ln: "length bs = n"
    and bs: "take n (drop p (setrange_value v offset w)) = bs" "0 < n"
    and p: "p < length d" and fits: "p mod chunk_max + n \<le> room_at (length d) p"
    and ri: "ri = current_chunk_index (cursor w (min (p + n - offset) (length w)))"
    and ro: "ro = current_chunk_offset (cursor w (min (p + n - offset) (length w)))"
    and stop: "p < length v \<Longrightarrow> p + n < offset \<Longrightarrow> p + n \<le> length v"
    and pad: "length v \<le> p \<Longrightarrow> p + n < offset \<Longrightarrow> (p + n) mod chunk_max = 0"
  shows "\<exists>st1. setrange_round current range_value offset requested st = Some st1
    \<and> setrange_inv current v offset w (splice d p bs) (p + n) st1"
  by (rule setrange_round_step [OF inv old src, unfolded ln, OF bs(1) [symmetric] bs(2) p fits ri ro stop pad])

lemma setrange_inv_range:
  assumes "setrange_inv current v offset w d p st"
  shows "range_value_chunk_index st = current_chunk_index (cursor w (min (p - offset) (length w)))"
    and "range_value_chunk_offset st = current_chunk_offset (cursor w (min (p - offset) (length w)))"
  using assms by (simp_all add: setrange_inv_def)

text \<open>The bytes of a chunk from an offset on are those of the value from the position on.\<close>

lemma chunk_bytes:
  assumes "p mod chunk_max + n \<le> room_at (length v) p"
  shows "mem_read (take chunk_max (drop (p div chunk_max * chunk_max) v)) (p mod chunk_max) n = Some (take n (drop p v))"
proof -
  let ?r = "p mod chunk_max"
  have pq: "?r + p div chunk_max * chunk_max = p" by (simp only: mod_div_mult_eq)
  have "take n (drop ?r (take chunk_max (drop (p div chunk_max * chunk_max) v))) = take n (drop p v)"
    using assms by (simp only: drop_take drop_drop pq take_take) (simp add: min_def split: if_splits)
  then show ?thesis using assms by (simp add: mem_read_def min.commute)
qed

lemma window2:
  fixes r room :: nat
  assumes "r < room" and "r' < room'"
  defines "n \<equiv> (if room - r < room' - r' then room - r else room' - r')"
  shows "0 < n" and "r + n \<le> room" and "r' + n \<le> room'"
  using assms by auto

lemma window3:
  fixes r room :: nat
  assumes "r < room" and "p < a \<or> b \<le> p" and "a \<le> b"
  defines "n \<equiv> (if p < b \<and> a < p + (room - r) then a - p else room - r)"
  shows "0 < n" and "r + n \<le> room" and "p < a \<longrightarrow> p + n \<le> a"
  using assms by auto

lemma source_range:
  assumes inv: "setrange_inv current v offset w d p st" and p: "offset \<le> p" "p < offset + length w"
  shows "\<exists>n ri ro. setrange_source current (sequence_of w) offset (offset + length w) st
      = Some (take n (drop (p - offset) w), ri, ro)
    \<and> 0 < n \<and> p + n \<le> offset + length w \<and> p mod chunk_max + n \<le> room_at (length d) p
    \<and> ri = current_chunk_index (cursor w (p - offset + n)) \<and> ro = current_chunk_offset (cursor w (p - offset + n))"
proof -
  let ?k = "p - offset"
  have k: "?k < length w" using p by linarith
  have pd: "p < length d" using inv p by (auto simp: setrange_inv_def length_setrange_value)
  note dk = chunk_at [OF pd] and wk = chunk_at [OF k]
  let ?can = "room_at (length w) ?k - ?k mod chunk_max" and ?av = "room_at (length d) p - p mod chunk_max"
  define n where "n = (if ?av < ?can then ?av else ?can)"
  have n: "0 < n" "p mod chunk_max + n \<le> room_at (length d) p" "?k mod chunk_max + n \<le> room_at (length w) ?k"
    using window2 [OF dk(3) wk(3)] unfolding n_def by blast+
  have kn: "?k + n \<le> length w" using cursor_write(2) [OF k, of "replicate n 0"] n(3) by simp
  have r: "destination st = cursor d p" "destination_offset st = p"
    "range_value_chunk_index st = ?k div chunk_max" "range_value_chunk_offset st = ?k mod chunk_max"
    using inv k by (auto simp: setrange_inv_def cursor_simps)
  note c = cursor_step [OF k refl n(3,1)]
  have nl: "\<not> room_at (length w) ?k < ?k mod chunk_max + n" using n(3) by linarith
  have "setrange_source current (sequence_of w) offset (offset + length w) st =
      Some (take n (drop ?k w), current_chunk_index (cursor w (?k + n)), current_chunk_offset (cursor w (?k + n)))"
    unfolding setrange_source_def r cursor_simps(1,2) [OF pd] cursor_simps(3) dk(1) option.case
      if_P [OF conjI [OF p]] wk(1) Let_def chunk_of_simps dk(2) wk(2) n_def [symmetric]
      if_not_P [OF nl] chunk_bytes [OF n(3)] option.map c
    by simp
  moreover have "p + n \<le> offset + length w" using kn p by linarith
  ultimately show ?thesis using n(1,2) by blast
qed

lemma source_old:
  assumes inv: "setrange_inv current v offset w d p st" and old: "old_value current v"
    and p: "p < length v" "p < offset \<or> offset + length w \<le> p"
  shows "\<exists>n. setrange_source current (sequence_of w) offset (offset + length w) st
      = Some (take n (drop p v), range_value_chunk_index st, range_value_chunk_offset st)
    \<and> 0 < n \<and> (p < offset \<longrightarrow> p + n \<le> offset) \<and> p + n \<le> length v \<and> p mod chunk_max + n \<le> room_at (length d) p"
proof -
  have pd: "p < length d" and Nv: "length v \<le> length d"
    using inv p by (auto simp: setrange_inv_def length_setrange_value)
  note dk = chunk_at [OF pd] and vk = chunk_at [OF p(1)]
  have r: "destination st = cursor d p" "destination_offset st = p" "current_index st = p div chunk_max"
    using inv p by (auto simp: setrange_inv_def)
  have g: "storage_db_chunk_sequence_get current (p div chunk_max)
      = Some (chunk_of (take chunk_max (drop (p div chunk_max * chunk_max) v)))"
    using vk(1) by (simp add: old_value_get [OF old] sequence_get)
  let ?can = "room_at (length v) p - p mod chunk_max"
  define n where "n = (if p < offset + length w \<and> offset < p + ?can then offset - p else ?can)"
  have n: "0 < n" "p mod chunk_max + n \<le> room_at (length v) p" "p < offset \<longrightarrow> p + n \<le> offset"
    using window3 [OF vk(3) p(2) le_add1] unfolding n_def by blast+
  have "p + n \<le> length v" using cursor_write(2) [OF p(1), of "replicate n 0"] n(2) by simp
  moreover have "p mod chunk_max + n \<le> room_at (length d) p" using n(2) Nv by linarith
  moreover have "setrange_source current (sequence_of w) offset (offset + length w) st
      = Some (take n (drop p v), range_value_chunk_index st, range_value_chunk_offset st)"
  proof -
    have c: "\<not> (offset \<le> p \<and> p < offset + length w)" "\<not> room_at (length v) p < p mod chunk_max"
      using p(2) vk(3) by linarith+
    show ?thesis
      unfolding setrange_source_def r cursor_simps(1,2) [OF pd] cursor_simps(3) dk(1) option.case
        if_not_P [OF c(1)] g chunk_of_simps vk(2) if_not_P [OF c(2)] Let_def n_def [symmetric]
        chunk_bytes [OF n(2)] option.map ..
  qed
  ultimately show ?thesis using n(1,3) by blast
qed

lemma source_padding:
  assumes inv: "setrange_inv current v offset w d p st" and old: "old_value current v"
    and p: "length v \<le> p" "p < offset"
  shows "setrange_source current (sequence_of w) offset (offset + length w) st
      = Some (replicate (min (offset - p) chunk_max) 0, range_value_chunk_index st, range_value_chunk_offset st)"
proof -
  have pd: "p < length d" using inv p by (auto simp: setrange_inv_def length_setrange_value)
  note dk = chunk_at [OF pd]
  have r: "destination st = cursor d p" "destination_offset st = p" "length v \<le> current_index st * chunk_max"
    using inv p by (auto simp: setrange_inv_def)
  have g: "storage_db_chunk_sequence_get current (current_index st) = None"
    using r(3) by (simp add: old_value_get [OF old])
  have c: "\<not> (offset \<le> p \<and> p < offset + length w)" "\<not> offset < p" using p by linarith+
  have "(if chunk_max < offset - p then chunk_max else offset - p) = min (offset - p) chunk_max" by simp
  then show ?thesis
    unfolding setrange_source_def r(1,2) cursor_simps(1,2) [OF pd] cursor_simps(3) dk(1) option.case
      if_not_P [OF c(1)] g if_not_P [OF c(2)] Let_def by simp
qed

text \<open>
  The zeros between the end of the value and the offset fit into the chunk they start in, or they
  start with a chunk.
\<close>

definition padding_fits :: "nat \<Rightarrow> nat \<Rightarrow> bool" where
  "padding_fits n offset \<longleftrightarrow> offset \<le> n \<or> n mod STORAGE_DB_CHUNK_MAX_SIZE = 0
     \<or> n mod STORAGE_DB_CHUNK_MAX_SIZE + (offset - n) \<le> STORAGE_DB_CHUNK_MAX_SIZE"

lemma take_length_take: "take (length (take n xs)) xs = take n xs"
  by (simp add: min_def)

lemma setrange_round_old:
  assumes inv: "setrange_inv current v offset w d p st" and old: "old_value current v"
    and p: "p < length v" "p < offset \<or> offset + length w \<le> p"
  shows "\<exists>n st1. 0 < n \<and> p + n \<le> length v \<and> setrange_round current (sequence_of w) offset (offset + length w) st = Some st1
    \<and> setrange_inv current v offset w (splice d p (take n (drop p v))) (p + n) st1"
proof -
  obtain n where src: "setrange_source current (sequence_of w) offset (offset + length w) st
      = Some (take n (drop p v), range_value_chunk_index st, range_value_chunk_offset st)"
    and n: "0 < n" "p < offset \<longrightarrow> p + n \<le> offset" "p + n \<le> length v" "p mod chunk_max + n \<le> room_at (length d) p"
    using source_old [OF inv old p] by blast
  let ?bs = "take n (drop p v)"
  have l: "length ?bs = n" using n by simp
  have pd: "p < length d" using inv p by (auto simp: setrange_inv_def length_setrange_value)
  have t: "take n (drop p (setrange_value v offset w)) = ?bs"
    using n p by (intro setrange_value_old) auto
  have k: "min (p + n - offset) (length w) = min (p - offset) (length w)" using n(2) p(2) by auto
  note rv = setrange_inv_range [OF inv, folded k]
  have "\<exists>st1. setrange_round current (sequence_of w) offset (offset + length w) st = Some st1
      \<and> setrange_inv current v offset w (splice d p ?bs) (p + n) st1"
    by (rule setrange_round_stepI [OF inv old src l t n(1) pd n(4) rv]) (use n p in auto)
  then show ?thesis using n(1,3) by blast
qed

lemma setrange_round_range:
  assumes inv: "setrange_inv current v offset w d p st" and old: "old_value current v"
    and p: "offset \<le> p" "p < offset + length w" "p < length d"
  shows "\<exists>n st1. 0 < n \<and> p + n \<le> offset + length w
    \<and> setrange_round current (sequence_of w) offset (offset + length w) st = Some st1
    \<and> setrange_inv current v offset w (splice d p (take n (drop (p - offset) w))) (p + n) st1"
proof -
  obtain n ri ro where src: "setrange_source current (sequence_of w) offset (offset + length w) st
      = Some (take n (drop (p - offset) w), ri, ro)"
    and n: "0 < n" "p + n \<le> offset + length w" "p mod chunk_max + n \<le> room_at (length d) p"
      "ri = current_chunk_index (cursor w (p - offset + n))" "ro = current_chunk_offset (cursor w (p - offset + n))"
    using source_range [OF inv p(1,2)] by blast
  let ?bs = "take n (drop (p - offset) w)"
  have l: "length ?bs = n" using n(2) p by simp
  have t: "take n (drop p (setrange_value v offset w)) = ?bs" by (rule setrange_value_new [OF p(1) n(2)])
  have k: "min (p + n - offset) (length w) = p - offset + n" using n(2) p by linarith
  have "\<exists>st1. setrange_round current (sequence_of w) offset (offset + length w) st = Some st1
      \<and> setrange_inv current v offset w (splice d p ?bs) (p + n) st1"
    by (rule setrange_round_stepI [OF inv old src l t n(1) p(3) n(3) n(4,5) [folded k]]) (use p in auto)
  then show ?thesis using n(1,2) by blast
qed

lemma setrange_round_padding:
  assumes inv: "setrange_inv current v offset w d p st" and old: "old_value current v"
    and pad: "length v \<le> p" "p < offset" and p: "p < length d" and fits: "padding_fits (length v) offset"
  shows "\<exists>n st1. 0 < n \<and> p + n \<le> offset
    \<and> setrange_round current (sequence_of w) offset (offset + length w) st = Some st1
    \<and> setrange_inv current v offset w (splice d p (replicate n 0)) (p + n) st1"
proof -
  note src = source_padding [OF inv old pad]
  let ?n = "min (offset - p) chunk_max"
  have N: "length d = max (length v) (offset + length w)"
    using inv by (simp add: setrange_inv_def length_setrange_value)
  have al: "p = length v \<or> p mod chunk_max = 0" using inv pad by (auto simp: setrange_inv_def)
  have pq: "p div chunk_max * chunk_max + p mod chunk_max = p" by (simp only: div_mult_mod_eq)
  have small: "p mod chunk_max = 0 \<or> p mod chunk_max + (offset - p) \<le> chunk_max"
    using al fits pad by (auto simp: padding_fits_def)
  have f: "p mod chunk_max + ?n \<le> room_at (length d) p"
    using small pq pad N by linarith
  have al1: "(p + ?n) mod chunk_max = 0" if "p + ?n < offset"
  proof -
    have "p mod chunk_max = 0" "?n = chunk_max" using small that by linarith+
    then show ?thesis by simp
  qed
  have t: "take ?n (drop p (setrange_value v offset w)) = replicate ?n 0"
    using pad by (intro setrange_value_zeros) auto
  have k: "min (p + ?n - offset) (length w) = min (p - offset) (length w)" using pad by auto
  have n: "0 < ?n" "p + ?n \<le> offset" using pad by auto
  have "\<exists>st1. setrange_round current (sequence_of w) offset (offset + length w) st = Some st1
      \<and> setrange_inv current v offset w (splice d p (replicate ?n 0)) (p + ?n) st1"
    by (rule setrange_round_stepI [OF inv old src length_replicate t n(1) p f setrange_inv_range [OF inv, folded k]])
      (use pad al1 in auto)
  then show ?thesis using n by blast
qed

lemma setrange_round_ok:
  assumes inv: "setrange_inv current v offset w d p st" and old: "old_value current v"
    and p: "p < length d" and fits: "padding_fits (length v) offset"
  shows "\<exists>bs st1. 0 < length bs \<and> p + length bs \<le> length d
    \<and> setrange_round current (sequence_of w) offset (offset + length w) st = Some st1
    \<and> setrange_inv current v offset w (splice d p bs) (p + length bs) st1"
proof -
  have N: "length d = max (length v) (offset + length w)"
    using inv by (simp add: setrange_inv_def length_setrange_value)
  consider (range) "offset \<le> p" "p < offset + length w" | (old) "p < length v" "p < offset \<or> offset + length w \<le> p"
    | (pad) "length v \<le> p" "p < offset"
    using p N by linarith
  then show ?thesis
  proof cases
    case range
    from setrange_round_range [OF inv old range p]
    obtain n st1 where n: "0 < n" "p + n \<le> offset + length w"
      "setrange_round current (sequence_of w) offset (offset + length w) st = Some st1"
      "setrange_inv current v offset w (splice d p (take n (drop (p - offset) w))) (p + n) st1" by blast
    moreover have "length (take n (drop (p - offset) w)) = n" using n range by simp
    ultimately show ?thesis using N by (intro exI [of _ "take n (drop (p - offset) w)"] exI [of _ st1]) auto
  next
    case old': old
    from setrange_round_old [OF inv old old']
    obtain n st1 where n: "0 < n" "p + n \<le> length v"
      "setrange_round current (sequence_of w) offset (offset + length w) st = Some st1"
      "setrange_inv current v offset w (splice d p (take n (drop p v))) (p + n) st1" by blast
    moreover have "length (take n (drop p v)) = n" using n by simp
    ultimately show ?thesis using N by (intro exI [of _ "take n (drop p v)"] exI [of _ st1]) auto
  next
    case pad
    from setrange_round_padding [OF inv old pad p fits]
    obtain n st1 where n: "0 < n" "p + n \<le> offset"
      "setrange_round current (sequence_of w) offset (offset + length w) st = Some st1"
      "setrange_inv current v offset w (splice d p (replicate n 0)) (p + n) st1" by blast
    then show ?thesis using N by (intro exI [of _ "replicate n 0"] exI [of _ st1]) auto
  qed
qed

lemma cursor_index_less:
  "p < length d \<Longrightarrow> current_chunk_index (cursor d p) < seq_count (ls_sequence (cursor d p))"
  using chunk_at(1) [of p d] by (auto simp: cursor_simps storage_db_chunk_sequence_get_def split: if_splits)

lemma setrange_loop_ok:
  assumes old: "old_value current v" and fits: "padding_fits (length v) offset"
  shows "setrange_inv current v offset w d p st \<Longrightarrow> p < length d \<Longrightarrow>
    \<exists>st1. setrange_loop current (sequence_of w) offset (offset + length w) st = Some st1
      \<and> ls_sequence (destination st1) = sequence_of (setrange_value v offset w)"
proof (induction "length d - p" arbitrary: d p st rule: less_induct)
  case less
  obtain bs st1 where bs: "0 < length bs" "p + length bs \<le> length d"
    "setrange_round current (sequence_of w) offset (offset + length w) st = Some st1"
    "setrange_inv current v offset w (splice d p bs) (p + length bs) st1"
    using setrange_round_ok [OF less.prems(1) old less.prems(2) fits] by blast
  define d1 p1 where "d1 = splice d p bs" and "p1 = p + length bs"
  have s: "p < p1" "p1 \<le> length d" "length d1 = length d"
    "setrange_round current (sequence_of w) offset (offset + length w) st = Some st1"
    "setrange_inv current v offset w d1 p1 st1"
    using bs by (simp_all add: d1_def p1_def)
  have dst: "destination st1 = cursor d1 p1" using s(5) by (simp add: setrange_inv_def)
  show ?case
  proof (cases "p1 < length d1")
    case True
    have "length d1 - p1 < length d - p" using s True by linarith
    from less.hyps [OF this s(5) True] show ?thesis
      using cursor_index_less [OF True] by (subst setrange_loop.simps) (simp add: s(4) dst)
  next
    case False
    then have e: "p1 = length d1" using s by simp
    have "take p1 d1 = take p1 (setrange_value v offset w)" "length d1 = length (setrange_value v offset w)"
      using s(5) by (simp_all add: setrange_inv_def)
    then have "d1 = setrange_value v offset w" using e by (metis take_all_iff order_refl)
    moreover have "\<not> current_chunk_index (cursor d1 p1) < seq_count (ls_sequence (cursor d1 p1))"
      using e by (simp add: cursor_def)
    ultimately show ?thesis
      by (subst setrange_loop.simps) (simp add: s(4) dst cursor_simps(3))
  qed
qed

text \<open>Zeros that do not fit are written behind the end of the chunk.\<close>

lemma setrange_loop_outside:
  assumes old: "old_value current v" and nofit: "\<not> padding_fits (length v) offset"
  shows "setrange_inv current v offset w d p st \<Longrightarrow> p \<le> length v \<Longrightarrow>
    setrange_loop current (sequence_of w) offset (offset + length w) st = None"
proof (induction "length v - p" arbitrary: d p st rule: less_induct)
  case less
  have o: "length v < offset" "chunk_max < length v mod chunk_max + (offset - length v)" "length v mod chunk_max \<noteq> 0"
    using nofit by (auto simp: padding_fits_def)
  have N: "length d = max (length v) (offset + length w)"
    using less.prems by (simp add: setrange_inv_def length_setrange_value)
  have dst: "destination st = cursor d p" using less.prems by (simp add: setrange_inv_def)
  show ?case
  proof (cases "p < length v")
    case True
    obtain n st1 where s: "0 < n" "p + n \<le> length v"
      "setrange_round current (sequence_of w) offset (offset + length w) st = Some st1"
      "setrange_inv current v offset w (splice d p (take n (drop p v))) (p + n) st1"
      using setrange_round_old [OF less.prems(1) old True] True o by auto
    have dst1: "destination st1 = cursor (splice d p (take n (drop p v))) (p + n)"
      using s(4) by (simp add: setrange_inv_def)
    have "p + n < length (splice d p (take n (drop p v)))" using s(2) N o by simp
    moreover have "setrange_loop current (sequence_of w) offset (offset + length w) st1 = None"
      using s True by (intro less.hyps [OF _ s(4)]) auto
    ultimately show ?thesis
      using cursor_index_less [of "p + n"] by (subst setrange_loop.simps) (simp add: s(3) dst1)
  next
    case False
    then have p: "p = length v" using less.prems(2) by simp
    have pd: "p < length d" using p N o by simp
    note at = chunk_at [OF pd]
    let ?n = "min (offset - p) chunk_max"
    have w: "sequence_write (sequence_of d) (p div chunk_max) (p mod chunk_max) (replicate ?n 0) = None"
      using o p by (intro sequence_write_outside) auto
    have src: "setrange_source current (sequence_of w) offset (offset + length w) st
        = Some (replicate ?n 0, range_value_chunk_index st, range_value_chunk_offset st)"
      using p o by (intro source_padding [OF less.prems(1) old]) auto
    have "setrange_round current (sequence_of w) offset (offset + length w) st = None"
      unfolding setrange_round_def src option.case prod.case Let_def dst
        cursor_simps(1,2) [OF pd] cursor_simps(3) at(1) w ..
    then show ?thesis by (subst setrange_loop.simps) simp
  qed
qed

lemma setrange_start:
  assumes "fresh_ok mem" and "max (length v) (offset + length w) \<le> 65535 * chunk_max" and "old_value current v"
  defines "d \<equiv> fresh_value mem 0 (ceil_div (max (length v) (offset + length w))) (max (length v) (offset + length w))"
  defines "st \<equiv> \<lparr> destination = cursor d 0, destination_offset = 0, current_index = 0,
      range_value_chunk_index = 0, range_value_chunk_offset = 0 \<rparr>"
  shows "module_redis_command_setrange mem current offset (sequence_of w) =
      map_option (\<lambda>st1. ls_sequence (destination st1))
        (setrange_loop current (sequence_of w) offset (offset + length w) st)"
    and "setrange_inv current v offset w d 0 st" and "length d = max (length v) (offset + length w)"
proof -
  let ?N = "max (length v) (offset + length w)"
  show ld: "length d = ?N" unfolding d_def by (rule length_fresh_value [OF assms(1) refl])
  have len: "(case current of None \<Rightarrow> 0 | Some c \<Rightarrow> seq_size c) = length v"
    using assms(3) by (auto simp: old_value_def)
  have N: "(if length v < offset + length w then offset + length w else length v) = ?N" by simp
  have b: "argument_stream_begin mem ?N = cursor d 0"
    unfolding d_def by (rule argument_stream_begin_cursor [OF assms(1,2)])
  show "module_redis_command_setrange mem current offset (sequence_of w) =
      map_option (\<lambda>st1. ls_sequence (destination st1))
        (setrange_loop current (sequence_of w) offset (offset + length w) st)"
    unfolding module_redis_command_setrange_def Let_def len sequence_of_simps N b st_def ..
  show "setrange_inv current v offset w d 0 st"
    using ld by (auto simp: setrange_inv_def st_def length_setrange_value cursor_def)
qed

section \<open>Properties\<close>

text \<open>
  C36: APPEND and COPY on values that are cut into chunks are appending and copying byte strings: the
  new sequence holds the old value followed by the argument, whatever the chunks of the two look
  like and whatever was in the memory of the new chunks.
\<close>

theorem append_and_copy:
  assumes "fresh_ok mem" and "length a + length b \<le> 65535 * STORAGE_DB_CHUNK_MAX_SIZE"
  shows "module_redis_command_append mem (Some (sequence_of a)) (sequence_of b) = Some (sequence_of (a @ b))
    \<and> module_redis_command_append mem None (sequence_of b) = Some (sequence_of b)
    \<and> module_redis_command_copy mem (sequence_of a) = Some (sequence_of a)"
  using append_ok [OF assms] copy_ok [OF assms(1), of a] assms(2) by simp

theorem append_and_copy_witness:
  "module_redis_command_append (\<lambda>i n. replicate n 9) (Some (sequence_of [1])) (sequence_of [2, 3])
    = Some (sequence_of [1, 2, 3])"
  using append_and_copy [of "\<lambda>i n. replicate n 9" "[1]" "[2, 3]"]
  by (simp add: fresh_ok_def STORAGE_DB_CHUNK_MAX_SIZE_def)

text \<open>
  C37: SETRANGE writes the argument over the value at the offset and fills a gap with zeros, if the
  zeros fit into the chunk they start in or start with a chunk. If they do not, the command writes
  behind the end of the memory of a chunk. The argument must not be empty when the key is new.
\<close>

theorem setrange_cases:
  assumes "fresh_ok mem" and "max (length v) (offset + length w) \<le> 65535 * STORAGE_DB_CHUNK_MAX_SIZE"
    and "0 < max (length v) (offset + length w)" and "current = Some (sequence_of v) \<or> current = None \<and> v = []"
  shows "module_redis_command_setrange mem current offset (sequence_of w) =
    (if padding_fits (length v) offset then Some (sequence_of (setrange_value v offset w)) else None)"
proof -
  have old: "old_value current v" using assms(4) by (simp add: old_value_def)
  note start = setrange_start [OF assms(1,2) old]
  show ?thesis
  proof (cases "padding_fits (length v) offset")
    case True
    from setrange_loop_ok [OF old True start(2)] assms(3) start(3) show ?thesis
      unfolding start(1) using True by auto
  next
    case False
    then show ?thesis unfolding start(1) using setrange_loop_outside [OF old False start(2)] by simp
  qed
qed

theorem setrange_cases_witness:
  "module_redis_command_setrange (\<lambda>i n. replicate n 9) (Some (sequence_of [1, 2, 3])) 70000 (sequence_of [4]) = None
   \<and> module_redis_command_setrange (\<lambda>i n. replicate n 9) (Some (sequence_of [1, 2, 3])) 4 (sequence_of [5])
     = Some (sequence_of [1, 2, 3, 0, 5])"
  using setrange_cases [of "\<lambda>i n. replicate n 9" "[1, 2, 3]" 70000 "[4]" "Some (sequence_of [1, 2, 3])"]
    setrange_cases [of "\<lambda>i n. replicate n 9" "[1, 2, 3]" 4 "[5]" "Some (sequence_of [1, 2, 3])"]
  by (simp add: fresh_ok_def STORAGE_DB_CHUNK_MAX_SIZE_def padding_fits_def setrange_value_def)

end
