(* ===== verification/Spec2Isabelle.thy ===== *)
theory Spec2Isabelle
  imports Pow2 Transaction Hash_Search Mcmp_Props Redis_Replies Redis_Requests Double_Linked_List Ring_Queue
    Spsc_Table Slots_Bitmap_Mpmc Slots_Bitmap_Spsc Eviction_Sort Entry_Status
    Storage_Counters Stream_Entry Chunk_Commands
begin

text \<open>
  A verification development of cachegrand, a key-value cache that speaks the Redis protocol.
  Paths below are relative to \<open>src/src/\<close>.

  \<^bold>\<open>The program.\<close> A worker thread reads requests from a connection
  (\<open>protocol/redis/protocol_redis_reader.c\<close>), streams long arguments into chunks of the storage,
  runs the command (\<open>module/redis/command/\<close>) and writes the reply
  (\<open>protocol/redis/protocol_redis_writer.c\<close>) into the send buffer of the network channel
  (\<open>network/network.c\<close>). A command opens a transaction (\<open>transaction.c\<close>), and the operations of
  the storage (\<open>storage/db/\<close>) look keys up in one hash table that all workers share
  (\<open>data_structures/hashtable/mcmp/\<close>): open addressing over chunks of 14 slots, found with
  vector instructions, each chunk with a reader/writer spinlock that the transaction lists and
  gives back at its end. Entries are reference counted in a status word and collected when the last
  reader has left. Smaller structures serve these parts: a single threaded hash table for the tokens
  of the commands and for the counters per database, bitmaps that hand out slots, a ring queue and
  a list for the entries to be collected, a sorting network for the eviction.

  \<^bold>\<open>The theories.\<close> Every operation is a function that keeps the name and the branches of the C
  function; helpers for parts of a function have names of their own. A struct is a record, a mutated
  argument is passed and returned, integers keep their width as words where they can wrap around.
  A failed assertion or an access outside of an object is \<open>None\<close> or a constructor of its own, so
  that a property can say that it never happens, or exactly when it does.

  \<^item> \<open>Prelude\<close>, \<open>C_Lib\<close>, \<open>Pow2\<close> (\<open>pow2.h\<close>): machine types, \<open>memchr\<close>, \<open>strtol\<close>, decimal
    notation, rounding to powers of two. \<open>Prelude\<close> has the locale \<open>inductive_invariant\<close>.
  \<^item> \<open>Transaction\<close> (\<open>transaction.h\<close>, \<open>transaction.c\<close>): the spinlock, the lists of locks, the ids;
    \<open>rwlock_step\<close> interleaves any transactions on one lock. C1 to C4: exclusion, its limit when a
    lock is taken twice, release restores every lock, ids are distinct.
  \<^item> \<open>Hash_Search\<close> (\<open>hashtable_support_hash_search_*.h\<close>): the AVX2, NEON and AVX512F searches of a
    slot return what the portable loop returns (C12), and the locale \<open>hash_search\<close> is what the table
    relies on; the AVX search compares floats and misses NaN patterns (C13).
  \<^item> \<open>Mcmp_Table\<close>, \<open>Mcmp_Search\<close>, \<open>Mcmp_Ops\<close> (\<open>hashtable.h\<close>, \<open>hashtable_data.c\<close>,
    \<open>hashtable_support_op_arch.c\<close>, \<open>hashtable_op_*.c\<close>): the table, both key searches, and
    insertion, lookup, removal, read-modify-write, iteration. \<open>Mcmp_Inv\<close>, \<open>Mcmp_Update\<close>,
    \<open>Mcmp_Find\<close>, \<open>Mcmp_Create\<close>, \<open>Mcmp_Correct\<close> carry the invariant through them, \<open>Mcmp_Run\<close>
    wraps an operation in its transaction and interprets \<open>Kv_Store\<close>, \<open>Mcmp_Props\<close> states C5 to
    C11. The hash of a key is an argument \<open>H\<close> of every operation.
  \<^item> \<open>Kv_Store\<close>, \<open>Simulation\<close>: the contracts of a key-value store whose insertions may fail and of
    a component that refines an abstract one, as locales with their client lemmas.
  \<^item> \<open>Redis_Writer\<close>, \<open>Redis_Replies\<close>, \<open>Redis_Reader\<close>, \<open>Redis_Requests\<close>: the writers and the
    incremental reader. C14, C15: requests in any fragmentation; C16: the count of the arguments is
    cut off at 32 bits; C17, C18: replies are complete or absent, and decodable.
  \<^item> \<open>Double_Linked_List\<close> (C19), \<open>Ring_Queue\<close> (C20, C21): the list on a store of items against a
    sequence; the ring of one producer and one consumer as interleaved accesses, and against a
    bounded queue.
  \<^item> \<open>Hash_Fnv1\<close>, \<open>Hashtable_Spsc\<close>, \<open>Spsc_Table\<close> (\<open>hash/hash_fnv1.h\<close>,
    \<open>data_structures/hashtable/spsc/\<close>): the single threaded table as a map for three kinds of keys,
    growing, iteration (C22 to C25).
  \<^item> \<open>Slots_Bitmap\<close>, \<open>Slots_Bitmap_Mpmc\<close>, \<open>Slots_Bitmap_Spsc\<close>: the bitmaps as sets of slots, and
    the loads and swaps of the concurrent one interleaved (C26 to C29).
  \<^item> \<open>Eviction_Sort\<close> (C30), \<open>Entry_Status\<close> (C31), \<open>Storage_Counters\<close> (C32), \<open>Storage_Chunks\<close>
    (\<open>storage/db/\<close>): the sorting network, the reader count of an entry with any readers and the
    deleting worker interleaved, the counters over slots and tables, the chunks of a value.
  \<^item> \<open>Network_Send\<close>, \<open>Stream_Entry\<close>, \<open>Chunk_Commands\<close> (\<open>network/network.c\<close>,
    \<open>module/redis/module_redis_command.c\<close>, \<open>module/redis/command/\<close>): the send buffer, the reply of
    a value or of a range (C33 to C35), APPEND, COPY and SETRANGE (C36, C37).

  \<^bold>\<open>Concurrency.\<close> The lock, the ring, the shard of the bitmap and the status word of an entry are
  step relations over atomic accesses, and their properties hold for every interleaving. The memory
  is sequentially consistent. The operations of the hash table run in one piece, in any state of the
  locks that other transactions may hold.

  \<^bold>\<open>Bounds and loops.\<close> Every function terminates. Loops of the code that count are structural
  recursions over the count; the loops that spin on a lock run as often as the code allows before it
  reports a stuck lock. No fuel limits what a property says: iterations over a table take its number
  of buckets, and reading a request takes one call per argument. Hypotheses bound what the code
  keeps in narrower types: blobs below \<open>2 ^ 31\<close> bytes, arguments below \<open>2 ^ 32\<close>, at most 1024
  workers, chunks counted in 16 bits, readers below \<open>2 ^ 31\<close>.

  \<^bold>\<open>Parameters.\<close> The hash function of the keys, the results of the system calls that send, and the
  contents of fresh memory are arguments; \<open>can_send\<close> and \<open>fresh_ok\<close> say what is relied on: the
  kernel takes at least one byte per call and no more than it is given, and an allocation gives
  memory of the requested size.

  \<^bold>\<open>Not modelled.\<close> Resizing of the shared hash table (the code has none), doubles and printf formats
  in replies, TLS and receiving, files and io_uring, fibers, snapshots, the loop of a connection and
  the tables of the commands, the remaining commands, expiry and eviction apart from the sort,
  configuration, logging and metrics. They are system calls, third-party or generated code, or they
  call the modelled functions around such calls.
\<close>

end
